(* ===== verification/Prelude.thy ===== *)
theory Prelude
  imports Main "HOL-Library.Word"
begin

text \<open>
  Types, error values and generic lemmas that every component of the packetcomms model uses.

  Bytes are \<open>8 word\<close>, the C++ integers of fixed width are words of that width
  (\<open>uint32_t\<close> is \<open>u32\<close>, \<open>size_t\<close> is \<open>usize\<close>). What ends an operation other than by
  returning is a value of \<open>cxx_error\<close>. A loop that may run forever returns an
  \<open>option\<close>: \<open>None\<close> means that the call does not return.
\<close>

type_synonym byte = "8 word"
type_synonym u16 = "16 word"
type_synonym u32 = "32 word"
type_synonym usize = "64 word"

section \<open>Ways an operation ends abnormally\<close>

text \<open>
  \<open>AssertionFailed\<close> is a failed \<open>assert\<close> (the build never defines \<open>NDEBUG\<close>: the
  release flags of CMakeLists.txt are plain \<open>-O3\<close>), \<open>OutOfRange\<close> and \<open>LengthError\<close> are
  the exceptions of the standard containers, \<open>UndefinedBehaviour\<close> is an access that the
  C++ standard leaves undefined.
\<close>

datatype cxx_error = AssertionFailed | OutOfRange | LengthError | UndefinedBehaviour

type_synonym 'a outcome = "cxx_error + 'a"
type_synonym 'a run = "'a outcome option"

text \<open>Sequencing of calls that may fail (\<open>Inl\<close>) or not return (\<open>None\<close>).\<close>

fun and_then :: "'a run \<Rightarrow> ('a \<Rightarrow> 'b run) \<Rightarrow> 'b run" where
  "and_then None f = None"
| "and_then (Some (Inl e)) f = Some (Inl e)"
| "and_then (Some (Inr x)) f = f x"

fun bind_outcome :: "'a outcome \<Rightarrow> ('a \<Rightarrow> 'b outcome) \<Rightarrow> 'b outcome" where
  "bind_outcome (Inl e) f = Inl e"
| "bind_outcome (Inr x) f = f x"

text \<open>When a sequence of calls has a given result.\<close>

named_theorems outcome_eqs

lemma and_then_eq_Some [outcome_eqs]:
  "and_then r f = Some y \<longleftrightarrow>
     (\<exists>e. r = Some (Inl e) \<and> y = Inl e) \<or> (\<exists>x. r = Some (Inr x) \<and> f x = Some y)"
  by (cases "(r, f)" rule: and_then.cases) auto

lemma and_then_cong [fundef_cong]:
  "r = r' \<Longrightarrow> (\<And>x. r' = Some (Inr x) \<Longrightarrow> f x = g x) \<Longrightarrow> and_then r f = and_then r' g"
  by (cases "(r', f)" rule: and_then.cases) auto

lemma bind_outcome_eq_Inr [outcome_eqs]:
  "bind_outcome r f = Inr y \<longleftrightarrow> (\<exists>x. r = Inr x \<and> f x = Inr y)"
  by (cases r) auto

section \<open>Integer conversions\<close>

text \<open>The conversion of a wider integer to the 32-bit \<open>int\<close> of the supported platforms.\<close>

definition to_int32 :: "int \<Rightarrow> int" where
  "to_int32 i = sint (word_of_int i :: u32)"

lemma to_int32_id [simp]: "- (2 ^ 31) \<le> i \<Longrightarrow> i < 2 ^ 31 \<Longrightarrow> to_int32 i = i"
  unfolding to_int32_def by (simp add: signed_of_int signed_take_bit_int_eq_self)

text \<open>
  The bounds are written out, as the simplifier writes them, so that these rules apply.
\<close>

lemma unat_of_nat_usize [simp]:
  "n < 18446744073709551616 \<Longrightarrow> unat (of_nat n :: usize) = n"
  by (simp add: unat_of_nat take_bit_nat_eq_self)

lemma unat_of_nat_u32 [simp]: "n < 4294967296 \<Longrightarrow> unat (of_nat n :: u32) = n"
  by (simp add: unat_of_nat take_bit_nat_eq_self)

lemma usize_of_nat_pos [simp]:
  "n < 18446744073709551616 \<Longrightarrow> (0 < (of_nat n :: usize)) = (0 < n)"
  by (simp add: word_less_nat_alt)

lemma ucast_of_nat_u32 [simp]: "ucast (of_nat n :: usize) = (of_nat n :: u32)"
  by (rule bit_word_eqI) (simp add: bit_simps)

lemma to_int32_wrap:
  assumes "2 ^ 31 \<le> i" "i < 2 ^ 32"
  shows "to_int32 i = i - 2 ^ 32"
proof -
  have "(word_of_int i :: u32) = word_of_int (i - 2 ^ 32)"
    by (simp only: word_of_int_eq_iff take_bit_eq_mod) simp
  then have "to_int32 i = to_int32 (i - 2 ^ 32)"
    by (simp only: to_int32_def)
  also have "\<dots> = i - 2 ^ 32"
    using assms by (intro to_int32_id) simp_all
  finally show ?thesis .
qed

lemma usize_diff_of_int:
  "k \<le> n \<Longrightarrow> (of_nat n :: usize) - word_of_int (int k) = of_nat (n - k)"
  by (simp add: of_nat_diff)

section \<open>Lists\<close>

lemma take_append_exact: "length xs = n \<Longrightarrow> take n (xs @ ys) = xs"
  by simp

lemma drop_append_exact: "length xs = n \<Longrightarrow> drop n (xs @ ys) = ys"
  by simp

lemma take_append_drop_append [simp]: "take n xs @ drop n xs @ ys = xs @ ys"
  by (simp flip: append_assoc)

lemma filter_eq_singleton_distinct:
  "distinct xs \<Longrightarrow> x \<in> set xs \<Longrightarrow> filter (\<lambda>y. y = x) xs = [x]"
  by (induction xs) (auto simp: filter_empty_conv)

end
