(* ===== verification/IdManager.thy ===== *)
theory IdManager
  imports Prelude
begin

text \<open>
  The table of packet identifiers (IdManager.h, IdManager.cpp). A muxer and a demuxer are
  each given the list of names of the application's packet types; the table numbers the
  names, after the two reserved ones, in the order of the list. The section proves that
  the two directions of the table are inverse to each other.
\<close>

section \<open>The table and its construction\<close>

record id_manager =
  m_map :: "string \<rightharpoonup> u32"
  m_reverse :: "string list"

definition InvalidPacket :: u32 where "InvalidPacket = 0"

definition ControlPacket :: u32 where "ControlPacket = 1"

definition InvalidString :: string where "InvalidString = ''__INVALID__''"

definition ControlString :: string where "ControlString = ''__CONTROL__''"

text \<open>The loop of the constructor; \<open>k\<close> is the \<open>std::size_t\<close> counter \<open>id\<close>.\<close>

fun register_names :: "string list \<Rightarrow> usize \<Rightarrow> id_manager \<Rightarrow> id_manager outcome" where
  "register_names [] k ids = Inr ids"
| "register_names (name # names) k ids =
     (if m_map ids name \<noteq> None then Inl AssertionFailed
      else let k' = k + 1 in
        register_names names k'
          (ids\<lparr>m_map := (m_map ids)(name \<mapsto> ucast k'), m_reverse := m_reverse ids @ [name]\<rparr>))"

definition IdManager_ctor :: "string list \<Rightarrow> id_manager outcome" where
  "IdManager_ctor names =
     register_names names (ucast ControlPacket)
       \<lparr>m_map = [InvalidString \<mapsto> InvalidPacket, ControlString \<mapsto> ControlPacket],
        m_reverse = [InvalidString, ControlString]\<rparr>"

text \<open>\<open>std::map::at\<close> throws for a name that is not there.\<close>

definition toId :: "id_manager \<Rightarrow> string \<Rightarrow> u32 outcome" where
  "toId ids name = (case m_map ids name of None \<Rightarrow> Inl OutOfRange | Some t \<Rightarrow> Inr t)"

text \<open>\<open>std::vector::operator[]\<close> does not check its index.\<close>

definition toString :: "id_manager \<Rightarrow> u32 \<Rightarrow> string outcome" where
  "toString ids t =
     (if unat t < length (m_reverse ids) then Inr (m_reverse ids ! unat t)
      else Inl UndefinedBehaviour)"

section \<open>What the constructor builds\<close>

definition index_map :: "string list \<Rightarrow> string \<rightharpoonup> u32" where
  "index_map names = map_of (zip names (map of_nat [0..<length names]))"

text \<open>The well-formedness of a table: the map is the index of the list of names.\<close>

definition ids_wf :: "id_manager \<Rightarrow> bool" where
  "ids_wf ids \<longleftrightarrow> distinct (m_reverse ids) \<and> m_map ids = index_map (m_reverse ids)"

lemma index_map_eq_None: "index_map names n = None \<longleftrightarrow> n \<notin> set names"
  by (simp add: index_map_def map_of_zip_is_None)

lemma index_map_snoc:
  assumes "name \<notin> set names"
  shows "index_map (names @ [name]) = (index_map names)(name \<mapsto> of_nat (length names))"
proof
  fix n
  have "index_map (names @ [name]) = [name \<mapsto> of_nat (length names)] ++ index_map names"
    by (simp add: index_map_def)
  moreover have "index_map names name = None"
    using assms by (simp add: index_map_eq_None)
  ultimately show
    "index_map (names @ [name]) n = ((index_map names)(name \<mapsto> of_nat (length names))) n"
    by (simp add: map_add_def split: option.split)
qed

lemma index_map_Some:
  "distinct names \<Longrightarrow>
    index_map names n = Some t \<longleftrightarrow> (\<exists>i < length names. names ! i = n \<and> t = of_nat i)"
  by (auto simp: index_map_def map_of_eq_Some_iff set_zip)

lemma register_names_spec:
  assumes "ids_wf ids" "m_reverse ids \<noteq> []" "k = of_nat (length (m_reverse ids) - 1)"
  shows "register_names names k ids =
     (if distinct (m_reverse ids @ names)
      then Inr \<lparr>m_map = index_map (m_reverse ids @ names), m_reverse = m_reverse ids @ names\<rparr>
      else Inl AssertionFailed)"
  using assms
proof (induction names arbitrary: k ids)
  case Nil
  then show ?case by (cases ids) (simp add: ids_wf_def)
next
  case (Cons name names)
  define ids' where "ids' =
    ids\<lparr>m_map := (m_map ids)(name \<mapsto> ucast (k + 1)), m_reverse := m_reverse ids @ [name]\<rparr>"
  have fresh: "m_map ids name = None \<longleftrightarrow> name \<notin> set (m_reverse ids)"
    using Cons.prems(1) by (simp add: ids_wf_def index_map_eq_None)
  show ?case
  proof (cases "m_map ids name = None")
    case True
    have k': "k + 1 = of_nat (length (m_reverse ids))"
      using Cons.prems by (cases "m_reverse ids") simp_all
    have "ids_wf ids'"
      using True Cons.prems(1) fresh k'
      by (simp add: ids_wf_def ids'_def index_map_snoc ucast_of_nat_u32)
    then have "register_names names (k + 1) ids' =
      (if distinct (m_reverse ids' @ names)
       then Inr \<lparr>m_map = index_map (m_reverse ids' @ names), m_reverse = m_reverse ids' @ names\<rparr>
       else Inl AssertionFailed)"
      using k' by (intro Cons.IH) (simp_all add: ids'_def)
    then show ?thesis
      using True fresh by (simp add: ids'_def Let_def)
  qed (use fresh in auto)
qed

theorem IdManager_ctor_spec:
  "IdManager_ctor names =
     (if distinct (InvalidString # ControlString # names)
      then Inr \<lparr>m_map = index_map (InvalidString # ControlString # names),
                m_reverse = InvalidString # ControlString # names\<rparr>
      else Inl AssertionFailed)"
proof -
  have "ids_wf \<lparr>m_map = [InvalidString \<mapsto> InvalidPacket, ControlString \<mapsto> ControlPacket],
                 m_reverse = [InvalidString, ControlString]\<rparr>"
    by (auto simp: ids_wf_def index_map_def InvalidString_def ControlString_def
        InvalidPacket_def ControlPacket_def fun_eq_iff)
  then show ?thesis
    unfolding IdManager_ctor_def
    by (subst register_names_spec) (simp_all add: ControlPacket_def)
qed

lemma IdManager_ctor_wf:
  assumes "IdManager_ctor names = Inr ids"
  shows "ids_wf ids" and "m_reverse ids = InvalidString # ControlString # names"
  using assms by (auto simp: IdManager_ctor_spec ids_wf_def split: if_splits)

section \<open>The two directions of the table\<close>

text \<open>
  What the muxer and the demuxer rely on: a table with fewer than \<open>2\<^sup>3\<^sup>2\<close> names converts
  names to identifiers and back.
\<close>

locale packet_ids =
  fixes valid :: "'ids \<Rightarrow> bool"
    and to_id :: "'ids \<Rightarrow> string \<Rightarrow> u32 outcome"
    and to_string :: "'ids \<Rightarrow> u32 \<Rightarrow> string outcome"
  assumes to_string_iff: "valid ids \<Longrightarrow> to_string ids t = Inr n \<longleftrightarrow> to_id ids n = Inr t"
begin

lemma to_string_to_id: "valid ids \<Longrightarrow> to_id ids n = Inr t \<Longrightarrow> to_string ids t = Inr n"
  by (simp add: to_string_iff)

lemma to_id_inject:
  "valid ids \<Longrightarrow> to_id ids n = Inr t \<Longrightarrow> to_id ids n' = Inr t \<Longrightarrow> n = n'"
  by (metis to_string_iff sum.inject(2))

end

definition ids_valid :: "id_manager \<Rightarrow> bool" where
  "ids_valid ids \<longleftrightarrow> ids_wf ids \<and> length (m_reverse ids) \<le> 2 ^ 32"

lemma toId_eq_Inr: "toId ids n = Inr t \<longleftrightarrow> m_map ids n = Some t"
  by (simp add: toId_def split: option.split)

lemma toId_iff:
  "ids_wf ids \<Longrightarrow>
    toId ids n = Inr t \<longleftrightarrow> (\<exists>i < length (m_reverse ids). m_reverse ids ! i = n \<and> t = of_nat i)"
  by (simp add: toId_eq_Inr ids_wf_def index_map_Some)

interpretation table: packet_ids ids_valid toId toString
proof
  fix ids t n
  assume valid: "ids_valid ids"
  then have unat: "i < length (m_reverse ids) \<Longrightarrow> unat (of_nat i :: u32) = i" for i
    by (simp add: ids_valid_def)
  have "toId ids n = Inr t \<longleftrightarrow>
      (\<exists>i < length (m_reverse ids). m_reverse ids ! i = n \<and> t = of_nat i)"
    using valid by (simp add: ids_valid_def toId_iff)
  also have "\<dots> \<longleftrightarrow> unat t < length (m_reverse ids) \<and> m_reverse ids ! unat t = n"
    using unat by (auto intro: exI [of _ "unat t"])
  finally show "toString ids t = Inr n \<longleftrightarrow> toId ids n = Inr t"
    by (simp add: toString_def)
qed

end
