(* ===== verification/Byte_Order.thy ===== *)
theory Byte_Order
  imports Prelude
begin

unbundle bit_operations_syntax

text \<open>
  How 32-bit and 16-bit unsigned integers lie in memory, and the standard conversions
  between host and network byte order (\<open>htonl\<close>, \<open>ntohl\<close>, \<open>htons\<close>, \<open>ntohs\<close>). The byte
  order of the host is a parameter of the model: the two ends of a connection may differ
  in it, and what the packet header looks like on the wire must not depend on it.
\<close>

datatype host_order = LittleEndian | BigEndian

section \<open>Most significant byte first\<close>

definition be32 :: "u32 \<Rightarrow> byte list" where
  "be32 w = [ucast (drop_bit 24 w), ucast (drop_bit 16 w), ucast (drop_bit 8 w), ucast w]"

definition of_be32 :: "byte list \<Rightarrow> u32" where
  "of_be32 bs = foldl (\<lambda>acc b. push_bit 8 acc OR ucast b) 0 bs"

lemma length_be32 [simp]: "length (be32 w) = 4"
  by (simp add: be32_def)

lemma of_be32_be32 [simp]: "of_be32 (be32 w) = w"
proof (rule bit_word_eqI)
  fix n assume "n < LENGTH(32)"
  then consider "n < 8" | "8 \<le> n" "n < 16" | "16 \<le> n" "n < 24" | "24 \<le> n" "n < 32"
    by fastforce
  then show "bit (of_be32 (be32 w)) n = bit w n"
    by cases (auto simp: be32_def of_be32_def bit_simps)
qed

lemma bit_byte_less: "bit (b :: byte) n \<Longrightarrow> n < 8"
  using bit_imp_le_length [of b n] by simp

lemma be32_of_be32_bytes: "be32 (of_be32 [a, b, c, d]) = [a, b, c, d]"
  by (auto simp: be32_def of_be32_def intro!: bit_word_eqI)
    (auto simp: bit_simps dest: bit_byte_less)

lemma be32_of_be32 [simp]: "length bs = 4 \<Longrightarrow> be32 (of_be32 bs) = bs"
  by (auto simp: length_Suc_conv numeral_eq_Suc be32_of_be32_bytes)

lemma be32_inject [simp]: "be32 v = be32 w \<longleftrightarrow> v = w"
  by (metis of_be32_be32)

section \<open>The memory of the host\<close>

text \<open>What \<open>reinterpret_cast\<close> of a pointer to the integer to a byte pointer shows.\<close>

definition mem32 :: "host_order \<Rightarrow> u32 \<Rightarrow> byte list" where
  "mem32 h w = (case h of BigEndian \<Rightarrow> be32 w | LittleEndian \<Rightarrow> rev (be32 w))"

definition load32 :: "host_order \<Rightarrow> byte list \<Rightarrow> u32" where
  "load32 h bs = (case h of BigEndian \<Rightarrow> of_be32 bs | LittleEndian \<Rightarrow> of_be32 (rev bs))"

definition bswap32 :: "u32 \<Rightarrow> u32" where
  "bswap32 w = of_be32 (rev (be32 w))"

definition htonl :: "host_order \<Rightarrow> u32 \<Rightarrow> u32" where
  "htonl h w = (case h of BigEndian \<Rightarrow> w | LittleEndian \<Rightarrow> bswap32 w)"

definition ntohl :: "host_order \<Rightarrow> u32 \<Rightarrow> u32" where
  "ntohl h w = (case h of BigEndian \<Rightarrow> w | LittleEndian \<Rightarrow> bswap32 w)"

lemma length_mem32 [simp]: "length (mem32 h w) = 4"
  by (cases h) (simp_all add: mem32_def)

lemma load32_mem32 [simp]: "load32 h (mem32 h w) = w"
  by (cases h) (simp_all add: load32_def mem32_def)

lemma mem32_load32 [simp]: "length bs = 4 \<Longrightarrow> mem32 h (load32 h bs) = bs"
  by (cases h) (simp_all add: load32_def mem32_def)

text \<open>On any host the converted integer lies in memory most significant byte first.\<close>

lemma mem32_htonl [simp]: "mem32 h (htonl h w) = be32 w"
  by (cases h) (simp_all add: mem32_def htonl_def bswap32_def)

lemma ntohl_load32_be32 [simp]: "ntohl h (load32 h (be32 w)) = w"
  by (cases h) (simp_all add: load32_def ntohl_def bswap32_def)

lemma ntohl_load32: "length bs = 4 \<Longrightarrow> ntohl h (load32 h bs) = of_be32 bs"
  by (metis be32_of_be32 ntohl_load32_be32)

section \<open>16-bit integers\<close>

definition be16 :: "u16 \<Rightarrow> byte list" where
  "be16 w = [ucast (drop_bit 8 w), ucast w]"

definition bswap16 :: "u16 \<Rightarrow> u16" where
  "bswap16 w = push_bit 8 w OR drop_bit 8 w"

definition mem16 :: "host_order \<Rightarrow> u16 \<Rightarrow> byte list" where
  "mem16 h w = (case h of BigEndian \<Rightarrow> be16 w | LittleEndian \<Rightarrow> rev (be16 w))"

definition htons :: "host_order \<Rightarrow> u16 \<Rightarrow> u16" where
  "htons h w = (case h of BigEndian \<Rightarrow> w | LittleEndian \<Rightarrow> bswap16 w)"

definition ntohs :: "host_order \<Rightarrow> u16 \<Rightarrow> u16" where
  "ntohs h w = (case h of BigEndian \<Rightarrow> w | LittleEndian \<Rightarrow> bswap16 w)"

lemma bswap16_bswap16 [simp]: "bswap16 (bswap16 w) = w"
proof (rule bit_word_eqI)
  fix n assume "n < LENGTH(16)"
  then consider "n < 8" | "8 \<le> n" "n < 16"
    by fastforce
  then show "bit (bswap16 (bswap16 w)) n = bit w n"
    by cases (auto simp: bswap16_def bit_simps dest: bit_imp_le_length)
qed

lemma ntohs_htons [simp]: "ntohs h (htons h w) = w"
  by (cases h) (simp_all add: ntohs_def htons_def)

lemma mem16_htons [simp]: "mem16 h (htons h w) = be16 w"
proof (cases h)
  case LittleEndian
  have "ucast (drop_bit 8 (bswap16 w)) = (ucast w :: byte)"
    by (rule bit_word_eqI) (auto simp: bswap16_def bit_simps dest: bit_imp_le_length)
  moreover have "ucast (bswap16 w) = (ucast (drop_bit 8 w) :: byte)"
    by (rule bit_word_eqI) (auto simp: bswap16_def bit_simps)
  ultimately show ?thesis
    using LittleEndian by (simp add: mem16_def htons_def be16_def)
qed (simp add: mem16_def htons_def)

end
