(* ===== verification/ComPacket.thy ===== *)
theory ComPacket
  imports IdManager Byte_Order
begin

text \<open>
  Packets (ComPacket.h): a type identifier and a vector of bytes, with the constructors and
  move operations of the class; and the form a packet has on the transport stream, which
  both PacketMuxer::sendPacket and PacketDemuxer::receivePacket must agree on.
\<close>

section \<open>The class\<close>

record com_packet =
  m_type :: u32
  m_data :: "byte list"

definition ComPacket_default :: com_packet where
  "ComPacket_default = \<lparr>m_type = InvalidPacket, m_data = []\<rparr>"

text \<open>
  The copy of \<open>sz\<close> bytes from a pointer; \<open>buffer\<close> is the memory that may be read there.
  A range that leaves it, or a negative one, is not defined.
\<close>

definition ComPacket_buffer :: "u32 \<Rightarrow> byte list \<Rightarrow> int \<Rightarrow> com_packet outcome" where
  "ComPacket_buffer type buffer sz =
     (if 0 \<le> sz \<and> sz \<le> int (length buffer)
      then Inr \<lparr>m_type = type, m_data = take (nat sz) buffer\<rparr>
      else Inl UndefinedBehaviour)"

text \<open>The vector passed as an rvalue is swapped with the new packet's empty one.\<close>

definition ComPacket_move_buffer :: "u32 \<Rightarrow> byte list \<Rightarrow> com_packet \<times> byte list" where
  "ComPacket_move_buffer type buffer = (\<lparr>m_type = type, m_data = buffer\<rparr>, [])"

text \<open>
  A packet of \<open>sz\<close> zero bytes. The parameter is an \<open>int\<close>, which the vector's constructor
  takes as a \<open>std::size_t\<close>: a negative value becomes one above \<open>max_size()\<close>.
\<close>

definition vector_max_size :: nat where "vector_max_size = 2 ^ 63 - 1"

definition ComPacket_sized :: "u32 \<Rightarrow> int \<Rightarrow> com_packet outcome" where
  "ComPacket_sized type sz =
     (let n = unat (word_of_int sz :: usize)
      in if vector_max_size < n then Inl LengthError
         else Inr \<lparr>m_type = type, m_data = replicate n 0\<rparr>)"

text \<open>
  Move operations return the target first and the packet that was moved from second.
\<close>

definition ComPacket_move :: "com_packet \<Rightarrow> com_packet \<times> com_packet" where
  "ComPacket_move p = (\<lparr>m_type = m_type p, m_data = m_data p\<rparr>,
     \<lparr>m_type = InvalidPacket, m_data = []\<rparr>)"

definition ComPacket_assign :: "com_packet \<Rightarrow> com_packet \<Rightarrow> com_packet \<times> com_packet" where
  "ComPacket_assign q p = (q\<lparr>m_type := m_type p, m_data := m_data p\<rparr>,
     p\<lparr>m_type := m_type q, m_data := m_data q\<rparr>)"

text \<open>\<open>std::swap\<close> on packets: a move construction and two move assignments.\<close>

definition ComPacket_swap :: "com_packet \<Rightarrow> com_packet \<Rightarrow> com_packet \<times> com_packet" where
  "ComPacket_swap a b =
     (let (tmp, a1) = ComPacket_move a; (a2, b1) = ComPacket_assign a1 b;
          (b2, tmp') = ComPacket_assign b1 tmp
      in (a2, b2))"

definition getType :: "com_packet \<Rightarrow> u32" where "getType p = m_type p"

definition getData :: "com_packet \<Rightarrow> byte list" where "getData p = m_data p"

definition getDataSize :: "com_packet \<Rightarrow> usize" where
  "getDataSize p = of_nat (length (m_data p))"

lemma ComPacket_move [simp]: "ComPacket_move p = (p, ComPacket_default)"
  by (simp add: ComPacket_move_def ComPacket_default_def)

lemma ComPacket_swap [simp]: "ComPacket_swap a b = (b, a)"
  by (simp add: ComPacket_swap_def ComPacket_move_def ComPacket_assign_def)

text \<open>
  The vector's size bounds what a packet can hold. Every packet of the program has it:
  it is a property of \<open>std::vector\<close>, kept here as a predicate.
\<close>

definition packet_fits :: "com_packet \<Rightarrow> bool" where
  "packet_fits p \<longleftrightarrow> length (m_data p) \<le> vector_max_size"

lemma packet_fits_size:
  "packet_fits p \<Longrightarrow> length (m_data p) < 2 ^ 64"
  by (simp add: packet_fits_def vector_max_size_def)

lemma unat_getDataSize:
  "packet_fits p \<Longrightarrow> unat (getDataSize p) = length (m_data p)"
  using packet_fits_size [of p] by (simp add: getDataSize_def)

lemma unat_word_of_int_usize:
  "- (2 ^ 63) \<le> i \<Longrightarrow> i < 2 ^ 63 \<Longrightarrow>
    unat (word_of_int i :: usize) = (if 0 \<le> i then nat i else nat (2 ^ 64 + i))"
proof -
  assume i: "- (2 ^ 63) \<le> i" "i < 2 ^ 63"
  have "uint (word_of_int i :: usize) = i mod 2 ^ 64"
    by (simp add: uint_word_of_int)
  also have "\<dots> = (if 0 \<le> i then i else 2 ^ 64 + i)"
    using i mod_pos_pos_trivial [of i "2 ^ 64"] mod_pos_pos_trivial [of "i + 2 ^ 64" "2 ^ 64"]
    by (simp add: add.commute)
  finally show ?thesis
    by (simp add: unat_eq_nat_uint)
qed

theorem ComPacket_sized_spec:
  assumes "- (2 ^ 31) \<le> sz" "sz < 2 ^ 31"
  shows "ComPacket_sized type sz =
    (if 0 \<le> sz then Inr \<lparr>m_type = type, m_data = replicate (nat sz) 0\<rparr>
     else Inl LengthError)"
  using assms unat_word_of_int_usize [of sz]
  by (auto simp: ComPacket_sized_def vector_max_size_def Let_def)

section \<open>The form on the stream\<close>

text \<open>Type, length of the data, data; both integers in network byte order.\<close>

definition wire :: "com_packet \<Rightarrow> byte list" where
  "wire p = be32 (m_type p) @ be32 (of_nat (length (m_data p))) @ m_data p"

definition parse_wire :: "byte list \<Rightarrow> (com_packet \<times> byte list) option" where
  "parse_wire bs =
     (let n = unat (of_be32 (take 4 (drop 4 bs)))
      in if length bs < 8 + n then None
         else Some (\<lparr>m_type = of_be32 (take 4 bs), m_data = take n (drop 8 bs)\<rparr>,
                    drop (8 + n) bs))"

fun parse_stream :: "nat \<Rightarrow> byte list \<Rightarrow> com_packet list option" where
  "parse_stream 0 bs = (if bs = [] then Some [] else None)"
| "parse_stream (Suc k) bs =
     (case parse_wire bs of None \<Rightarrow> None
      | Some (p, rest) \<Rightarrow> map_option (Cons p) (parse_stream k rest))"

lemma parse_wire_wire:
  assumes "length (m_data p) < 2 ^ 32"
  shows "parse_wire (wire p @ rest) = Some (p, rest)"
proof -
  have "unat (of_nat (length (m_data p)) :: u32) = length (m_data p)"
    using assms by simp
  then show ?thesis
    by (simp add: parse_wire_def wire_def)
qed

lemma parse_stream_wire:
  "\<forall>p \<in> set ps. length (m_data p) < 2 ^ 32 \<Longrightarrow>
    parse_stream (length ps) (concat (map wire ps)) = Some ps"
  by (induction ps) (simp_all add: parse_wire_wire)

lemma wire_inject:
  "length (m_data p) < 2 ^ 32 \<Longrightarrow> length (m_data q) < 2 ^ 32 \<Longrightarrow>
    wire p @ r = wire q @ s \<longleftrightarrow> p = q \<and> r = s"
  by (metis parse_wire_wire Pair_inject option.inject)

end
