(* ===== verification/ControlMessage.thy ===== *)
theory ControlMessage
  imports ComPacket
begin

text \<open>
  The one-byte messages a muxer sends to its demuxer (ControlMessage.h). The enumeration
  has a fixed underlying type, so \<open>static_cast\<close> from any byte is defined: a byte that is
  no enumerator converts to a value that equals none of them, here \<open>Other\<close>.
\<close>

datatype control_message = HeartBeat | Hello | GoodBye | Other byte

fun control_value :: "control_message \<Rightarrow> byte" where
  "control_value HeartBeat = 0"
| "control_value Hello = 254"
| "control_value GoodBye = 255"
| "control_value (Other b) = b"

definition control_of :: "byte \<Rightarrow> control_message" where
  "control_of b =
     (if b = 0 then HeartBeat else if b = 254 then Hello
      else if b = 255 then GoodBye else Other b)"

lemma control_value_of [simp]: "control_value (control_of b) = b"
  by (simp add: control_of_def)

lemma control_of_eq_Hello: "control_of b = Hello \<longleftrightarrow> b = 254"
  by (simp add: control_of_def)

text \<open>The packet that carries a control message.\<close>

definition control_packet :: "control_message \<Rightarrow> com_packet" where
  "control_packet msg = \<lparr>m_type = ControlPacket, m_data = [control_value msg]\<rparr>"

lemma control_packet_fields [simp]:
  "m_type (control_packet msg) = ControlPacket" "packet_fits (control_packet msg)"
  by (simp_all add: control_packet_def packet_fits_def vector_max_size_def)

end
