(* ===== verification/AbstractSocket.thy ===== *)
theory AbstractSocket
  imports Prelude
begin

text \<open>
  The transport interface (network/AbstractSocket.h). The pure virtual classes are records
  of functions, one per virtual method, over the state \<open>'w\<close> of whatever implements them
  (and of the world behind it). The muxer and the demuxer are written against these
  records only; the locales state what an implementation promises, so that the results
  about the muxer and the demuxer hold for every transport that keeps its promise.
\<close>

section \<open>The interfaces\<close>

text \<open>
  \<open>wr_write W data w\<close> is a call \<open>write(ptr, size)\<close> with \<open>data\<close> the \<open>size\<close> bytes at \<open>ptr\<close>.
  \<open>rd_read R n w\<close> is a call \<open>read(ptr, n)\<close>: the returned \<open>int\<close> and the bytes stored at
  \<open>ptr\<close>.
\<close>

record 'w abstract_writer =
  wr_setBlocking :: "bool \<Rightarrow> 'w \<Rightarrow> 'w"
  wr_write :: "byte list \<Rightarrow> 'w \<Rightarrow> int \<times> 'w"

record 'w abstract_reader =
  rd_setBlocking :: "bool \<Rightarrow> 'w \<Rightarrow> 'w"
  rd_read :: "usize \<Rightarrow> 'w \<Rightarrow> int \<times> byte list \<times> 'w"
  rd_readyForReading :: "int \<Rightarrow> 'w \<Rightarrow> bool \<times> 'w"

section \<open>What a writer promises\<close>

text \<open>
  A writer either fails with a negative value and transmits nothing, or transmits the
  prefix of the data whose length it returns. \<open>sent\<close> is what has been transmitted so far,
  which a change of the blocking mode leaves alone.
\<close>

definition writer_contract :: "'w abstract_writer \<Rightarrow> ('w \<Rightarrow> byte list) \<Rightarrow> bool" where
  "writer_contract W sent \<longleftrightarrow>
     (\<forall>data w n w'. wr_write W data w = (n, w') \<longrightarrow>
        n \<le> int (length data) \<and> sent w' = sent w @ take (nat n) data) \<and>
     (\<forall>b w. sent (wr_setBlocking W b w) = sent w)"

text \<open>
  A reliable writer never fails, and it cannot accept zero bytes of data forever: \<open>lag\<close>
  bounds how often it still does so.
\<close>

definition sink_contract ::
    "'w abstract_writer \<Rightarrow> ('w \<Rightarrow> byte list) \<Rightarrow> ('w \<Rightarrow> nat) \<Rightarrow> bool" where
  "sink_contract W sent lag \<longleftrightarrow> writer_contract W sent \<and>
     (\<forall>data w n w'. wr_write W data w = (n, w') \<longrightarrow>
        0 \<le> n \<and> (n = 0 \<longrightarrow> data \<noteq> [] \<longrightarrow> lag w' < lag w))"

locale byte_writer =
  fixes W :: "'w abstract_writer" and sent :: "'w \<Rightarrow> byte list"
  assumes writer: "writer_contract W sent"
begin

lemma write_le: "wr_write W data w = (n, w') \<Longrightarrow> n \<le> int (length data)"
  using writer by (simp add: writer_contract_def)

lemma write_sent: "wr_write W data w = (n, w') \<Longrightarrow> sent w' = sent w @ take (nat n) data"
  using writer by (simp add: writer_contract_def)

lemma setBlocking_sent: "sent (wr_setBlocking W b w) = sent w"
  using writer by (simp add: writer_contract_def)

end

locale byte_sink = byte_writer +
  fixes lag :: "'w \<Rightarrow> nat"
  assumes sink: "sink_contract W sent lag"
begin

lemma write_nonneg: "wr_write W data w = (n, w') \<Longrightarrow> 0 \<le> n"
  using sink by (simp add: sink_contract_def)

lemma write_progress:
  "wr_write W data w = (n, w') \<Longrightarrow> data \<noteq> [] \<Longrightarrow> 0 < n \<or> lag w' < lag w"
  using sink by (force simp: sink_contract_def)

end

section \<open>What a reader promises\<close>

text \<open>
  \<open>pending\<close> is the stream of bytes still to be read, those that have not arrived yet
  included. A read delivers a prefix of it, of at most the size asked for, and may fail
  only when nothing is pending; asking whether bytes are ready takes none of them, and nor
  does a change of the blocking mode.
  While bytes are pending, reads of zero bytes and timed-out waits do not go on forever.
\<close>

definition reader_contract :: "'w abstract_reader \<Rightarrow> ('w \<Rightarrow> byte list) \<Rightarrow> bool" where
  "reader_contract R pending \<longleftrightarrow>
     (\<forall>sz w n bs w'. rd_read R sz w = (n, bs, w') \<longrightarrow>
        (if n < 0 then pending w = [] \<and> pending w' = []
         else n \<le> int (unat sz) \<and> length bs = nat n \<and> pending w = bs @ pending w')) \<and>
     (\<forall>ms w b w'. rd_readyForReading R ms w = (b, w') \<longrightarrow> pending w' = pending w) \<and>
     (\<forall>b w. pending (rd_setBlocking R b w) = pending w)"

definition source_contract ::
    "'w abstract_reader \<Rightarrow> ('w \<Rightarrow> byte list) \<Rightarrow> ('w \<Rightarrow> nat) \<Rightarrow> bool" where
  "source_contract R pending lag \<longleftrightarrow> reader_contract R pending \<and>
     (\<forall>sz w n bs w'. rd_read R sz w = (n, bs, w') \<longrightarrow> pending w \<noteq> [] \<longrightarrow> 0 < sz \<longrightarrow>
        n = 0 \<longrightarrow> lag w' < lag w) \<and>
     (\<forall>ms w b w'. rd_readyForReading R ms w = (b, w') \<longrightarrow> pending w \<noteq> [] \<longrightarrow>
        lag w' \<le> lag w \<and> (\<not> b \<longrightarrow> lag w' < lag w))"

locale byte_reader =
  fixes R :: "'w abstract_reader" and pending :: "'w \<Rightarrow> byte list"
  assumes reader: "reader_contract R pending"
begin

lemma read_fail: "rd_read R sz w = (n, bs, w') \<Longrightarrow> n < 0 \<Longrightarrow> pending w = []"
  using reader unfolding reader_contract_def by metis

lemma read_fail': "rd_read R sz w = (n, bs, w') \<Longrightarrow> n < 0 \<Longrightarrow> pending w' = []"
  using reader unfolding reader_contract_def by metis

lemma read_le: "rd_read R sz w = (n, bs, w') \<Longrightarrow> n \<le> int (unat sz)"
  using reader unfolding reader_contract_def by (metis linorder_not_less of_nat_0_le_iff order_trans less_imp_le)

lemma read_le_nat: "rd_read R sz w = (n, bs, w') \<Longrightarrow> nat n \<le> unat sz"
  using read_le nat_le_iff by blast

lemma read_ok:
  assumes "rd_read R sz w = (n, bs, w')" "0 \<le> n"
  shows "length bs = nat n" and "pending w = bs @ pending w'"
  using reader assms unfolding reader_contract_def by (meson not_less)+

lemma ready_pending: "rd_readyForReading R ms w = (b, w') \<Longrightarrow> pending w' = pending w"
  using reader unfolding reader_contract_def by blast

lemma setBlocking_pending: "pending (rd_setBlocking R b w) = pending w"
  using reader unfolding reader_contract_def by blast

end

locale byte_source = byte_reader +
  fixes lag :: "'w \<Rightarrow> nat"
  assumes source: "source_contract R pending lag"
begin

lemma read_progress:
  "rd_read R sz w = (n, bs, w') \<Longrightarrow> pending w \<noteq> [] \<Longrightarrow> 0 < sz \<Longrightarrow> 0 < n \<or> lag w' < lag w"
  using source read_fail unfolding source_contract_def
  by (metis linorder_less_linear)

lemma ready_lag:
  "rd_readyForReading R ms w = (b, w') \<Longrightarrow> pending w \<noteq> [] \<Longrightarrow> lag w' \<le> lag w"
  using source unfolding source_contract_def by blast

lemma ready_progress:
  "rd_readyForReading R ms w = (b, w') \<Longrightarrow> pending w \<noteq> [] \<Longrightarrow> \<not> b \<Longrightarrow> lag w' < lag w"
  using source unfolding source_contract_def by blast

end

lemma byte_sinkI: "sink_contract W sent lag \<Longrightarrow> byte_sink W sent lag"
  by unfold_locales (simp_all add: sink_contract_def)

lemma byte_sourceI: "source_contract R pending lag \<Longrightarrow> byte_source R pending lag"
  by unfold_locales (simp_all add: source_contract_def)

section \<open>The end of a stream\<close>

text \<open>Facts about the transport that no read changes.\<close>

definition reader_keeps :: "'w abstract_reader \<Rightarrow> ('w \<Rightarrow> bool) \<Rightarrow> bool" where
  "reader_keeps R P \<longleftrightarrow>
     (\<forall>sz w n bs w'. rd_read R sz w = (n, bs, w') \<longrightarrow> P w \<longrightarrow> P w') \<and>
     (\<forall>ms w b w'. rd_readyForReading R ms w = (b, w') \<longrightarrow> P w \<longrightarrow> P w')"

lemma keeps_read: "reader_keeps R P \<Longrightarrow> rd_read R sz w = (n, bs, w') \<Longrightarrow> P w \<Longrightarrow> P w'"
  unfolding reader_keeps_def by blast

lemma keeps_ready: "reader_keeps R P \<Longrightarrow> rd_readyForReading R ms w = (b, w') \<Longrightarrow> P w \<Longrightarrow> P w'"
  unfolding reader_keeps_def by blast

text \<open>
  A closed transport is one whose peer sends nothing more and whose reads fail, sooner or
  later, when everything sent has been read.
\<close>

definition closing_contract ::
    "'w abstract_reader \<Rightarrow> ('w \<Rightarrow> byte list) \<Rightarrow> ('w \<Rightarrow> nat) \<Rightarrow> ('w \<Rightarrow> bool) \<Rightarrow> bool" where
  "closing_contract R pending lag closed \<longleftrightarrow> source_contract R pending lag \<and> reader_keeps R closed \<and>
     (\<forall>sz w n bs w'. rd_read R sz w = (n, bs, w') \<longrightarrow> closed w \<longrightarrow> pending w = [] \<longrightarrow> 0 < sz \<longrightarrow>
        n < 0 \<or> lag w' < lag w) \<and>
     (\<forall>ms w b w'. rd_readyForReading R ms w = (b, w') \<longrightarrow> closed w \<longrightarrow> pending w = [] \<longrightarrow>
        b \<or> lag w' < lag w)"

locale closing_source = byte_source +
  fixes closed :: "'a \<Rightarrow> bool"
  assumes closing: "closing_contract R pending lag closed"
begin

lemma closed_keeps: "reader_keeps R closed"
  using closing by (simp add: closing_contract_def)

lemma closed_read:
  "rd_read R sz w = (n, bs, w') \<Longrightarrow> closed w \<Longrightarrow> pending w = [] \<Longrightarrow> 0 < sz \<Longrightarrow> 0 \<le> n \<Longrightarrow> lag w' < lag w"
  using closing unfolding closing_contract_def by (meson not_less)

lemma closed_ready:
  "rd_readyForReading R ms w = (False, w') \<Longrightarrow> closed w \<Longrightarrow> pending w = [] \<Longrightarrow> lag w' < lag w"
  using closing unfolding closing_contract_def by blast

end

lemma closing_sourceI: "closing_contract R pending lag closed \<Longrightarrow> closing_source R pending lag closed"
  by unfold_locales (auto simp: closing_contract_def source_contract_def)

end
