(* ===== verification/PacketMuxer.thy ===== *)
theory PacketMuxer
  imports ComPacket ControlMessage AbstractSocket
begin

text \<open>
  The sending half (PacketMuxer.h, PacketMuxer.cpp): packets are posted by any thread into
  one FIFO queue per packet type, and the send thread writes the queued packets to the
  transport. This theory holds the muxer's state and its operations; the threads and the
  send loop are in the theory of the send loop.
\<close>

section \<open>State\<close>

record muxer =
  mux_packetIds :: id_manager
  mux_numPosted :: u32
  mux_numSent :: u32
  mux_txQueues :: "u32 \<rightharpoonup> com_packet list"
  mux_transportError :: bool

definition PacketMuxer_ctor :: "string list \<Rightarrow> muxer outcome" where
  "PacketMuxer_ctor packetIds =
     bind_outcome (IdManager_ctor packetIds)
       (\<lambda>ids. Inr \<lparr>mux_packetIds = ids, mux_numPosted = 0, mux_numSent = 0,
                   mux_txQueues = Map.empty, mux_transportError = False\<rparr>)"

definition mux_ok :: "muxer \<Rightarrow> bool" where
  "mux_ok m \<longleftrightarrow> mux_transportError m = False"

text \<open>What the destructor does with the state before it joins the send thread.\<close>

definition PacketMuxer_dtor :: "muxer \<Rightarrow> muxer" where
  "PacketMuxer_dtor m = m\<lparr>mux_transportError := True\<rparr>"

text \<open>\<open>m_txQueues[type]\<close>: the queue of a type, empty for a type that has none yet.\<close>

definition txQueue :: "muxer \<Rightarrow> u32 \<Rightarrow> com_packet list" where
  "txQueue m t = (case mux_txQueues m t of None \<Rightarrow> [] | Some q \<Rightarrow> q)"

definition set_txQueue :: "u32 \<Rightarrow> com_packet list \<Rightarrow> muxer \<Rightarrow> muxer" where
  "set_txQueue t q m = m\<lparr>mux_txQueues := (mux_txQueues m)(t \<mapsto> q)\<rparr>"

section \<open>Posting\<close>

definition signalPacketPosted :: "muxer \<Rightarrow> muxer" where
  "signalPacketPosted m = m\<lparr>mux_numPosted := mux_numPosted m + 1\<rparr>"

text \<open>
  \<open>mk\<close> is the packet constructor with the forwarded arguments. The queue is looked up,
  and so created, before the packet is constructed; an exception leaves it behind.
\<close>

definition emplacePacket ::
    "string \<Rightarrow> (u32 \<Rightarrow> com_packet outcome) \<Rightarrow> muxer \<Rightarrow> unit outcome \<times> muxer" where
  "emplacePacket name mk m =
     (case toId (mux_packetIds m) name of
        Inl e \<Rightarrow> (Inl e, m)
      | Inr type \<Rightarrow>
          let m1 = set_txQueue type (txQueue m type) m
          in (case mk type of
                Inl e \<Rightarrow> (Inl e, m1)
              | Inr p \<Rightarrow>
                  (Inr (), signalPacketPosted (set_txQueue type (txQueue m1 type @ [p]) m1))))"

definition sendControlMessage :: "control_message \<Rightarrow> muxer \<Rightarrow> unit outcome \<times> muxer" where
  "sendControlMessage msg m =
     emplacePacket ControlString (\<lambda>type. ComPacket_buffer type [control_value msg] 1) m"

section \<open>Sending\<close>

text \<open>
  The loop of PacketMuxer::writeBytes. \<open>buffer\<close> is the memory at the moving pointer and
  \<open>n\<close> the remaining size; \<open>None\<close> when the transport accepts no bytes forever. A transport
  that claims to have written more than it was given moves the pointer out of the buffer.
\<close>

partial_function (option) writeBytes ::
    "'w abstract_writer \<Rightarrow> bool \<Rightarrow> byte list \<Rightarrow> usize \<Rightarrow> 'w \<Rightarrow> (bool \<times> usize \<times> 'w) run" where
  [code]: "writeBytes W transportError buffer sz w =
     (if 0 < sz then
        (let (n, w') = wr_write W (take (unat sz) buffer) w
         in if n < 0 \<or> transportError then Some (Inr (False, sz, w'))
            else if int (unat sz) < n then Some (Inl UndefinedBehaviour)
            else writeBytes W transportError (drop (nat n) buffer) (sz - word_of_int n) w')
      else Some (Inr (True, sz, w)))"

definition sendPacket ::
    "host_order \<Rightarrow> 'w abstract_writer \<Rightarrow> com_packet \<Rightarrow> muxer \<Rightarrow> 'w \<Rightarrow> (muxer \<times> 'w) run" where
  "sendPacket h W packet m w =
     (if getType packet = InvalidPacket then Some (Inl AssertionFailed)
      else
        let err = mux_transportError m;
            type = htonl h (getType packet);
            size' = htonl h (ucast (getDataSize packet))
        in and_then (writeBytes W err (mem32 h type) 4 w) (\<lambda>(ok1, _, w1).
           and_then (writeBytes W err (mem32 h size') 4 w1) (\<lambda>(ok2, _, w2).
           and_then (writeBytes W err (m_data packet) (getDataSize packet) w2) (\<lambda>(ok3, _, w3).
             Some (Inr (m\<lparr>mux_transportError := \<not> (ok1 \<and> ok2 \<and> ok3)\<rparr>, w3))))))"

text \<open>The result holds what is left in the queue.\<close>

fun sendAll ::
    "host_order \<Rightarrow> 'w abstract_writer \<Rightarrow> com_packet list \<Rightarrow> muxer \<Rightarrow> 'w \<Rightarrow>
      (com_packet list \<times> muxer \<times> 'w) run" where
  "sendAll h W [] m w = Some (Inr ([], m, w))"
| "sendAll h W (p # packets) m w =
     (if mux_transportError m then Some (Inr (p # packets, m, w))
      else and_then (sendPacket h W p m w)
             (\<lambda>(m', w'). sendAll h W packets (m'\<lparr>mux_numSent := mux_numSent m' + 1\<rparr>) w'))"

text \<open>
  The range-based \<open>for\<close> over \<open>m_txQueues\<close>. The container is a \<open>std::unordered_map\<close>: the
  order of the types is unspecified, and is an argument here.
\<close>

fun sendQueues ::
    "host_order \<Rightarrow> 'w abstract_writer \<Rightarrow> u32 list \<Rightarrow> muxer \<Rightarrow> 'w \<Rightarrow> (muxer \<times> 'w) run" where
  "sendQueues h W [] m w = Some (Inr (m, w))"
| "sendQueues h W (t # ts) m w =
     and_then (sendAll h W (txQueue m t) m w)
       (\<lambda>(rest, m', w'). sendQueues h W ts (set_txQueue t rest m') w')"

text \<open>Packets that may be sent: those of a type, with data that a vector can hold.\<close>

definition sendable :: "com_packet \<Rightarrow> bool" where
  "sendable p \<longleftrightarrow> m_type p \<noteq> InvalidPacket \<and> packet_fits p"

definition iteration_order :: "muxer \<Rightarrow> u32 list \<Rightarrow> bool" where
  "iteration_order m ts \<longleftrightarrow> distinct ts \<and> set ts = dom (mux_txQueues m)"

section \<open>What the operations do\<close>

declare writeBytes.simps [simp del]
context byte_writer begin

text \<open>Induction over a call that returns: it was done, it failed, or it went on.\<close>

lemma writeBytes_induct [consumes 2, case_names nil fail more]:
  assumes "writeBytes W False buf (of_nat (length buf)) w = Some r" "length buf < 2 ^ 64"
    and nil: "\<And>w. P [] w (Inr (True, 0, w))"
    and fail: "\<And>buf w n w'. buf \<noteq> [] \<Longrightarrow> wr_write W buf w = (n, w') \<Longrightarrow> n < 0 \<Longrightarrow>
      P buf w (Inr (False, of_nat (length buf), w'))"
    and more: "\<And>buf w n w' r. buf \<noteq> [] \<Longrightarrow> wr_write W buf w = (int n, w') \<Longrightarrow>
      n \<le> length buf \<Longrightarrow> P (drop n buf) w' r \<Longrightarrow> P buf w r"
  shows "P buf w r"
proof -
  let ?Q = "\<lambda>W' err (buf :: byte list) (sz :: usize) w r.
    W' = W \<longrightarrow> \<not> err \<longrightarrow> sz = of_nat (length buf) \<longrightarrow> length buf < 2 ^ 64 \<longrightarrow> P buf w r"
  have "?Q W False buf (of_nat (length buf)) w r"
  proof (rule writeBytes.raw_induct [where P = ?Q, OF _ assms(1)], intro impI)
    fix f W' err buf sz w r
    assume IH: "\<And>W' err buf sz w r. f W' err buf sz w = Some r \<Longrightarrow> ?Q W' err buf sz w r"
      and step: "(if 0 < sz
        then let (n, w') = wr_write W' (take (unat sz) buf) w
             in if n < 0 \<or> err then Some (Inr (False, sz, w'))
                else if int (unat sz) < n then Some (Inl UndefinedBehaviour)
                else f W' err (drop (nat n) buf) (sz - word_of_int n) w'
        else Some (Inr (True, sz, w))) = Some r"
      and [simp]: "W' = W" "\<not> err" and sz: "sz = of_nat (length buf)" and len: "length buf < 2 ^ 64"
    have u: "unat sz = length buf" "0 < sz \<longleftrightarrow> buf \<noteq> []"
      using len by (simp_all add: sz)
    show "P buf w r"
    proof (cases "buf = []")
      case False
      obtain n w' where wr: "wr_write W buf w = (n, w')" by fastforce
      show ?thesis
      proof (cases "n < 0")
        case True
        with step u wr fail [OF False wr] False sz show ?thesis by auto
      next
        case n: False
        then obtain k where k: "n = int k" "k \<le> length buf"
          using write_le [OF wr] nonneg_int_cases [of n] by fastforce
        have rec: "f W err (drop (nat n) buf) (sz - word_of_int n) w' = Some r"
          using step wr False n u write_le [OF wr] by simp
        have "sz - word_of_int n = of_nat (length (drop (nat n) buf))"
          using usize_diff_of_int [OF k(2)] k(1) sz by simp
        with IH [OF rec] len k(1) have "P (drop k buf) w' r" by simp
        with more [OF False _ k(2)] wr k(1) show ?thesis by simp
      qed
    qed (use step u sz nil in auto)
  qed
  then show ?thesis using assms(2) by simp
qed

text \<open>
  A call that returns has transmitted a prefix of the buffer, the whole of it exactly when
  it returns true; what it reports as remaining is what was not transmitted.
\<close>

lemma writeBytes_prefix:
  assumes "writeBytes W False buf (of_nat (length buf)) w = Some r" "length buf < 2 ^ 64"
  shows "\<exists>ok w' k. r = Inr (ok, of_nat (length buf - k), w') \<and> k \<le> length buf \<and>
     (ok \<longleftrightarrow> k = length buf) \<and> sent w' = sent w @ take k buf"
  using assms
proof (induction rule: writeBytes_induct)
  case (fail buf w n w')
  then show ?case using write_sent [of buf w n w'] by (intro exI [of _ False] exI [of _ w'] exI [of _ 0]) simp
next
  case (more buf w n w' r)
  then obtain ok w'' k where k: "r = Inr (ok, of_nat (length buf - n - k), w'')"
    "k \<le> length buf - n" "ok \<longleftrightarrow> k = length buf - n" "sent w'' = sent w' @ take k (drop n buf)"
    by auto
  moreover have "sent w'' = sent w @ take (n + k) buf"
    using k(4) write_sent [OF more.hyps(2)] by (simp add: take_add)
  ultimately show ?case
    using more.hyps(3) by (intro exI [of _ ok] exI [of _ w''] exI [of _ "n + k"]) auto
qed auto


text \<open>Sending a packet changes nothing but the error flag.\<close>

lemma sendPacket_sent:
  assumes "sendPacket h W p m w = Some r" "sendable p" "\<not> mux_transportError m"
  shows "\<exists>m' w'. r = Inr (m', w') \<and> m' = m\<lparr>mux_transportError := mux_transportError m'\<rparr> \<and>
     (\<not> mux_transportError m' \<longrightarrow> sent w' = sent w @ wire p)"
proof -
  have len: "length (m_data p) < 2 ^ 64" and type: "m_type p \<noteq> InvalidPacket"
    using assms(2) packet_fits_size by (auto simp: sendable_def)
  note pre1 = writeBytes_prefix [where buf = "be32 (m_type p)", simplified]
  note pre2 = writeBytes_prefix [where buf = "be32 (of_nat (length (m_data p)))", simplified]
  note pre3 = writeBytes_prefix [where buf = "m_data p", OF _ len]
  show ?thesis
    using assms(1,3) type
    by (auto simp: sendPacket_def getType_def getDataSize_def Let_def outcome_eqs wire_def
        dest!: pre1 pre2 pre3)
qed

text \<open>
  What a pass over a queue does in any case: it takes packets off the front, counts them,
  and has transmitted them all unless it reports an error.
\<close>

lemma sendAll_spec:
  assumes "sendAll h W q m w = Some r" "\<forall>p \<in> set q. sendable p"
  shows "\<exists>taken rest m' w'. r = Inr (rest, m', w') \<and> q = taken @ rest \<and>
     m' = m\<lparr>mux_numSent := mux_numSent m + of_nat (length taken),
            mux_transportError := mux_transportError m'\<rparr> \<and>
     (mux_transportError m \<longrightarrow> taken = [] \<and> m' = m \<and> w' = w) \<and>
     (\<not> mux_transportError m' \<longrightarrow> rest = [] \<and> \<not> mux_transportError m \<and> sent w' = sent w @ concat (map wire q))"
  using assms
proof (induction q arbitrary: m w)
  case Nil
  then show ?case by auto
next
  case (Cons p q)
  show ?case
  proof (cases "mux_transportError m")
    case True
    with Cons.prems show ?thesis by auto
  next
    case False
    obtain s where s: "sendPacket h W p m w = Some s"
      using Cons.prems(1) False by (auto simp: outcome_eqs)
    obtain m1 w1 where p: "s = Inr (m1, w1)"
      "m1 = m\<lparr>mux_transportError := mux_transportError m1\<rparr>"
      "\<not> mux_transportError m1 \<longrightarrow> sent w1 = sent w @ wire p"
      using sendPacket_sent [OF s _ False] Cons.prems(2) by auto
    have q: "sendAll h W q (m1\<lparr>mux_numSent := mux_numSent m1 + 1\<rparr>) w1 = Some r"
      using Cons.prems(1) False s p(1) by simp
    obtain taken rest m' w' where IH: "r = Inr (rest, m', w')" "q = taken @ rest"
      "m' = m1\<lparr>mux_numSent := mux_numSent m1 + 1 + of_nat (length taken),
               mux_transportError := mux_transportError m'\<rparr>"
      "mux_transportError m1 \<longrightarrow> taken = [] \<and> mux_transportError m'"
      "\<not> mux_transportError m' \<longrightarrow> rest = [] \<and> \<not> mux_transportError m1 \<and> sent w' = sent w1 @ concat (map wire q)"
      using Cons.IH [OF q] Cons.prems(2) by auto
    have "mux_numSent m1 = mux_numSent m"
      by (subst p(2)) simp
    then have "m' = m\<lparr>mux_numSent := mux_numSent m + of_nat (length (p # taken)),
            mux_transportError := mux_transportError m'\<rparr>"
      by (subst IH(3), subst p(2)) simp
    with IH p(3) False show ?thesis
      by (intro exI [of _ "p # taken"] exI [of _ rest] exI [of _ m'] exI [of _ w']) auto
  qed
qed

end

context byte_sink begin

text \<open>Over a reliable transport every call returns, with everything transmitted.\<close>

lemma writeBytes_total:
  assumes "length buf < 2 ^ 64"
  shows "\<exists>w'. writeBytes W False buf (of_nat (length buf)) w = Some (Inr (True, 0, w')) \<and>
     sent w' = sent w @ buf"
  using assms
proof (induction "(length buf, lag w)" arbitrary: buf w
    rule: wf_induct_rule [OF wf_lex_prod [OF wf_less_than wf_less_than]])
  case (1 buf w)
  show ?case
  proof (cases "buf = []")
    case False
    obtain n w' where wr: "wr_write W buf w = (n, w')" by fastforce
    have n: "0 \<le> n" "n \<le> int (length buf)" "0 < n \<or> lag w' < lag w"
      using write_nonneg [OF wr] write_le [OF wr] write_progress [OF wr False] by auto
    have sz: "of_nat (length buf) - word_of_int n = (of_nat (length (drop (nat n) buf)) :: usize)"
      using n usize_diff_of_int [of "nat n" "length buf"] by simp
    have "writeBytes W False buf (of_nat (length buf)) w =
        writeBytes W False (drop (nat n) buf) (of_nat (length (drop (nat n) buf))) w'"
      using n 1(2) False wr sz by (subst writeBytes.simps) simp
    moreover have "\<exists>w''. writeBytes W False (drop (nat n) buf) (of_nat (length (drop (nat n) buf))) w' =
        Some (Inr (True, 0, w'')) \<and> sent w'' = sent w' @ drop (nat n) buf"
      using n 1(2) False by (intro 1(1)) auto
    ultimately show ?thesis
      using write_sent [OF wr] by auto
  qed (simp add: writeBytes.simps)
qed

lemma sendPacket_total:
  assumes "sendable p" "\<not> mux_transportError m"
  shows "\<exists>w'. sendPacket h W p m w = Some (Inr (m, w')) \<and> sent w' = sent w @ wire p"
proof -
  have len: "length (m_data p) < 2 ^ 64" and type: "m_type p \<noteq> InvalidPacket"
    using assms(1) packet_fits_size by (auto simp: sendable_def)
  obtain w1 where w1: "writeBytes W False (be32 (m_type p)) 4 w = Some (Inr (True, 0, w1))"
      "sent w1 = sent w @ be32 (m_type p)"
    using writeBytes_total [of "be32 (m_type p)" w] by auto
  obtain w2 where w2: "writeBytes W False (be32 (of_nat (length (m_data p)))) 4 w1 = Some (Inr (True, 0, w2))"
      "sent w2 = sent w1 @ be32 (of_nat (length (m_data p)))"
    using writeBytes_total [of "be32 (of_nat (length (m_data p)))" w1] by auto
  obtain w3 where "writeBytes W False (m_data p) (of_nat (length (m_data p))) w2 = Some (Inr (True, 0, w3))"
      "sent w3 = sent w2 @ m_data p"
    using writeBytes_total [OF len] by blast
  then show ?thesis
    using w1 w2 type assms(2)
    by (simp add: sendPacket_def getType_def getDataSize_def wire_def Let_def)
qed


text \<open>A whole queue is sent in order and left empty.\<close>

lemma sendAll_total:
  assumes "\<forall>p \<in> set q. sendable p" "\<not> mux_transportError m"
  shows "\<exists>w'. sendAll h W q m w =
      Some (Inr ([], m\<lparr>mux_numSent := mux_numSent m + of_nat (length q)\<rparr>, w')) \<and>
    sent w' = sent w @ concat (map wire q)"
  using assms
proof (induction q arbitrary: m w)
  case (Cons p q)
  obtain w1 where w1: "sendPacket h W p m w = Some (Inr (m, w1))" "sent w1 = sent w @ wire p"
    using sendPacket_total [of p m h w] Cons.prems by auto
  obtain w2 where "sendAll h W q (m\<lparr>mux_numSent := mux_numSent m + 1\<rparr>) w1 =
      Some (Inr ([], m\<lparr>mux_numSent := mux_numSent m + 1 + of_nat (length q)\<rparr>, w2))"
    "sent w2 = sent w1 @ concat (map wire q)"
    using Cons.IH [of "m\<lparr>mux_numSent := mux_numSent m + 1\<rparr>" w1] Cons.prems by auto
  with w1 Cons.prems show ?case by (simp add: add.assoc)
qed simp

end

section \<open>Passes over all the queues\<close>

lemma txQueue_set_txQueue [simp]:
  "txQueue (set_txQueue t q m) s = (if s = t then q else txQueue m s)"
  by (simp add: txQueue_def set_txQueue_def)

lemma txQueue_frame [simp]:
  "txQueue (m\<lparr>mux_numPosted := n\<rparr>) t = txQueue m t"
  "txQueue (m\<lparr>mux_numSent := n\<rparr>) t = txQueue m t"
  "txQueue (m\<lparr>mux_transportError := e\<rparr>) t = txQueue m t"
  by (simp_all add: txQueue_def)

lemma set_txQueue_frame [simp]:
  "mux_packetIds (set_txQueue t q m) = mux_packetIds m"
  "mux_numPosted (set_txQueue t q m) = mux_numPosted m"
  "mux_numSent (set_txQueue t q m) = mux_numSent m"
  "mux_transportError (set_txQueue t q m) = mux_transportError m"
  "dom (mux_txQueues (set_txQueue t q m)) = insert t (dom (mux_txQueues m))"
  by (simp_all add: set_txQueue_def)

text \<open>The packets that a pass from state \<open>m\<close> to state \<open>m'\<close> took off the queues, in order.\<close>

definition popped :: "muxer \<Rightarrow> muxer \<Rightarrow> u32 \<Rightarrow> com_packet list" where
  "popped m m' t = take (length (txQueue m t) - length (txQueue m' t)) (txQueue m t)"

definition pass_log :: "muxer \<Rightarrow> muxer \<Rightarrow> u32 list \<Rightarrow> com_packet list" where
  "pass_log m m' ts = concat (map (popped m m') ts)"

text \<open>What a pass over the queues of the types \<open>ts\<close> changes of the muxer.\<close>

definition drains :: "u32 list \<Rightarrow> muxer \<Rightarrow> muxer \<Rightarrow> bool" where
  "drains ts m m' \<longleftrightarrow>
     (\<forall>t. txQueue m t = popped m m' t @ txQueue m' t) \<and>
     (\<forall>t. t \<notin> set ts \<longrightarrow> txQueue m' t = txQueue m t) \<and>
     mux_packetIds m' = mux_packetIds m \<and> mux_numPosted m' = mux_numPosted m \<and>
     dom (mux_txQueues m') = dom (mux_txQueues m) \<union> set ts \<and>
     mux_numSent m' = mux_numSent m + of_nat (length (pass_log m m' ts)) \<and>
     (mux_transportError m \<longrightarrow> mux_transportError m' \<and> pass_log m m' ts = []) \<and>
     (\<not> mux_transportError m' \<longrightarrow> (\<forall>t \<in> set ts. txQueue m' t = []))"

lemma popped_same: "txQueue m' t = txQueue m t \<Longrightarrow> popped m m' t = []"
  by (simp add: popped_def)

lemma popped_cong: "txQueue m t = txQueue n t \<Longrightarrow> txQueue m' t = txQueue n' t \<Longrightarrow> popped m m' t = popped n n' t"
  by (simp add: popped_def)

lemma drains_split: "drains ts m m' \<Longrightarrow> txQueue m t = popped m m' t @ txQueue m' t"
  unfolding drains_def by blast

lemma drains_other: "drains ts m m' \<Longrightarrow> t \<notin> set ts \<Longrightarrow> txQueue m' t = txQueue m t"
  unfolding drains_def by blast

lemma drains_empty:
  "drains ts m m' \<Longrightarrow> \<not> mux_transportError m' \<Longrightarrow> t \<in> set ts \<Longrightarrow> txQueue m' t = []"
  unfolding drains_def by blast

lemma drains_Nil: "drains [] m m"
  by (simp add: drains_def pass_log_def popped_same)

lemma drains_Cons:
  assumes q: "txQueue m t = taken @ rest" and t: "t \<notin> set ts"
    and m1: "m1 = m\<lparr>mux_numSent := mux_numSent m + of_nat (length taken),
                   mux_transportError := mux_transportError m1\<rparr>"
    and err: "mux_transportError m \<longrightarrow> taken = [] \<and> m1 = m"
    and ok: "\<not> mux_transportError m1 \<longrightarrow> rest = []"
    and d: "drains ts (set_txQueue t rest m1) m'"
  shows "drains (t # ts) m m' \<and>
    pass_log m m' (t # ts) = taken @ pass_log (set_txQueue t rest m1) m' ts"
proof -
  have same: "txQueue m1 s = txQueue m s" "mux_txQueues m1 = mux_txQueues m" for s
    by (subst m1; simp add: txQueue_def)+
  have frame: "mux_packetIds m1 = mux_packetIds m" "mux_numPosted m1 = mux_numPosted m"
    "mux_numSent m1 = mux_numSent m + of_nat (length taken)"
    by (subst m1; simp)+
  have tail: "txQueue m' t = rest" using d t by (simp add: drains_def)
  then have head: "popped m m' t = taken" by (simp add: popped_def q)
  have others: "popped m m' s = popped (set_txQueue t rest m1) m' s" if "s \<noteq> t" for s
    using that same by (intro popped_cong) simp_all
  have log: "pass_log m m' (t # ts) = taken @ pass_log (set_txQueue t rest m1) m' ts"
  proof -
    have "map (popped m m') ts = map (popped (set_txQueue t rest m1) m') ts"
      by (intro map_cong refl others) (use t in auto)
    then show ?thesis by (simp add: pass_log_def head del: map_eq_conv)
  qed
  have split: "txQueue m s = popped m m' s @ txQueue m' s" for s
  proof (cases "s = t")
    case False
    have "txQueue (set_txQueue t rest m1) s = popped (set_txQueue t rest m1) m' s @ txQueue m' s"
      by (rule drains_split [OF d])
    with False same others [OF False] show ?thesis by simp
  qed (simp add: q head tail)
  have "drains (t # ts) m m'"
    unfolding drains_def log
  proof (intro conjI allI impI split)
    show "taken @ pass_log (set_txQueue t rest m1) m' ts = []" if "mux_transportError m"
      using that err d by (simp add: drains_def)
    show "mux_transportError m'" if "mux_transportError m"
      using that err d by (simp add: drains_def)
    show "txQueue m' s = txQueue m s" if "s \<notin> set (t # ts)" for s
      using that d same by (simp add: drains_def)
    show "\<not> mux_transportError m' \<Longrightarrow> \<forall>s \<in> set (t # ts). txQueue m' s = []"
      using d tail ok by (auto simp: drains_def)
  qed (use d same frame in \<open>simp_all add: drains_def\<close>)
  with log show ?thesis by simp
qed

context byte_writer begin

lemma sendQueues_spec:
  assumes "sendQueues h W ts m w = Some r" "distinct ts"
    "\<forall>t \<in> set ts. \<forall>p \<in> set (txQueue m t). sendable p"
  shows "\<exists>m' w'. r = Inr (m', w') \<and> drains ts m m' \<and>
     (\<not> mux_transportError m' \<longrightarrow> sent w' = sent w @ concat (map wire (pass_log m m' ts)))"
  using assms
proof (induction ts arbitrary: m w)
  case Nil
  then show ?case by (auto simp: drains_Nil pass_log_def)
next
  case (Cons t ts)
  obtain s where s: "sendAll h W (txQueue m t) m w = Some s"
    using Cons.prems(1) by (auto simp: outcome_eqs)
  obtain taken rest m1 w1 where hd: "s = Inr (rest, m1, w1)" "txQueue m t = taken @ rest"
    "m1 = m\<lparr>mux_numSent := mux_numSent m + of_nat (length taken),
           mux_transportError := mux_transportError m1\<rparr>"
    "mux_transportError m \<longrightarrow> taken = [] \<and> m1 = m"
    "\<not> mux_transportError m1 \<longrightarrow> rest = [] \<and> sent w1 = sent w @ concat (map wire (txQueue m t))"
    using sendAll_spec [OF s] Cons.prems(3) by auto
  let ?m1 = "set_txQueue t rest m1"
  have tl: "sendQueues h W ts ?m1 w1 = Some r"
    using Cons.prems(1) s hd(1) by simp
  have "txQueue m1 = txQueue m"
    by (subst hd(3)) (simp add: txQueue_def fun_eq_iff)
  then have "\<forall>s \<in> set ts. \<forall>p \<in> set (txQueue ?m1 s). sendable p"
    using Cons.prems(2,3) by auto
  then obtain m' w' where r: "r = Inr (m', w')" "drains ts ?m1 m'"
    "\<not> mux_transportError m' \<longrightarrow> sent w' = sent w1 @ concat (map wire (pass_log ?m1 m' ts))"
    using Cons.IH [OF tl] Cons.prems(2) by auto
  have "drains (t # ts) m m' \<and> pass_log m m' (t # ts) = taken @ pass_log ?m1 m' ts"
    using hd Cons.prems(2) by (intro drains_Cons [OF hd(2) _ hd(3) hd(4) _ r(2)]) auto
  moreover have "\<not> mux_transportError m' \<longrightarrow> \<not> mux_transportError m1"
    using r(2) by (auto simp: drains_def)
  ultimately show ?case
    using r hd(2,5) by auto
qed

end

context byte_sink begin

lemma sendQueues_total:
  assumes "distinct ts" "\<forall>t \<in> set ts. \<forall>p \<in> set (txQueue m t). sendable p" "\<not> mux_transportError m"
  shows "\<exists>m' w'. sendQueues h W ts m w = Some (Inr (m', w')) \<and> \<not> mux_transportError m'"
  using assms
proof (induction ts arbitrary: m w)
  case (Cons t ts)
  let ?m1 = "m\<lparr>mux_numSent := mux_numSent m + of_nat (length (txQueue m t))\<rparr>"
  obtain w1 where "sendAll h W (txQueue m t) m w = Some (Inr ([], ?m1, w1))"
    using sendAll_total [of "txQueue m t" m h w] Cons.prems by auto
  moreover have "txQueue ?m1 = txQueue m"
    by (simp add: txQueue_def fun_eq_iff)
  then have "\<exists>m' w'. sendQueues h W ts (set_txQueue t [] ?m1) w1 = Some (Inr (m', w')) \<and> \<not> mux_transportError m'"
    using Cons.prems by (intro Cons.IH) auto
  ultimately show ?case by simp
qed simp

end

section \<open>A transport that accepts nothing\<close>

text \<open>The loop of \<open>writeBytes\<close> has no way out while every write accepts zero bytes.\<close>

lemma writeBytes_spins:
  fixes W :: "'v abstract_writer"
  assumes "\<And>data w n w'. stalled w \<Longrightarrow> wr_write W data w = (n, w') \<Longrightarrow> n = 0 \<and> stalled w'"
    "stalled w" "0 < sz"
  shows "writeBytes W False buf sz w = None"
proof -
  let ?P = "\<lambda>W' err (buf :: byte list) (sz :: usize) w (r :: (bool \<times> usize \<times> 'v) outcome).
    \<not> (W' = W \<and> \<not> err \<and> 0 < sz \<and> stalled w)"
  have "?P W False buf sz w r" if "writeBytes W False buf sz w = Some r" for r
  proof (rule writeBytes.raw_induct [where P = ?P, OF _ that], intro notI, elim conjE)
    fix f W' err buf sz w r
    assume IH: "\<And>W' err buf sz w r. f W' err buf sz w = Some r \<Longrightarrow> ?P W' err buf sz w r"
      and step: "(if 0 < sz
        then let (n, w') = wr_write W' (take (unat sz) buf) w
             in if n < 0 \<or> err then Some (Inr (False, sz, w'))
                else if int (unat sz) < n then Some (Inl UndefinedBehaviour)
                else f W' err (drop (nat n) buf) (sz - word_of_int n) w'
        else Some (Inr (True, sz, w))) = Some r"
      and eqs: "W' = W" "\<not> err" "0 < sz" "stalled w"
    obtain n w' where wr: "wr_write W (take (unat sz) buf) w = (n, w')" by fastforce
    then have "n = 0" "stalled w'" using assms(1) eqs(4) by blast+
    then have "f W False buf sz w' = Some r" using step wr eqs by simp
    from IH [OF this] eqs(3) \<open>stalled w'\<close> show False by simp
  qed
  then show ?thesis using assms(2,3) by (cases "writeBytes W False buf sz w") auto
qed

lemma sendPacket_spins:
  assumes "\<And>data w n w'. stalled w \<Longrightarrow> wr_write W data w = (n, w') \<Longrightarrow> n = 0 \<and> stalled w'"
    "stalled w" "m_type p \<noteq> InvalidPacket" "\<not> mux_transportError m"
  shows "sendPacket h W p m w = None"
  using writeBytes_spins [of stalled W w 4] assms by (simp add: sendPacket_def getType_def Let_def)

end
