(* ===== verification/SendLoop.thy ===== *)
theory SendLoop
  imports PacketMuxer "HOL-Library.Multiset"
begin

text \<open>
  The threads of a muxer (PacketMuxer.cpp: constructor, destructor, \<open>sendLoop\<close>;
  PacketMuxer.h: \<open>emplacePacket\<close>). Every access to the queues and counters is made under
  the mutex \<open>m_txLock\<close>, which the send thread holds from the end of one wait to the start of
  the next; the steps below are the stretches between two moments at which the mutex is
  free. The transport is a parameter; so are the results of waiting and the iteration
  order of the unordered map.
\<close>

section \<open>Packet construction\<close>

text \<open>The argument lists \<open>emplacePacket\<close> can forward to the constructors of \<open>ComPacket\<close>.\<close>

datatype ctor_args = BufferArgs "byte list" int | MoveArgs "byte list" | SizeArgs int

fun construct :: "ctor_args \<Rightarrow> u32 \<Rightarrow> com_packet outcome" where
  "construct (BufferArgs buffer sz) t = ComPacket_buffer t buffer sz"
| "construct (MoveArgs buffer) t = Inr (fst (ComPacket_move_buffer t buffer))"
| "construct (SizeArgs sz) t = ComPacket_sized t sz"

text \<open>The vectors and arrays passed in are objects of the program, so they fit in memory.\<close>

fun args_fit :: "ctor_args \<Rightarrow> bool" where
  "args_fit (BufferArgs buffer sz) = (length buffer \<le> vector_max_size)"
| "args_fit (MoveArgs buffer) = (length buffer \<le> vector_max_size)"
| "args_fit (SizeArgs sz) = True"

lemma construct_type: "construct args t = Inr p \<Longrightarrow> m_type p = t"
  by (cases args) (auto simp: ComPacket_buffer_def ComPacket_move_buffer_def
      ComPacket_sized_def Let_def split: if_splits)

lemma construct_fits: "construct args t = Inr p \<Longrightarrow> args_fit args \<Longrightarrow> packet_fits p"
  by (cases args) (auto simp: ComPacket_buffer_def ComPacket_move_buffer_def
      ComPacket_sized_def Let_def packet_fits_def split: if_splits)

section \<open>The state and the steps\<close>

text \<open>
  Where the send thread is: at its start, after posting Hello, holding the mutex at the
  head of the loop, inside \<open>wait_for\<close> (mutex free), returned, or ended with the process by
  a failed assertion.
\<close>

datatype send_pc = Entered | HelloPosted | Locked | Waiting | Exited | Aborted

datatype cv_status = NoTimeout | Timeout

text \<open>
  \<open>posted\<close> and \<open>transmitted\<close> are history variables: the packets in the order in which they
  were queued, and in the order in which the send thread took them off the queues.
\<close>

record 'w send_system =
  mux :: muxer
  world :: 'w
  pc :: send_pc
  constructed :: bool
  posted :: "com_packet list"
  transmitted :: "com_packet list"

definition lock_free :: "('w, 'z) send_system_scheme \<Rightarrow> bool" where
  "lock_free s \<longleftrightarrow> pc s \<in> {Entered, HelloPosted, Waiting, Exited}"

text \<open>
  The thread starts in the initialiser list. Only then does the body of the constructor switch
  the transport to non-blocking mode, without the mutex: the send thread may have written by
  then. The program has the muxer from the end of the constructor on.
\<close>

definition start_sending :: "muxer \<Rightarrow> 'w \<Rightarrow> 'w send_system" where
  "start_sending m w =
     \<lparr>mux = m, world = w, pc = Entered, constructed = False, posted = [], transmitted = []\<rparr>"

text \<open>
  What the send thread does between holding the mutex at the loop head, or being woken,
  and the pass over the queues: nothing, or posting a heart beat after a timeout.
\<close>

inductive begins_pass :: "muxer \<Rightarrow> send_pc \<Rightarrow> muxer \<Rightarrow> com_packet list \<Rightarrow> bool" where
  busy: "mux_transportError m = False \<Longrightarrow> mux_numPosted m \<noteq> mux_numSent m \<Longrightarrow>
    begins_pass m Locked m []"
| notified: "begins_pass m Waiting m []"
| timeout: "sendControlMessage HeartBeat m = (Inr (), m') \<Longrightarrow>
    begins_pass m Waiting m' [control_packet HeartBeat]"

text \<open>
  The steps outside the passes: they need no transport but for the switch of its mode, so the
  relation is one over any extension of the state.
\<close>

inductive muxer_step ::
    "'w abstract_writer \<Rightarrow> ('w, 'z) send_system_scheme \<Rightarrow> ('w, 'z) send_system_scheme \<Rightarrow> bool"
  for W :: "'w abstract_writer" where
  construction: "\<not> constructed s \<Longrightarrow>
    muxer_step W s (s\<lparr>world := wr_setBlocking W False (world s), constructed := True\<rparr>)"
| post: "constructed s \<Longrightarrow> lock_free s \<Longrightarrow> name \<noteq> InvalidString \<Longrightarrow> args_fit args \<Longrightarrow>
    toId (mux_packetIds (mux s)) name = Inr t \<Longrightarrow> construct args t = Inr p \<Longrightarrow>
    emplacePacket name (construct args) (mux s) = (Inr (), m') \<Longrightarrow>
    muxer_step W s (s\<lparr>mux := m', posted := posted s @ [p]\<rparr>)"
| post_throws: "constructed s \<Longrightarrow> lock_free s \<Longrightarrow>
    emplacePacket name (construct args) (mux s) = (Inl e, m') \<Longrightarrow>
    muxer_step W s (s\<lparr>mux := m'\<rparr>)"
| hello: "pc s = Entered \<Longrightarrow> sendControlMessage Hello (mux s) = (Inr (), m') \<Longrightarrow>
    muxer_step W s
      (s\<lparr>mux := m', pc := HelloPosted, posted := posted s @ [control_packet Hello]\<rparr>)"
| acquire: "pc s = HelloPosted \<Longrightarrow> muxer_step W s (s\<lparr>pc := Locked\<rparr>)"
| wait: "pc s = Locked \<Longrightarrow> mux_transportError (mux s) = False \<Longrightarrow>
    mux_numPosted (mux s) = mux_numSent (mux s) \<Longrightarrow> muxer_step W s (s\<lparr>pc := Waiting\<rparr>)"
| return: "pc s = Locked \<Longrightarrow> mux_transportError (mux s) = True \<Longrightarrow>
    muxer_step W s (s\<lparr>pc := Exited\<rparr>)"
| destroy: "constructed s \<Longrightarrow> lock_free s \<Longrightarrow>
    muxer_step W s (s\<lparr>mux := PacketMuxer_dtor (mux s)\<rparr>)"

inductive send_step ::
    "host_order \<Rightarrow> 'w abstract_writer \<Rightarrow> 'w send_system \<Rightarrow> 'w send_system \<Rightarrow> bool"
  for h :: host_order and W :: "'w abstract_writer" where
  threads: "muxer_step W s s' \<Longrightarrow> send_step h W s s'"
| pass: "begins_pass (mux s) (pc s) m1 ctl \<Longrightarrow> iteration_order m1 ts \<Longrightarrow>
    sendQueues h W ts m1 (world s) = Some (Inr (m', w')) \<Longrightarrow>
    send_step h W s
      (s\<lparr>mux := m', world := w', pc := Locked, posted := posted s @ ctl,
        transmitted := transmitted s @ pass_log m1 m' ts\<rparr>)"
| pass_aborts: "begins_pass (mux s) (pc s) m1 ctl \<Longrightarrow> iteration_order m1 ts \<Longrightarrow>
    sendQueues h W ts m1 (world s) = Some (Inl e) \<Longrightarrow>
    send_step h W s (s\<lparr>mux := m1, pc := Aborted, posted := posted s @ ctl\<rparr>)"

inductive sending ::
    "host_order \<Rightarrow> 'w abstract_writer \<Rightarrow> muxer \<Rightarrow> 'w \<Rightarrow> 'w send_system \<Rightarrow> bool"
  for h :: host_order and W :: "'w abstract_writer" and m0 :: muxer and w0 :: 'w where
  start: "sending h W m0 w0 (start_sending m0 w0)"
| step: "sending h W m0 w0 s \<Longrightarrow> send_step h W s s' \<Longrightarrow> sending h W m0 w0 s'"

declare PacketMuxer_dtor_def [simp]

lemmas send_thread_step = send_step.threads [OF muxer_step.hello] send_step.threads [OF muxer_step.acquire]
  send_step.threads [OF muxer_step.wait] send_step.threads [OF muxer_step.return]

inductive_simps begins_pass_iff: "begins_pass m l m1 ctl"

inductive_cases begins_pass_Locked: "begins_pass m Locked m1 ctl"

inductive_cases begins_pass_Waiting: "begins_pass m Waiting m1 ctl"

section \<open>The invariant\<close>

definition of_type :: "u32 \<Rightarrow> com_packet list \<Rightarrow> com_packet list" where
  "of_type t = filter (\<lambda>p. m_type p = t)"

lemma of_type_append [simp]: "of_type t (xs @ ys) = of_type t xs @ of_type t ys"
  by (simp add: of_type_def)

lemma of_type_Nil [simp]: "of_type t [] = []"
  by (simp add: of_type_def)

lemma of_type_Cons: "of_type t (p # ps) = (if m_type p = t then p # of_type t ps else of_type t ps)"
  by (simp add: of_type_def)

text \<open>
  The contents of the queues: what has been posted and not yet taken, in order, per type.
  The table of identifiers is that of the constructor, and the counters count.
\<close>

definition queues_inv :: "muxer \<Rightarrow> com_packet list \<Rightarrow> com_packet list \<Rightarrow> bool" where
  "queues_inv m ps ts \<longleftrightarrow>
     (\<forall>t. of_type t ps = of_type t ts @ txQueue m t) \<and>
     (\<forall>p \<in> set ps. sendable p) \<and>
     toId (mux_packetIds m) ControlString = Inr ControlPacket \<and>
     (\<forall>name. toId (mux_packetIds m) name = Inr InvalidPacket \<longrightarrow> name = InvalidString) \<and>
     mux_numPosted m = of_nat (length ps) \<and> mux_numSent m = of_nat (length ts)"

definition send_inv ::
    "('w \<Rightarrow> byte list) \<Rightarrow> byte list \<Rightarrow> ('w, 'z) send_system_scheme \<Rightarrow> bool" where
  "send_inv sent out0 s \<longleftrightarrow>
     queues_inv (mux s) (posted s) (transmitted s) \<and> pc s \<noteq> Aborted \<and>
     (\<not> mux_transportError (mux s) \<longrightarrow>
        sent (world s) = out0 @ concat (map wire (transmitted s)))"

lemma queue_type:
  assumes "queues_inv m ps ts" "p \<in> set (txQueue m t)"
  shows "m_type p = t" and "sendable p"
proof -
  have "of_type t ps = of_type t ts @ txQueue m t"
    using assms(1) by (simp add: queues_inv_def)
  then have "p \<in> set (of_type t ps)" using assms(2) by simp
  then show "m_type p = t" "sendable p"
    using assms(1) by (auto simp: of_type_def queues_inv_def)
qed

lemma transmitted_posted:
  assumes "queues_inv m ps ts" "p \<in> set ts"
  shows "p \<in> set ps" and "sendable p"
proof -
  have "of_type (m_type p) ps = of_type (m_type p) ts @ txQueue m (m_type p)"
    using assms(1) by (simp add: queues_inv_def)
  then have "p \<in> set (of_type (m_type p) ps)" using assms(2) by (simp add: of_type_def)
  then show "p \<in> set ps" "sendable p"
    using assms(1) by (auto simp: of_type_def queues_inv_def)
qed

lemma emplacePacket_inv:
  assumes inv: "queues_inv m ps ts" and t: "toId (mux_packetIds m) name = Inr t"
    and p: "mk t = Inr p" "m_type p = t" "sendable p"
  obtains m' where "emplacePacket name mk m = (Inr (), m')" "queues_inv m' (ps @ [p]) ts"
    "mux_transportError m' = mux_transportError m"
proof -
  let ?m' = "signalPacketPosted (set_txQueue t (txQueue m t @ [p]) (set_txQueue t (txQueue m t) m))"
  have q: "txQueue ?m' u = (if u = t then txQueue m t @ [p] else txQueue m u)" for u
    by (simp add: signalPacketPosted_def txQueue_def set_txQueue_def)
  have "queues_inv ?m' (ps @ [p]) ts"
    using inv p(2,3) by (auto simp: queues_inv_def q of_type_Cons signalPacketPosted_def)
  then show ?thesis
    using t p(1) by (intro that [of ?m']) (simp_all add: emplacePacket_def signalPacketPosted_def Let_def)
qed

lemma emplacePacket_throws:
  assumes "queues_inv m ps ts" "emplacePacket name mk m = (Inl e, m')"
  shows "queues_inv m' ps ts \<and> mux_transportError m' = mux_transportError m"
  using assms by (auto simp: emplacePacket_def Let_def queues_inv_def split: sum.splits)

lemma sendControlMessage_inv:
  assumes "queues_inv m ps ts"
  obtains m' where "sendControlMessage msg m = (Inr (), m')"
    "queues_inv m' (ps @ [control_packet msg]) ts"
    "mux_transportError m' = mux_transportError m"
proof -
  have "toId (mux_packetIds m) ControlString = Inr ControlPacket"
    using assms by (simp add: queues_inv_def)
  moreover have "ComPacket_buffer ControlPacket [control_value msg] 1 = Inr (control_packet msg)"
    by (simp add: ComPacket_buffer_def control_packet_def)
  moreover have "sendable (control_packet msg)"
    by (simp add: sendable_def ControlPacket_def InvalidPacket_def)
  ultimately show ?thesis
    unfolding sendControlMessage_def
    using emplacePacket_inv [OF assms, of ControlString ControlPacket _ "control_packet msg"] that
    by (metis (mono_tags) control_packet_fields(1) sendControlMessage_def)
qed

lemma of_type_concat:
  assumes "distinct us" "\<And>u p. p \<in> set (f u) \<Longrightarrow> m_type p = u"
  shows "of_type t (concat (map f us)) = (if t \<in> set us then f t else [])"
proof -
  have "of_type t (f u) = (if u = t then f u else [])" for u
    using assms(2) by (auto simp: of_type_def filter_id_conv filter_empty_conv)
  then show ?thesis
    using assms(1) by (induction us) auto
qed

lemma pass_inv:
  assumes inv: "queues_inv m ps ts" and d: "drains us m m'" and "distinct us"
  shows "queues_inv m' ps (ts @ pass_log m m' us)"
proof -
  have split: "txQueue m t = popped m m' t @ txQueue m' t" for t
    by (rule drains_split [OF d])
  have "of_type t (pass_log m m' us) = (if t \<in> set us then popped m m' t else [])" for t
    unfolding pass_log_def
  proof (rule of_type_concat [OF assms(3)])
    show "m_type p = u" if "p \<in> set (popped m m' u)" for u p
      using that queue_type(1) [OF inv, of p u] split [of u] by simp
  qed
  moreover have "popped m m' t = []" if "t \<notin> set us" for t
    using drains_other [OF d that] by (rule popped_same)
  ultimately have "of_type t (pass_log m m' us) @ txQueue m' t = txQueue m t" for t
    using split [of t] by (cases "t \<in> set us") simp_all
  then show ?thesis
    using inv d by (simp add: queues_inv_def drains_def)
qed

lemma begins_pass_inv:
  assumes "begins_pass m l m1 ctl" "queues_inv m ps ts"
  shows "queues_inv m1 (ps @ ctl) ts \<and> mux_transportError m1 = mux_transportError m"
  using assms
proof (induction rule: begins_pass.induct)
  case (timeout m m')
  then show ?case by (metis sendControlMessage_inv Pair_inject)
qed simp_all

context byte_writer begin

text \<open>Every step keeps the invariant; no step ends in a failed assertion.\<close>

lemma muxer_step_inv:
  assumes "muxer_step W s s'" "send_inv sent out0 s"
  shows "send_inv sent out0 s'"
  using assms
proof (induction rule: muxer_step.induct)
  case (construction s)
  then show ?case by (simp add: send_inv_def setBlocking_sent)
next
  case (post s name args t p m')
  have "sendable p"
  proof -
    have "t \<noteq> InvalidPacket"
      using post by (auto simp: send_inv_def queues_inv_def)
    then show ?thesis
      using post construct_type construct_fits by (auto simp: sendable_def)
  qed
  then obtain m'' where "emplacePacket name (construct args) (mux s) = (Inr (), m'')"
    "queues_inv m'' (posted s @ [p]) (transmitted s)"
    "mux_transportError m'' = mux_transportError (mux s)"
    using post emplacePacket_inv [of "mux s" "posted s" "transmitted s" name t "construct args" p]
      construct_type by (auto simp: send_inv_def)
  with post show ?case by (auto simp: send_inv_def)
next
  case (post_throws s name args e m')
  then show ?case using emplacePacket_throws by (auto simp: send_inv_def)
next
  case (hello s m')
  then show ?case
    by (auto simp: send_inv_def elim: sendControlMessage_inv [of _ _ _ Hello])
next
  case (destroy s)
  then show ?case by (simp add: send_inv_def queues_inv_def txQueue_def)
qed (simp_all add: send_inv_def)

lemma send_step_inv:
  assumes "send_step h W s s'" "send_inv sent out0 s"
  shows "send_inv sent out0 s'"
  using assms
proof (induction rule: send_step.induct)
  case (threads s s')
  then show ?case by (rule muxer_step_inv)
next
  case (pass s m1 ctl ts m' w')
  have inv: "queues_inv m1 (posted s @ ctl) (transmitted s)"
    and err: "mux_transportError m1 = mux_transportError (mux s)"
    using begins_pass_inv [OF pass(1)] pass.prems by (auto simp: send_inv_def)
  have "drains ts m1 m'" "distinct ts" and out:
    "\<not> mux_transportError m' \<longrightarrow> sent w' = sent (world s) @ concat (map wire (pass_log m1 m' ts))"
    using sendQueues_spec [OF pass(3)] pass(2) queue_type(2) [OF inv] by (auto simp: iteration_order_def)
  moreover have "\<not> mux_transportError m' \<longrightarrow> \<not> mux_transportError m1"
    using \<open>drains ts m1 m'\<close> by (auto simp: drains_def)
  ultimately show ?case
    using pass_inv [OF inv] pass.prems err by (auto simp: send_inv_def)
next
  case (pass_aborts s m1 ctl ts e)
  have "queues_inv m1 (posted s @ ctl) (transmitted s)"
    using begins_pass_inv [OF pass_aborts(1)] pass_aborts.prems by (auto simp: send_inv_def)
  then show ?case
    using sendQueues_spec [OF pass_aborts(3)] pass_aborts(2) queue_type(2)
    by (fastforce simp: iteration_order_def)
qed

end

lemma ctor_queues_inv:
  assumes "PacketMuxer_ctor names = Inr m0" "length names + 2 \<le> 2 ^ 32"
  shows "queues_inv m0 [] []" and "\<not> mux_transportError m0"
proof -
  obtain ids where ids: "IdManager_ctor names = Inr ids" and m0: "m0 =
    \<lparr>mux_packetIds = ids, mux_numPosted = 0, mux_numSent = 0, mux_txQueues = Map.empty,
     mux_transportError = False\<rparr>"
    using assms(1) by (auto simp: PacketMuxer_ctor_def outcome_eqs)
  have valid: "ids_valid ids" and rev: "m_reverse ids = InvalidString # ControlString # names"
    using IdManager_ctor_wf [OF ids] assms(2) by (simp_all add: ids_valid_def)
  have "toId ids ControlString = Inr ControlPacket" "toId ids InvalidString = Inr InvalidPacket"
    by (simp_all add: rev toString_def ControlPacket_def InvalidPacket_def
        flip: table.to_string_iff [OF valid])
  then show "queues_inv m0 [] []"
    using table.to_id_inject [OF valid] by (auto simp: queues_inv_def m0 txQueue_def)
  show "\<not> mux_transportError m0" by (simp add: m0)
qed

context byte_writer begin

lemma sending_inv:
  assumes "sending h W m0 w0 s" "PacketMuxer_ctor names = Inr m0" "length names + 2 \<le> 2 ^ 32"
  shows "send_inv sent (sent w0) s"
  using assms(1)
proof (induction rule: sending.induct)
  case start
  then show ?case using ctor_queues_inv [OF assms(2,3)] by (simp add: send_inv_def start_sending_def)
next
  case (step s s')
  then show ?case using send_step_inv by blast
qed

end

text \<open>Once the error flag is set, no step clears it and nothing more is written.\<close>

lemma sendQueues_error:
  "mux_transportError m \<Longrightarrow> \<exists>m'. sendQueues h W ts m w = Some (Inr (m', w)) \<and> mux_transportError m'"
proof (induction ts arbitrary: m)
  case (Cons t ts)
  then have "sendAll h W (txQueue m t) m w = Some (Inr (txQueue m t, m, w))"
    by (cases "txQueue m t") simp_all
  with Cons show ?case by simp
qed simp

lemma begins_pass_error: "begins_pass m l m1 ctl \<Longrightarrow> mux_transportError m1 = mux_transportError m"
  by (induction rule: begins_pass.induct)
    (auto simp: sendControlMessage_def emplacePacket_def signalPacketPosted_def Let_def split: sum.splits)

lemma muxer_step_error:
  assumes "muxer_step W s s'" "mux_transportError (mux s)"
  shows "mux_transportError (mux s')"
    and "world s' = (if constructed s' = constructed s then world s else wr_setBlocking W False (world s))"
  using assms
  by (induction rule: muxer_step.induct)
    (auto simp: sendControlMessage_def emplacePacket_def signalPacketPosted_def Let_def split: sum.splits)

lemma send_step_error:
  assumes "send_step h W s s'" "mux_transportError (mux s)"
  shows "mux_transportError (mux s')"
    and "world s' = (if constructed s' = constructed s then world s else wr_setBlocking W False (world s))"
  using assms
proof (induction rule: send_step.induct)
  case (threads s s')
  { case 1 with threads muxer_step_error(1) show ?case by blast }
  { case 2 with threads muxer_step_error(2) show ?case by blast }
next
  case (pass s m1 ctl ts m' w')
  { case 1 with pass sendQueues_error [of m1 h W ts "world s"] begins_pass_error show ?case by auto }
  { case 2 with pass sendQueues_error [of m1 h W ts "world s"] begins_pass_error show ?case by auto }
next
  case (pass_aborts s m1 ctl ts e)
  { case 1 with pass_aborts sendQueues_error [of m1 h W ts "world s"] begins_pass_error show ?case by auto }
  { case 2 with pass_aborts sendQueues_error [of m1 h W ts "world s"] begins_pass_error show ?case by auto }
qed

text \<open>How many steps the send thread still takes once the error flag is set.\<close>

fun exit_rank :: "send_pc \<Rightarrow> nat" where
  "exit_rank Entered = 3"
| "exit_rank HelloPosted = 2"
| "exit_rank Waiting = 2"
| "exit_rank Locked = 1"
| "exit_rank Exited = 0"
| "exit_rank Aborted = 0"

lemma iteration_order_exists: "\<exists>ts. iteration_order m ts"
  using finite_distinct_list [of "dom (mux_txQueues m)"] by (auto simp: iteration_order_def)

lemma error_progress:
  assumes "queues_inv (mux s) (posted s) (transmitted s)" "mux_transportError (mux s)" "0 < exit_rank (pc s)"
  shows "\<exists>s'. send_step h W s s' \<and> exit_rank (pc s') < exit_rank (pc s)"
proof (cases "pc s")
  case Entered
  obtain m' where "sendControlMessage Hello (mux s) = (Inr (), m')"
    by (rule sendControlMessage_inv [OF assms(1), of Hello])
  from send_thread_step(1) [OF Entered this] show ?thesis
    using Entered by (intro exI conjI) auto
next
  case Waiting
  obtain ts where "iteration_order (mux s) ts" using iteration_order_exists by blast
  moreover obtain m' where "sendQueues h W ts (mux s) (world s) = Some (Inr (m', world s))"
    using sendQueues_error [OF assms(2), of h W ts "world s"] by blast
  ultimately have "send_step h W s (s\<lparr>mux := m', world := world s, pc := Locked, posted := posted s @ [],
        transmitted := transmitted s @ pass_log (mux s) m' ts\<rparr>)"
    using Waiting begins_pass.notified by (intro send_step.pass) auto
  with Waiting show ?thesis by (intro exI conjI) auto
qed (use assms send_thread_step(2,4) in \<open>fastforce\<close>)+

section \<open>Flushing\<close>

lemma count_of_type: "count (mset xs) p = count (mset (of_type (m_type p) xs)) p"
  by (simp add: of_type_def)

lemma of_type_mset: "(\<And>t. of_type t xs = of_type t ys) \<Longrightarrow> mset xs = mset ys"
proof -
  assume same: "\<And>t. of_type t xs = of_type t ys"
  show ?thesis
  proof (rule multiset_eqI)
    fix p
    show "count (mset xs) p = count (mset ys) p"
      using count_of_type [of xs p] count_of_type [of ys p] by (simp add: same)
  qed
qed

text \<open>When all queues are empty, everything posted has been transmitted.\<close>

lemma queues_empty:
  assumes "queues_inv m ps ts" "\<forall>t. txQueue m t = []"
  shows "mset ts = mset ps" and "mux_numPosted m = mux_numSent m"
proof -
  show "mset ts = mset ps"
    using assms by (intro of_type_mset) (simp add: queues_inv_def)
  then have "length ts = length ps" by (rule mset_eq_length)
  then show "mux_numPosted m = mux_numSent m"
    using assms(1) by (simp add: queues_inv_def)
qed

context byte_writer begin

text \<open>A pass that ends without an error leaves nothing queued.\<close>

lemma pass_clears:
  assumes "send_inv sent out0 s" "begins_pass (mux s) (pc s) m1 ctl" "iteration_order m1 ts"
    "sendQueues h W ts m1 (world s) = Some (Inr (m', w'))" "\<not> mux_transportError m'"
  shows "txQueue m' t = []"
proof -
  have "queues_inv m1 (posted s @ ctl) (transmitted s)"
    using begins_pass_inv [OF assms(2)] assms(1) by (auto simp: send_inv_def)
  from queue_type(2) [OF this] have d: "drains ts m1 m'"
    using sendQueues_spec [OF assms(4)] assms(3) by (auto simp: iteration_order_def)
  show ?thesis
  proof (cases "t \<in> set ts")
    case False
    with d have "txQueue m' t = txQueue m1 t" by (rule drains_other)
    moreover from False assms(3) have "mux_txQueues m1 t = None"
      by (auto simp: iteration_order_def)
    ultimately show ?thesis by (simp add: txQueue_def)
  qed (rule drains_empty [OF d assms(5)])
qed

end

context byte_sink begin

text \<open>Over a reliable transport a pass always succeeds and leaves nothing queued.\<close>

lemma pass_flushes:
  assumes "send_inv sent out0 s" "begins_pass (mux s) (pc s) m1 ctl" "iteration_order m1 ts"
    "\<not> mux_transportError (mux s)"
  shows "\<exists>m' w'. sendQueues h W ts m1 (world s) = Some (Inr (m', w')) \<and>
     \<not> mux_transportError m' \<and> (\<forall>t. txQueue m' t = [])"
proof -
  have inv: "queues_inv m1 (posted s @ ctl) (transmitted s)"
    and err: "\<not> mux_transportError m1"
    using begins_pass_inv [OF assms(2)] assms(1,4) by (auto simp: send_inv_def)
  have "\<forall>t \<in> set ts. \<forall>p \<in> set (txQueue m1 t). sendable p" "distinct ts"
    using queue_type(2) [OF inv] assms(3) by (auto simp: iteration_order_def)
  with err obtain m' w' where "sendQueues h W ts m1 (world s) = Some (Inr (m', w'))"
    "\<not> mux_transportError m'"
    using sendQueues_total by blast
  with pass_clears [OF assms(1-3)] show ?thesis by blast
qed

end

text \<open>
  The send thread goes to sleep only when the counters agree; with fewer than \<open>2\<^sup>3\<^sup>2\<close>
  packets queued they agree only when nothing is queued.
\<close>

lemma counters_agree:
  assumes "queues_inv m ps ts" "mux_numPosted m = mux_numSent m" "length ps < length ts + 2 ^ 32"
  shows "mset ts = mset ps \<and> txQueue m t = []"
proof -
  have types: "of_type t ps = of_type t ts @ txQueue m t" for t
    using assms(1) by (simp add: queues_inv_def)
  have sub: "mset ts \<subseteq># mset ps"
  proof (rule mset_subset_eqI)
    fix p
    show "count (mset ts) p \<le> count (mset ps) p"
      using count_of_type [of ts p] count_of_type [of ps p] by (simp add: types)
  qed
  then have le: "length ts \<le> length ps" by (metis size_mset size_mset_mono)
  moreover have "of_nat (length ps) = (of_nat (length ts) :: u32)"
    using assms(1,2) by (metis queues_inv_def)
  then have "(of_nat (length ps - length ts) :: u32) = 0"
    using le by simp
  then have "length ps - length ts = 0"
    using assms(3) unat_of_nat_u32 [of "length ps - length ts"] by simp
  ultimately have "size (mset ts) = size (mset ps)" by simp
  moreover have "mset ts \<subset># mset ps" if "mset ts \<noteq> mset ps"
    using sub that by (simp add: subset_mset.less_le)
  ultimately have "mset ts = mset ps" using mset_subset_size by force
  then have "size (mset (of_type t ts)) = size (mset (of_type t ps))"
    by (simp add: of_type_def mset_filter)
  then show ?thesis using \<open>mset ts = mset ps\<close> types [of t] by simp
qed

section \<open>Reachable states\<close>

text \<open>The invariant, for a muxer made by its constructor over any transport.\<close>

lemma reachable_inv:
  assumes "writer_contract W sent" "PacketMuxer_ctor names = Inr m0" "length names + 2 \<le> 2 ^ 32"
    "sending h W m0 w0 s"
  shows "send_inv sent (sent w0) s"
    and "queues_inv (mux s) (posted s) (transmitted s)" and "pc s \<noteq> Aborted"
    and "\<not> mux_transportError (mux s) \<Longrightarrow>
      sent (world s) = sent w0 @ concat (map wire (transmitted s))"
proof -
  show inv: "send_inv sent (sent w0) s"
    using byte_writer.sending_inv [OF byte_writer.intro [OF assms(1)] assms(4,2,3)] .
  then show "queues_inv (mux s) (posted s) (transmitted s)" "pc s \<noteq> Aborted"
    "\<not> mux_transportError (mux s) \<Longrightarrow>
      sent (world s) = sent w0 @ concat (map wire (transmitted s))"
    by (simp_all add: send_inv_def)
qed

text \<open>Steps only add to the history.\<close>

lemma muxer_step_history:
  "muxer_step W s s' \<Longrightarrow> (\<exists>ps. posted s' = posted s @ ps) \<and> transmitted s' = transmitted s"
  by (induction rule: muxer_step.induct) auto

lemma send_step_history:
  "send_step h W s s' \<Longrightarrow> \<exists>ps ts. posted s' = posted s @ ps \<and> transmitted s' = transmitted s @ ts"
  by (induction rule: send_step.induct) (use muxer_step_history in force)+

lemma send_steps_history:
  "(send_step h W)\<^sup>*\<^sup>* s s' \<Longrightarrow> \<exists>ps ts. posted s' = posted s @ ps \<and> transmitted s' = transmitted s @ ts"
proof (induction rule: rtranclp_induct)
  case (step s' s'')
  then show ?case using send_step_history [OF step.hyps(2)] by auto
qed simp

lemma sending_steps: "(send_step h W)\<^sup>*\<^sup>* s s' \<Longrightarrow> sending h W m0 w0 s \<Longrightarrow> sending h W m0 w0 s'"
  by (induction rule: rtranclp_induct) (auto intro: sending.step)

lemma muxer_step_constructed: "muxer_step W s s' \<Longrightarrow> constructed s \<Longrightarrow> constructed s'"
  by (induction rule: muxer_step.induct) simp_all

lemma send_step_constructed: "send_step h W s s' \<Longrightarrow> constructed s \<Longrightarrow> constructed s'"
  by (induction rule: send_step.induct) (simp_all add: muxer_step_constructed)

lemma send_steps_error:
  assumes "(send_step h W)\<^sup>*\<^sup>* s s'" "mux_transportError (mux s)"
  shows "mux_transportError (mux s') \<and>
    (world s' = world s \<or> \<not> constructed s \<and> constructed s' \<and> world s' = wr_setBlocking W False (world s))"
proof -
  have "mux_transportError (mux s') \<and> (constructed s \<longrightarrow> constructed s') \<and>
    (world s' = world s \<or> \<not> constructed s \<and> constructed s' \<and> world s' = wr_setBlocking W False (world s))"
    using assms
  proof (induction rule: rtranclp_induct)
    case (step s' s'')
    then show ?case
      using send_step_error [OF step.hyps(2)] send_step_constructed [OF step.hyps(2)] by auto
  qed simp
  then show ?thesis by blast
qed

inductive_cases muxer_step_cases: "muxer_step W s s'"

inductive_cases send_step_cases: "send_step h W s s'"

end
