(* ===== verification/SendSteps.thy ===== *)
theory SendSteps
  imports SendLoop "HOL-Library.Sublist"
begin

text \<open>
  The send thread call by call: a step of a pass over the queues makes at most one call to
  the transport, and between two steps other threads may run. They cannot get \<open>m_txLock\<close>, but the
  constructor may switch the mode of the transport, and the bytes written so far may arrive at the
  peer. The functions of the muxer are runs of these steps.
\<close>

section \<open>A pass, step by step\<close>

text \<open>
  Where the send thread is inside a pass: at the head of the loop over the queues, with the types
  still to visit; at the head of the loop of \<open>sendAll\<close> for the queue of a type; or in
  \<open>sendPacket\<close> for the packet at the front of this queue, in a call of \<open>writeBytes\<close>, with what is
  left of its buffer, the buffers of the calls to follow and the conjunction \<open>ok\<close> so far.
\<close>

datatype pass_state =
    Between "u32 list"
  | AtQueue u32 "u32 list"
  | Writing u32 "u32 list" "byte list" "byte list list" bool

text \<open>
  One step. The result holds where the thread then is (\<open>None\<close> after the pass), the muxer, the
  world, and the packet popped, if any.
\<close>

fun pass_step ::
    "host_order \<Rightarrow> 'w abstract_writer \<Rightarrow> pass_state \<Rightarrow> muxer \<Rightarrow> 'w \<Rightarrow>
      (pass_state option \<times> muxer \<times> 'w \<times> com_packet list) outcome" where
  "pass_step h W (Between []) m w = Inr (None, m, w, [])"
| "pass_step h W (Between (t # ts)) m w = Inr (Some (AtQueue t ts), m, w, [])"
| "pass_step h W (AtQueue t ts) m w =
     (case txQueue m t of
        [] \<Rightarrow> Inr (Some (Between ts), m, w, [])
      | p # q \<Rightarrow>
          if mux_transportError m then Inr (Some (Between ts), m, w, [])
          else if getType p = InvalidPacket then Inl AssertionFailed
          else Inr (Some (Writing t ts (mem32 h (htonl h (getType p)))
                 [mem32 h (htonl h (ucast (getDataSize p))), m_data p] True), m, w, []))"
| "pass_step h W (Writing t ts [] [] ok) m w =
     Inr (Some (AtQueue t ts),
       (set_txQueue t (tl (txQueue m t)) m)\<lparr>mux_numSent := mux_numSent m + 1, mux_transportError := \<not> ok\<rparr>,
       w, take 1 (txQueue m t))"
| "pass_step h W (Writing t ts [] (buf # bufs) ok) m w = Inr (Some (Writing t ts buf bufs ok), m, w, [])"
| "pass_step h W (Writing t ts (b # buf) bufs ok) m w =
     (let (n, w') = wr_write W (b # buf) w
      in if n < 0 \<or> mux_transportError m then Inr (Some (Writing t ts [] bufs False), m, w', [])
         else if int (length (b # buf)) < n then Inl UndefinedBehaviour
         else Inr (Some (Writing t ts (drop (nat n) (b # buf)) bufs ok), m, w', []))"

record 'w sender = "'w send_system" +
  in_pass :: "pass_state option"

definition between_passes :: "'w send_system \<Rightarrow> 'w sender" where
  "between_passes s = send_system.extend s (sender.fields None)"

text \<open>
  During a pass the send thread is at \<open>Locked\<close>: other threads take the steps that do not need the
  mutex.
\<close>

inductive fine_send_step ::
    "host_order \<Rightarrow> 'w abstract_writer \<Rightarrow> 'w sender \<Rightarrow> 'w sender \<Rightarrow> bool"
  for h :: host_order and W :: "'w abstract_writer" where
  outside: "muxer_step W s s' \<Longrightarrow> in_pass s = None \<or> pc s' = pc s \<Longrightarrow> fine_send_step h W s s'"
| begins: "in_pass s = None \<Longrightarrow> begins_pass (mux s) (pc s) m1 ctl \<Longrightarrow> iteration_order m1 ts \<Longrightarrow>
    fine_send_step h W s (s\<lparr>mux := m1, pc := Locked, posted := posted s @ ctl, in_pass := Some (Between ts)\<rparr>)"
| inside: "in_pass s = Some ps \<Longrightarrow> pass_step h W ps (mux s) (world s) = Inr (ps', m', w', popped_now) \<Longrightarrow>
    fine_send_step h W s
      (s\<lparr>mux := m', world := w', transmitted := transmitted s @ popped_now, in_pass := ps'\<rparr>)"
| inside_aborts: "in_pass s = Some ps \<Longrightarrow> pass_step h W ps (mux s) (world s) = Inl e \<Longrightarrow>
    fine_send_step h W s (s\<lparr>pc := Aborted, in_pass := None\<rparr>)"

inductive fine_sending ::
    "host_order \<Rightarrow> 'w abstract_writer \<Rightarrow> muxer \<Rightarrow> 'w \<Rightarrow> 'w sender \<Rightarrow> bool"
  for h :: host_order and W :: "'w abstract_writer" and m0 :: muxer and w0 :: 'w where
  start: "fine_sending h W m0 w0 (between_passes (start_sending m0 w0))"
| step: "fine_sending h W m0 w0 s \<Longrightarrow> fine_send_step h W s s' \<Longrightarrow> fine_sending h W m0 w0 s'"

lemma between_passes_simps [simp]:
  "mux (between_passes s) = mux s" "world (between_passes s) = world s" "pc (between_passes s) = pc s"
  "constructed (between_passes s) = constructed s" "posted (between_passes s) = posted s"
  "transmitted (between_passes s) = transmitted s" "in_pass (between_passes s) = None"
  "lock_free (between_passes s) = lock_free s"
  "between_passes (s\<lparr>mux := m\<rparr>) = (between_passes s)\<lparr>mux := m\<rparr>"
  "between_passes (s\<lparr>world := w\<rparr>) = (between_passes s)\<lparr>world := w\<rparr>"
  "between_passes (s\<lparr>pc := l\<rparr>) = (between_passes s)\<lparr>pc := l\<rparr>"
  "between_passes (s\<lparr>constructed := b\<rparr>) = (between_passes s)\<lparr>constructed := b\<rparr>"
  "between_passes (s\<lparr>posted := ps\<rparr>) = (between_passes s)\<lparr>posted := ps\<rparr>"
  "between_passes (s\<lparr>transmitted := ps\<rparr>) = (between_passes s)\<lparr>transmitted := ps\<rparr>"
  by (simp_all add: between_passes_def lock_free_def send_system.defs sender.defs)

lemma muxer_step_in_pass: "muxer_step W s s' \<Longrightarrow> send_system.more s' = send_system.more s"
  by (induction rule: muxer_step.induct) simp_all

text \<open>The only step of other threads during a pass is that of the constructor.\<close>

lemma muxer_step_Locked:
  assumes "muxer_step W s s'" "pc s = Locked" "pc s' = Locked"
  shows "s' = s\<lparr>world := wr_setBlocking W False (world s), constructed := True\<rparr>"
  using assms by (induction rule: muxer_step.induct) (simp_all add: lock_free_def)

section \<open>What is on the wire at every moment\<close>

text \<open>The packet being written, which is still at the front of its queue.\<close>

fun in_hand :: "'w sender \<Rightarrow> com_packet list" where
  "in_hand s = (case in_pass s of Some (Writing t _ _ _ _) \<Rightarrow> take 1 (txQueue (mux s) t) | _ \<Rightarrow> [])"

text \<open>No write has failed so far.\<close>

fun no_error :: "'w sender \<Rightarrow> bool" where
  "no_error s = (\<not> mux_transportError (mux s) \<and>
     (case in_pass s of Some (Writing _ _ _ _ ok) \<Rightarrow> ok | _ \<Rightarrow> True))"

text \<open>What is still to be written of the packet in hand.\<close>

fun unwritten :: "'w sender \<Rightarrow> byte list" where
  "unwritten s = (case in_pass s of Some (Writing _ _ buf bufs _) \<Rightarrow> buf @ concat bufs | _ \<Rightarrow> [])"

definition pass_ok :: "'w sender \<Rightarrow> bool" where
  "pass_ok s \<longleftrightarrow> pc s \<noteq> Aborted \<and> (in_pass s \<noteq> None \<longrightarrow> pc s = Locked) \<and>
     (\<forall>t ts buf bufs ok. in_pass s = Some (Writing t ts buf bufs ok) \<longrightarrow>
        txQueue (mux s) t \<noteq> [] \<and> \<not> mux_transportError (mux s))"

definition fine_inv :: "('w \<Rightarrow> byte list) \<Rightarrow> byte list \<Rightarrow> 'w sender \<Rightarrow> bool" where
  "fine_inv sent out0 s \<longleftrightarrow> queues_inv (mux s) (posted s) (transmitted s) \<and> pass_ok s \<and>
     (no_error s \<longrightarrow> sent (world s) @ unwritten s =
        out0 @ concat (map wire (transmitted s)) @ concat (map wire (in_hand s)))"


lemma queues_inv_pop:
  assumes "queues_inv m ps ts" "txQueue m t = p # q"
  shows "queues_inv ((set_txQueue t q m)\<lparr>mux_numSent := mux_numSent m + 1, mux_transportError := e\<rparr>)
    ps (ts @ [p])"
proof -
  have "m_type p = t" using queue_type(1) [OF assms(1), of p t] assms(2) by simp
  with assms show ?thesis by (auto simp: queues_inv_def of_type_Cons)
qed

context byte_writer begin

text \<open>Every step inside a pass keeps the invariant, and none fails.\<close>

lemma pass_step_inv:
  assumes "fine_inv sent out0 s" "in_pass s = Some st" "pass_step h W st (mux s) (world s) = r"
  shows "\<exists>st' m' w' new. r = Inr (st', m', w', new) \<and>
    fine_inv sent out0 (s\<lparr>mux := m', world := w', transmitted := transmitted s @ new, in_pass := st'\<rparr>)"
proof -
  have inv: "queues_inv (mux s) (posted s) (transmitted s)" and ok: "pass_ok s"
    and out: "no_error s \<longrightarrow> sent (world s) @ unwritten s =
        out0 @ concat (map wire (transmitted s)) @ concat (map wire (in_hand s))"
    using assms(1) by (simp_all add: fine_inv_def)
  note state = inv ok [unfolded pass_ok_def] out assms(2,3)
  show ?thesis
  proof (cases rule: pass_step.cases [of "(h, W, st, mux s, world s)"])
    case (3 h' W' t ts m w)
    show ?thesis
    proof (cases "txQueue (mux s) t = [] \<or> mux_transportError (mux s)")
      case True
      with 3 state show ?thesis by (auto simp: fine_inv_def pass_ok_def split: list.splits)
    next
      case False
      then obtain p q where q: "txQueue (mux s) t = p # q" by (auto simp: neq_Nil_conv)
      have "m_type p \<noteq> InvalidPacket"
        using queue_type(2) [OF inv, of p t] q by (simp add: sendable_def)
      with 3 state False q show ?thesis
        by (auto simp: fine_inv_def pass_ok_def getType_def getDataSize_def wire_def)
    qed
  next
    case (4 h' W' t ts ok m w)
    with state obtain p q where q: "txQueue (mux s) t = p # q" by (auto simp: neq_Nil_conv)
    with 4 state queues_inv_pop [OF inv q, of "\<not> ok"] show ?thesis
      by (auto simp: fine_inv_def pass_ok_def)
  next
    case (6 h' W' t ts b buf bufs ok m w)
    obtain n w' where wr: "wr_write W (b # buf) (world s) = (n, w')" by fastforce
    note n = write_le [OF wr] write_sent [OF wr]
    with 6 state wr n show ?thesis by (auto simp: fine_inv_def pass_ok_def split: list.splits)
  qed (use state in \<open>auto simp: fine_inv_def pass_ok_def\<close>)
qed

lemma fine_send_step_inv:
  assumes "fine_send_step h W s s'" "fine_inv sent out0 s"
  shows "fine_inv sent out0 s'"
  using assms
proof (induction rule: fine_send_step.induct)
  case (outside s s')
  show ?case
  proof (cases "in_pass s")
    case None
    then have "in_pass s' = None" using muxer_step_in_pass [OF outside.hyps(1)] by (cases s; cases s') simp
    moreover have "send_inv sent out0 s"
      using outside.prems None by (auto simp: fine_inv_def pass_ok_def send_inv_def)
    then have "send_inv sent out0 s'" by (rule muxer_step_inv [OF outside.hyps(1)])
    ultimately show ?thesis by (auto simp: fine_inv_def pass_ok_def send_inv_def)
  next
    case (Some ps)
    with outside.prems have "pc s = Locked" by (auto simp: fine_inv_def pass_ok_def)
    moreover have "pc s' = Locked" using outside.hyps(2) Some calculation by simp
    ultimately have "s' = s\<lparr>world := wr_setBlocking W False (world s), constructed := True\<rparr>"
      by (rule muxer_step_Locked [OF outside.hyps(1)])
    with outside.prems Some show ?thesis
      by (cases ps) (auto simp: fine_inv_def pass_ok_def setBlocking_sent)
  qed
next
  case (begins s m1 ctl ts)
  have "queues_inv m1 (posted s @ ctl) (transmitted s) \<and> mux_transportError m1 = mux_transportError (mux s)"
    using begins.prems by (intro begins_pass_inv [OF begins.hyps(2)]) (simp add: fine_inv_def)
  with begins show ?case by (auto simp: fine_inv_def pass_ok_def)
next
  case (inside s ps ps' m' w' popped_now)
  from pass_step_inv [OF inside.prems inside.hyps] show ?case by auto
next
  case (inside_aborts s ps e)
  from pass_step_inv [OF inside_aborts.prems inside_aborts.hyps] show ?case by simp
qed

lemma fine_sending_inv:
  assumes "fine_sending h W m0 w0 s" "PacketMuxer_ctor names = Inr m0" "length names + 2 \<le> 2 ^ 32"
  shows "fine_inv sent (sent w0) s"
  using assms(1)
proof (induction rule: fine_sending.induct)
  case start
  then show ?case
    using ctor_queues_inv [OF assms(2,3)] by (simp add: fine_inv_def pass_ok_def start_sending_def)
next
  case (step s s')
  then show ?case using fine_send_step_inv by blast
qed

end

section \<open>The functions are runs of the steps\<close>

text \<open>The steps of a pass alone: where the thread is, the muxer, the world, and the packets popped.\<close>

type_synonym 'w pass_config = "pass_state option \<times> muxer \<times> 'w \<times> com_packet list"

inductive pass_next ::
    "host_order \<Rightarrow> 'w abstract_writer \<Rightarrow> 'w pass_config \<Rightarrow> 'w pass_config \<Rightarrow> bool"
  for h :: host_order and W :: "'w abstract_writer" where
  "pass_step h W st m w = Inr (st', m', w', new) \<Longrightarrow>
    pass_next h W (Some st, m, w, log) (st', m', w', log @ new)"

fun at_config :: "'w sender \<Rightarrow> 'w pass_config \<Rightarrow> 'w sender" where
  "at_config s (st, m, w, log) = s\<lparr>mux := m, world := w, transmitted := log, in_pass := st\<rparr>"

lemma pass_next_step: "pass_next h W c c' \<Longrightarrow> fine_send_step h W (at_config s c) (at_config s c')"
proof (induction rule: pass_next.induct)
  case (1 st m w st' m' w' new log)
  then show ?case using inside [of "at_config s (Some st, m, w, log)" st h W st' m' w' new] by simp
qed

lemma pass_next_steps:
  "(pass_next h W)\<^sup>*\<^sup>* c c' \<Longrightarrow> (fine_send_step h W)\<^sup>*\<^sup>* (at_config s c) (at_config s c')"
  by (induction rule: rtranclp_induct) (auto intro: rtranclp.rtrancl_into_rtrancl pass_next_step)

lemma pass_next_popping:
  "pass_step h W st m w = Inr (st', m', w', new) \<Longrightarrow> (pass_next h W)\<^sup>*\<^sup>* (Some st, m, w, log) (st', m', w', log @ new)"
  by (rule r_into_rtranclp [where r = "pass_next h W"]) (rule pass_next.intros)

lemma pass_next_silent:
  "pass_step h W st m w = Inr (st', m', w', []) \<Longrightarrow> (pass_next h W)\<^sup>*\<^sup>* (Some st, m, w, log) (st', m', w', log)"
  using pass_next_popping by fastforce

lemma set_txQueue_simps [simp]:
  "set_txQueue t q (set_txQueue t q' m) = set_txQueue t q m"
  "mux_txQueues m t \<noteq> None \<Longrightarrow> set_txQueue t (txQueue m t) m = m"
  "set_txQueue t q (m\<lparr>mux_numSent := n\<rparr>) = (set_txQueue t q m)\<lparr>mux_numSent := n\<rparr>"
  "set_txQueue t q (m\<lparr>mux_transportError := e\<rparr>) = (set_txQueue t q m)\<lparr>mux_transportError := e\<rparr>"
  by (auto simp: set_txQueue_def txQueue_def map_upd_triv)

context byte_writer begin

lemma writeBytes_steps:
  assumes "writeBytes W False buf (of_nat (length buf)) w = Some r" "length buf < 2 ^ 64"
    "r = Inr (ok', rest, w')" "\<not> mux_transportError m"
  shows "(pass_next h W)\<^sup>*\<^sup>* (Some (Writing t ts buf bufs ok), m, w, log)
    (Some (Writing t ts [] bufs (ok \<and> ok')), m, w', log)"
  using assms(1-3)
proof (induction arbitrary: ok' rest w' rule: writeBytes_induct)
  case (fail buf w n w1)
  then show ?case
    using assms(4) by (cases buf) (auto intro!: pass_next_silent)
next
  case (more buf w n w1 r)
  then have "pass_step h W (Writing t ts buf bufs ok) m w = Inr (Some (Writing t ts (drop n buf) bufs ok), m, w1, [])"
    using assms(4) by (cases buf) simp_all
  from rtranclp_trans [OF pass_next_silent [OF this] more.IH [OF more.prems]] show ?case .
qed simp

lemma sendPacket_steps:
  assumes "sendPacket h W p m w = Some (Inr (m', w'))" "sendable p" "\<not> mux_transportError m"
    and n: "txQueue n t = p # q" "\<not> mux_transportError n"
  shows "(pass_next h W)\<^sup>*\<^sup>* (Some (AtQueue t ts), n, w, log)
    (Some (AtQueue t ts), (set_txQueue t q n)\<lparr>mux_numSent := mux_numSent n + 1,
      mux_transportError := mux_transportError m'\<rparr>, w', log @ [p])"
proof -
  have len: "length (m_data p) < 2 ^ 64" and type: "m_type p \<noteq> InvalidPacket"
    using assms(2) packet_fits_size by (auto simp: sendable_def)
  let ?b1 = "be32 (m_type p)" and ?b2 = "be32 (of_nat (length (m_data p)))"
  obtain ok1 r1 w1 ok2 r2 w2 ok3 r3 where run:
    "writeBytes W False ?b1 4 w = Some (Inr (ok1, r1, w1))"
    "writeBytes W False ?b2 4 w1 = Some (Inr (ok2, r2, w2))"
    "writeBytes W False (m_data p) (of_nat (length (m_data p))) w2 = Some (Inr (ok3, r3, w'))"
    "m' = m\<lparr>mux_transportError := \<not> (ok1 \<and> ok2 \<and> ok3)\<rparr>"
    using assms(1,3) type
    by (auto simp: sendPacket_def getType_def getDataSize_def Let_def outcome_eqs)
  note part = writeBytes_steps [OF _ _ refl n(2), where h = h and t = t and ts = ts and log = log]
  have "pass_step h W (AtQueue t ts) n w = Inr (Some (Writing t ts ?b1 [?b2, m_data p] True), n, w, [])"
    using n type by (simp add: getType_def getDataSize_def)
  then have "(pass_next h W)\<^sup>*\<^sup>* (Some (AtQueue t ts), n, w, log)
      (Some (Writing t ts ?b1 [?b2, m_data p] True), n, w, log)"
    by (rule pass_next_silent)
  also have "(pass_next h W)\<^sup>*\<^sup>* \<dots> (Some (Writing t ts [] [?b2, m_data p] ok1), n, w1, log)"
    using part [of ?b1 w ok1 r1 w1 _ True] run(1) by simp
  also have "(pass_next h W)\<^sup>*\<^sup>* \<dots> (Some (Writing t ts ?b2 [m_data p] ok1), n, w1, log)"
    by (rule pass_next_silent) simp
  also have "(pass_next h W)\<^sup>*\<^sup>* \<dots> (Some (Writing t ts [] [m_data p] (ok1 \<and> ok2)), n, w2, log)"
    using part [of ?b2 w1 ok2 r2 w2 _ ok1] run(2) by simp
  also have "(pass_next h W)\<^sup>*\<^sup>* \<dots> (Some (Writing t ts (m_data p) [] (ok1 \<and> ok2)), n, w2, log)"
    by (rule pass_next_silent) simp
  also have "(pass_next h W)\<^sup>*\<^sup>* \<dots> (Some (Writing t ts [] [] ((ok1 \<and> ok2) \<and> ok3)), n, w', log)"
    by (rule part [OF run(3) len])
  also have "(pass_next h W)\<^sup>*\<^sup>* \<dots>
      (Some (AtQueue t ts), (set_txQueue t q n)\<lparr>mux_numSent := mux_numSent n + 1,
        mux_transportError := mux_transportError m'\<rparr>, w', log @ [p])"
    by (rule pass_next_popping) (simp add: n run(4))
  finally show ?thesis .
qed

text \<open>In the functions the queue of the type keeps the packets until the pass over it ends.\<close>

lemma sendAll_steps:
  assumes "sendAll h W q m w = Some (Inr (rest, m', w'))" "\<forall>p \<in> set q. sendable p"
  shows "\<exists>taken. q = taken @ rest \<and>
    (pass_next h W)\<^sup>*\<^sup>* (Some (AtQueue t ts), set_txQueue t q m, w, log)
      (Some (Between ts), set_txQueue t rest m', w', log @ taken)"
  using assms
proof (induction q arbitrary: m w log)
  case Nil
  then show ?case by (auto intro!: pass_next_silent)
next
  case (Cons p q)
  show ?case
  proof (cases "mux_transportError m")
    case True
    with Cons.prems(1) show ?thesis by (auto intro!: pass_next_silent)
  next
    case False
    obtain m1 w1 where p: "sendPacket h W p m w = Some (Inr (m1, w1))"
      and q: "sendAll h W q (m1\<lparr>mux_numSent := mux_numSent m1 + 1\<rparr>) w1 = Some (Inr (rest, m', w'))"
      using Cons.prems(1) False by (auto simp: outcome_eqs)
    have p_ok: "sendable p" using Cons.prems(2) by simp
    obtain e where m1: "m1 = m\<lparr>mux_transportError := e\<rparr>"
      using sendPacket_sent [OF p p_ok False] by blast
    have "set_txQueue t q (m1\<lparr>mux_numSent := mux_numSent m1 + 1\<rparr>) =
        (set_txQueue t q (set_txQueue t (p # q) m))\<lparr>mux_numSent := mux_numSent (set_txQueue t (p # q) m) + 1,
          mux_transportError := mux_transportError m1\<rparr>"
      by (simp add: m1)
    then have "(pass_next h W)\<^sup>*\<^sup>* (Some (AtQueue t ts), set_txQueue t (p # q) m, w, log)
        (Some (AtQueue t ts), set_txQueue t q (m1\<lparr>mux_numSent := mux_numSent m1 + 1\<rparr>), w1, log @ [p])"
      using sendPacket_steps [OF p p_ok False, of "set_txQueue t (p # q) m" t q ts log] False by simp
    moreover obtain taken where "q = taken @ rest" "(pass_next h W)\<^sup>*\<^sup>*
        (Some (AtQueue t ts), set_txQueue t q (m1\<lparr>mux_numSent := mux_numSent m1 + 1\<rparr>), w1, log @ [p])
        (Some (Between ts), set_txQueue t rest m', w', (log @ [p]) @ taken)"
      using Cons.IH [OF q, of "log @ [p]"] Cons.prems(2) by auto
    ultimately show ?thesis
      by (intro exI [of _ "p # taken"]) (auto dest: rtranclp_trans)
  qed
qed

lemma sendQueues_steps:
  assumes "sendQueues h W ts m w = Some (Inr (m', w'))" "distinct ts" "set ts \<subseteq> dom (mux_txQueues m)"
    "\<forall>t \<in> set ts. \<forall>p \<in> set (txQueue m t). sendable p"
  shows "(pass_next h W)\<^sup>*\<^sup>* (Some (Between ts), m, w, log) (None, m', w', log @ pass_log m m' ts)"
  using assms
proof (induction ts arbitrary: m w log)
  case Nil
  then show ?case by (auto simp: pass_log_def intro!: pass_next_silent)
next
  case (Cons t ts)
  obtain rest m1 w1 where hd: "sendAll h W (txQueue m t) m w = Some (Inr (rest, m1, w1))"
    and tl: "sendQueues h W ts (set_txQueue t rest m1) w1 = Some (Inr (m', w'))"
    using Cons.prems(1) by (auto simp: outcome_eqs)
  let ?m1 = "set_txQueue t rest m1"
  have ok: "\<forall>p \<in> set (txQueue m t). sendable p" using Cons.prems(4) by simp
  obtain taken where taken: "txQueue m t = taken @ rest"
    and steps: "(pass_next h W)\<^sup>*\<^sup>* (Some (AtQueue t ts), set_txQueue t (txQueue m t) m, w, log)
      (Some (Between ts), ?m1, w1, log @ taken)"
    using sendAll_steps [OF hd ok, of t ts log] by blast
  obtain taken' where q: "txQueue m t = taken' @ rest"
    "m1 = m\<lparr>mux_numSent := mux_numSent m + of_nat (length taken'), mux_transportError := mux_transportError m1\<rparr>"
    "mux_transportError m \<longrightarrow> taken' = [] \<and> m1 = m" "\<not> mux_transportError m1 \<longrightarrow> rest = []"
    using sendAll_spec [OF hd ok] by auto
  have "txQueue m1 s = txQueue m s" "mux_txQueues m1 = mux_txQueues m" for s
    by (subst q(2); simp add: txQueue_def)+
  then have later: "\<forall>s \<in> set ts. \<forall>p \<in> set (txQueue ?m1 s). sendable p" "set ts \<subseteq> dom (mux_txQueues ?m1)"
    using Cons.prems(2-4) by auto
  have "drains ts ?m1 m'"
    using sendQueues_spec [OF tl _ later(1)] Cons.prems(2) by auto
  then have log: "pass_log m m' (t # ts) = taken @ pass_log ?m1 m' ts"
    using drains_Cons [OF q(1) _ q(2,3,4)] Cons.prems(2) taken q(1) by simp
  have "set_txQueue t (txQueue m t) m = m" using Cons.prems(3) by (intro set_txQueue_simps(2)) auto
  with steps have "(pass_next h W)\<^sup>*\<^sup>* (Some (Between (t # ts)), m, w, log) (Some (Between ts), ?m1, w1, log @ taken)"
    by (intro rtranclp_trans [OF pass_next_silent]) simp_all
  also have "(pass_next h W)\<^sup>*\<^sup>* \<dots> (None, m', w', (log @ taken) @ pass_log ?m1 m' ts)"
    using Cons.IH [OF tl _ later(2,1), of "log @ taken"] Cons.prems(2) by simp
  finally show ?case by (simp add: log)
qed

text \<open>
  So every run in which passes are single steps is a run of the small steps, and all that holds
  of the states of the latter holds of the former.
\<close>

lemma muxer_step_between: "muxer_step W s s' \<Longrightarrow> muxer_step W (between_passes s) (between_passes s')"
proof (induction rule: muxer_step.induct)
  case (construction s)
  then show ?case using muxer_step.construction [of "between_passes s" W] by simp
next
  case (post s name args t p m')
  then show ?case using muxer_step.post [of "between_passes s" name args t p m' W] by simp
next
  case (post_throws s name args e m')
  then show ?case using muxer_step.post_throws [of "between_passes s" name args e m' W] by simp
next
  case (hello s m')
  then show ?case using muxer_step.hello [of "between_passes s" m' W] by simp
qed (use muxer_step.acquire [of "between_passes _" W] muxer_step.wait [of "between_passes _" W]
    muxer_step.return [of "between_passes _" W] muxer_step.destroy [of "between_passes _" W] in simp_all)

lemma send_step_fine:
  assumes "send_step h W s s'" "send_inv sent out0 s"
  shows "(fine_send_step h W)\<^sup>*\<^sup>* (between_passes s) (between_passes s')"
  using assms
proof (induction rule: send_step.induct)
  case (threads s s')
  then show ?case using outside [OF muxer_step_between] by (intro r_into_rtranclp [where r = "fine_send_step h W"]) simp
next
  case (pass s m1 ctl ts m' w')
  have inv: "queues_inv m1 (posted s @ ctl) (transmitted s)"
    using begins_pass_inv [OF pass.hyps(1)] pass.prems by (auto simp: send_inv_def)
  let ?s1 = "(between_passes s)\<lparr>mux := m1, pc := Locked, posted := posted s @ ctl, in_pass := Some (Between ts)\<rparr>"
  have "fine_send_step h W (between_passes s) ?s1"
    using begins [OF _ _ pass.hyps(2), of "between_passes s"] pass.hyps(1) by simp
  moreover have "(pass_next h W)\<^sup>*\<^sup>* (Some (Between ts), m1, world s, transmitted s)
      (None, m', w', transmitted s @ pass_log m1 m' ts)"
    using pass.hyps(2,3) queue_type(2) [OF inv] by (intro sendQueues_steps) (auto simp: iteration_order_def)
  from pass_next_steps [OF this, of ?s1]
  have "(fine_send_step h W)\<^sup>*\<^sup>* ?s1 (?s1\<lparr>mux := m', world := w',
      transmitted := transmitted s @ pass_log m1 m' ts, in_pass := None\<rparr>)"
    by (simp add: between_passes_def send_system.defs sender.defs)
  ultimately show ?case
    by (simp add: converse_rtranclp_into_rtranclp between_passes_def send_system.defs sender.defs)
next
  case (pass_aborts s m1 ctl ts e)
  then have "send_inv sent out0 (s\<lparr>mux := m1, pc := Aborted, posted := posted s @ ctl\<rparr>)"
    using send_step_inv [OF send_step.pass_aborts] by blast
  then show ?case by (simp add: send_inv_def)
qed

lemma sending_fine:
  assumes "sending h W m0 w0 s" "PacketMuxer_ctor names = Inr m0" "length names + 2 \<le> 2 ^ 32"
  shows "(fine_send_step h W)\<^sup>*\<^sup>* (between_passes (start_sending m0 w0)) (between_passes s)"
  using assms(1)
proof (induction rule: sending.induct)
  case (step s s')
  from step.IH send_step_fine [OF step.hyps(2) sending_inv [OF step.hyps(1) assms(2,3)]]
  show ?case by (rule rtranclp_trans)
qed simp

end

section \<open>The types of the queues\<close>

text \<open>The table of names never changes, and only types with a name have packets queued.\<close>

definition queues_named :: "id_manager \<Rightarrow> muxer \<Rightarrow> bool" where
  "queues_named ids m \<longleftrightarrow> mux_packetIds m = ids \<and> (\<forall>t. txQueue m t \<noteq> [] \<longrightarrow> (\<exists>name. toId ids name = Inr t))"

lemma queues_named_set:
  assumes "queues_named ids m" "q \<noteq> [] \<longrightarrow> txQueue m t \<noteq> [] \<or> (\<exists>name. toId ids name = Inr t)"
  shows "queues_named ids (set_txQueue t q m)"
  using assms by (auto simp: queues_named_def)

lemma emplacePacket_named: "queues_named ids m \<Longrightarrow> queues_named ids (snd (emplacePacket name mk m))"
  by (auto simp: emplacePacket_def Let_def signalPacketPosted_def queues_named_def split: sum.split)

lemma sendControlMessage_named:
  "sendControlMessage msg m = (r, m') \<Longrightarrow> queues_named ids m \<Longrightarrow> queues_named ids m'"
  unfolding sendControlMessage_def using emplacePacket_named by (metis snd_conv)

lemma begins_pass_named: "begins_pass m l m1 ctl \<Longrightarrow> queues_named ids m \<Longrightarrow> queues_named ids m1"
  by (induction rule: begins_pass.induct) (auto intro: sendControlMessage_named)

lemma queues_named_other [simp]:
  "queues_named ids (m\<lparr>mux_numSent := n\<rparr>) = queues_named ids m"
  "queues_named ids (m\<lparr>mux_transportError := e\<rparr>) = queues_named ids m"
  by (simp_all add: queues_named_def txQueue_def)

lemma muxer_step_named:
  assumes "muxer_step W s s'" "queues_named ids (mux s)"
  shows "queues_named ids (mux s')"
  using assms
proof (induction rule: muxer_step.induct)
  case (post s name args t p m')
  then show ?case using emplacePacket_named [of ids "mux s" name "construct args"] by simp
next
  case (post_throws s name args e m')
  then show ?case using emplacePacket_named [of ids "mux s" name "construct args"] by simp
next
  case (hello s m')
  then show ?case using sendControlMessage_named [OF hello.hyps(2)] by simp
qed (simp_all add: PacketMuxer_dtor_def)

lemma pass_step_named:
  assumes "pass_step h W st m w = Inr (st', m', w', new)" "queues_named ids m"
  shows "queues_named ids m'"
  using assms
proof (cases rule: pass_step.cases [of "(h, W, st, m, w)"])
  case (4 h' W' t ts ok m1 w1)
  have "tl (txQueue m t) \<noteq> [] \<longrightarrow> txQueue m t \<noteq> [] \<or> (\<exists>name. toId ids name = Inr t)" by auto
  with queues_named_set [OF assms(2) this] 4 assms(1) show ?thesis by auto
qed (use assms in \<open>auto split: list.splits if_splits prod.splits\<close>)

lemma fine_sending_named:
  assumes "fine_sending h W m0 w0 s" "PacketMuxer_ctor names = Inr m0"
  shows "queues_named (mux_packetIds m0) (mux s)"
  using assms(1)
proof (induction rule: fine_sending.induct)
  case start
  then show ?case
    using assms(2) by (auto simp: queues_named_def start_sending_def PacketMuxer_ctor_def outcome_eqs txQueue_def)
next
  case (step s s')
  from step.hyps(2) step.IH show ?case
  proof (induction rule: fine_send_step.induct)
    case (outside s s')
    then show ?case using muxer_step_named by blast
  next
    case (begins s m1 ctl ts)
    then show ?case using begins_pass_named by fastforce
  next
    case (inside s ps ps' m' w' new)
    then show ?case using pass_step_named by fastforce
  qed simp
qed

section \<open>What a step never undoes\<close>

lemma fine_send_step_history:
  "fine_send_step h W s s' \<Longrightarrow> \<exists>ps ts. posted s' = posted s @ ps \<and> transmitted s' = transmitted s @ ts"
  by (induction rule: fine_send_step.induct) (auto dest: muxer_step_history)

context byte_writer begin

lemma fine_send_step_error:
  assumes "fine_send_step h W s s'" "fine_inv sent out0 s" "\<not> no_error s"
  shows "\<not> no_error s'"
  using assms
proof (induction rule: fine_send_step.induct)
  case (outside s s')
  have same: "in_pass s' = in_pass s" using muxer_step_in_pass [OF outside.hyps(1)] by (cases s; cases s') simp
  show ?case
  proof (cases "in_pass s")
    case None
    then show ?thesis using outside same muxer_step_error(1) by fastforce
  next
    case (Some ps)
    with outside have "pc s = Locked" "pc s' = Locked" by (auto simp: fine_inv_def pass_ok_def)
    from muxer_step_Locked [OF outside.hyps(1) this] outside.prems same show ?thesis by simp
  qed
next
  case (begins s m1 ctl ts)
  then show ?case using begins_pass_error by fastforce
next
  case (inside s ps ps' m' w' new)
  then show ?case
    by (cases rule: pass_step.cases [of "(h, W, ps, mux s, world s)"])
      (auto simp: fine_inv_def pass_ok_def Let_def split: list.splits if_splits prod.splits)
next
  case (inside_aborts s ps e)
  from pass_step_inv [OF inside_aborts.prems(1) inside_aborts.hyps] show ?case by simp
qed

text \<open>Once the flag is set nothing more is written.\<close>

lemma fine_send_step_final:
  assumes "fine_send_step h W s s'" "fine_inv sent out0 s" "mux_transportError (mux s)"
  shows "mux_transportError (mux s') \<and> (constructed s \<longrightarrow> constructed s') \<and>
    (world s' = world s \<or> \<not> constructed s \<and> constructed s' \<and> world s' = wr_setBlocking W False (world s))"
  using assms
proof (induction rule: fine_send_step.induct)
  case (outside s s')
  then show ?case
    using muxer_step_error [OF outside.hyps(1)] muxer_step_constructed [OF outside.hyps(1)] by auto
next
  case (begins s m1 ctl ts)
  then show ?case using begins_pass_error by fastforce
next
  case (inside s ps ps' m' w' new)
  then have "ps \<noteq> Writing t ts buf bufs ok" for t ts buf bufs ok by (auto simp: fine_inv_def pass_ok_def)
  with inside show ?case
    by (cases rule: pass_step.cases [of "(h, W, ps, mux s, world s)"]) (auto split: list.splits)
next
  case (inside_aborts s ps e)
  from pass_step_inv [OF inside_aborts.prems(1) inside_aborts.hyps] show ?case by simp
qed

lemma fine_send_steps_final:
  assumes "(fine_send_step h W)\<^sup>*\<^sup>* s s'" "fine_inv sent out0 s" "mux_transportError (mux s)"
  shows "mux_transportError (mux s') \<and> sent (world s') = sent (world s) \<and> (constructed s \<longrightarrow> world s' = world s)"
proof -
  have "fine_inv sent out0 s' \<and> mux_transportError (mux s') \<and> (constructed s \<longrightarrow> constructed s') \<and>
    (world s' = world s \<or> \<not> constructed s \<and> constructed s' \<and> world s' = wr_setBlocking W False (world s))"
    using assms
  proof (induction rule: rtranclp_induct)
    case (step s' s'')
    then have inv: "fine_inv sent out0 s'" and err: "mux_transportError (mux s')" by simp_all
    from step fine_send_step_final [OF step.hyps(2) inv err] fine_send_step_inv [OF step.hyps(2) inv]
    show ?case by auto
  qed simp
  then show ?thesis using setBlocking_sent by auto
qed

text \<open>Without an error, a step only adds to what is sent.\<close>

lemma pass_step_sent:
  assumes "pass_step h W st m w = Inr (st', m', w', new)" "\<not> mux_transportError m"
    and "\<not> mux_transportError m' \<and> (\<forall>t ts buf bufs ok. st' = Some (Writing t ts buf bufs ok) \<longrightarrow> ok)"
  shows "prefix (sent w) (sent w')"
  using assms
proof (cases rule: pass_step.cases [of "(h, W, st, m, w)"])
  case (6 h' W' t ts b buf bufs ok m' w1)
  obtain n w2 where wr: "wr_write W (b # buf) w = (n, w2)" by fastforce
  with 6 assms write_sent [OF wr] show ?thesis by (auto simp: prefix_def split: if_splits)
qed (use assms in \<open>auto split: list.splits if_splits\<close>)

end

end
