(* ===== verification/PacketDemuxer.thy ===== *)
theory PacketDemuxer
  imports ComPacket ControlMessage AbstractSocket
begin

text \<open>
  The receiving half (PacketDemuxer.h, PacketDemuxer.cpp): the receive thread splits the
  stream of the transport into packets and calls the callbacks of the subscribers of each
  packet's type. This theory holds the state of the demuxer and what the receive thread
  does; subscribing is in the theory of subscriptions.

  The error flag may also be set by the destructor, which runs in another thread. The
  parameter \<open>stop\<close> tells from the state of the world whether it has done so.
\<close>

section \<open>State\<close>

text \<open>
  A subscriber (PacketSubscriber.h) is an immutable object on the heap, shared by pointers:
  its address, the packet type and the callback. What a callback does is not modelled;
  the calls made are recorded.
\<close>

record 'cb packet_subscriber =
  sub_addr :: nat
  sub_type :: u32
  sub_callback :: 'cb

record 'cb demuxer =
  dmx_packetIds :: id_manager
  dmx_subscribers :: "u32 \<rightharpoonup> 'cb packet_subscriber list"
  dmx_transportError :: bool

definition PacketDemuxer_ctor :: "string list \<Rightarrow> 'cb demuxer outcome" where
  "PacketDemuxer_ctor packetIds =
     bind_outcome (IdManager_ctor packetIds)
       (\<lambda>ids. Inr \<lparr>dmx_packetIds = ids, dmx_subscribers = Map.empty, dmx_transportError = False\<rparr>)"

definition dmx_ok :: "'cb demuxer \<Rightarrow> bool" where
  "dmx_ok d \<longleftrightarrow> dmx_transportError d = False"

text \<open>\<open>m_subscribers[type]\<close>, which makes an empty entry for a type that has none.\<close>

definition subscribers :: "'cb demuxer \<Rightarrow> u32 \<Rightarrow> 'cb packet_subscriber list" where
  "subscribers d t = (case dmx_subscribers d t of None \<Rightarrow> [] | Some q \<Rightarrow> q)"

definition set_subscribers ::
    "u32 \<Rightarrow> 'cb packet_subscriber list \<Rightarrow> 'cb demuxer \<Rightarrow> 'cb demuxer" where
  "set_subscribers t q d = d\<lparr>dmx_subscribers := (dmx_subscribers d)(t \<mapsto> q)\<rparr>"

definition signalTransportError :: "'cb demuxer \<Rightarrow> 'cb demuxer" where
  "signalTransportError d = d\<lparr>dmx_transportError := True\<rparr>"

section \<open>Receiving\<close>

text \<open>
  The loop of PacketDemuxer::readBytes: \<open>sz\<close> is the remaining size, \<open>buf\<close> what has been
  stored, \<open>err\<close> the error flag. The result holds the return value, the remaining size, the
  stored bytes and the flag. A transport that claims to have read more than it was asked
  for moves the pointer out of the buffer.
\<close>

partial_function (option) readBytes ::
    "'w abstract_reader \<Rightarrow> ('w \<Rightarrow> bool) \<Rightarrow> bool \<Rightarrow> usize \<Rightarrow> byte list \<Rightarrow> bool \<Rightarrow> 'w \<Rightarrow>
      (bool \<times> usize \<times> byte list \<times> bool \<times> 'w) run" where
  [code]: "readBytes R stop transportErrorOnZeroBytes sz buf err w =
     (let err' = (err \<or> stop w)
      in if 0 < sz \<and> \<not> err' then
           (let (n, bytes, w') = rd_read R sz w
            in if n < 0 \<or> (n = 0 \<and> transportErrorOnZeroBytes)
               then Some (Inr (False, sz, buf, True, w'))
               else if int (unat sz) < n then Some (Inl UndefinedBehaviour)
               else readBytes R stop transportErrorOnZeroBytes (sz - word_of_int n)
                      (buf @ take (nat n) bytes) err' w')
         else Some (Inr (\<not> err', sz, buf, err', w)))"

text \<open>
  The parts of PacketDemuxer::receivePacket: the read of one 32-bit word into a local
  variable (as it lies in memory), and what follows when type and size are known. The size
  is a \<open>uint32_t\<close>; the constructor of the packet takes it as an \<open>int\<close>.
\<close>

definition readUint32 ::
    "host_order \<Rightarrow> 'w abstract_reader \<Rightarrow> ('w \<Rightarrow> bool) \<Rightarrow> bool \<Rightarrow> 'w \<Rightarrow>
      (bool \<times> u32 \<times> bool \<times> 'w) run" where
  "readUint32 h R stop err w =
     and_then (readBytes R stop False 4 [] err w)
       (\<lambda>(ok, _, bytes, err', w'). Some (Inr (ok, load32 h bytes, err', w')))"

definition receivePayload ::
    "'w abstract_reader \<Rightarrow> ('w \<Rightarrow> bool) \<Rightarrow> com_packet \<Rightarrow> u32 \<Rightarrow> u32 \<Rightarrow>
      'cb demuxer \<Rightarrow> 'w \<Rightarrow> (bool \<times> com_packet \<times> 'cb demuxer \<times> 'w) run" where
  "receivePayload R stop packet type size' d w =
     (case ComPacket_sized type (to_int32 (uint size')) of
        Inl e \<Rightarrow> Some (Inl e)
      | Inr p \<Rightarrow>
          and_then (readBytes R stop False (getDataSize p) [] (dmx_transportError d) w)
            (\<lambda>(ok, _, data, err, w').
          if \<not> ok then Some (Inr (False, packet, d\<lparr>dmx_transportError := err\<rparr>, w'))
          else
            let filled = p\<lparr>m_data := data @ drop (length data) (m_data p)\<rparr>;
                (_, packet') = ComPacket_swap filled packet
            in if getType packet' = InvalidPacket then Some (Inl AssertionFailed)
               else Some (Inr (True, packet', d\<lparr>dmx_transportError := err\<rparr>, w'))))"

definition receivePacket ::
    "host_order \<Rightarrow> 'w abstract_reader \<Rightarrow> ('w \<Rightarrow> bool) \<Rightarrow> com_packet \<Rightarrow> int \<Rightarrow>
      'cb demuxer \<Rightarrow> 'w \<Rightarrow> (bool \<times> com_packet \<times> 'cb demuxer \<times> 'w) run" where
  "receivePacket h R stop packet timeoutInMilliseconds d w =
     (let (ready, w0) = rd_readyForReading R timeoutInMilliseconds w
      in if \<not> ready then Some (Inr (False, packet, d, w0))
         else and_then (readUint32 h R stop (dmx_transportError d) w0) (\<lambda>(ok, type, err1, w1).
           if \<not> ok then Some (Inr (False, packet, d\<lparr>dmx_transportError := err1\<rparr>, w1))
           else and_then (readUint32 h R stop err1 w1) (\<lambda>(ok, size', err2, w2).
             if \<not> ok then Some (Inr (False, packet, d\<lparr>dmx_transportError := err2\<rparr>, w2))
             else receivePayload R stop packet (ntohl h type) (ntohl h size')
                    (d\<lparr>dmx_transportError := err2\<rparr>) w2)))"

text \<open>The first byte of the data; there may be none to read.\<close>

definition getControlMessage :: "com_packet \<Rightarrow> control_message outcome" where
  "getControlMessage sptr =
     (case m_data sptr of [] \<Rightarrow> Inl UndefinedBehaviour | b # _ \<Rightarrow> Inr (control_of b))"

definition handleControlMessage :: "com_packet \<Rightarrow> 'cb demuxer \<Rightarrow> 'cb demuxer" where
  "handleControlMessage sptr d = d"

definition receiveHelloMessage ::
    "host_order \<Rightarrow> 'w abstract_reader \<Rightarrow> ('w \<Rightarrow> bool) \<Rightarrow> com_packet \<Rightarrow> int \<Rightarrow>
      'cb demuxer \<Rightarrow> 'w \<Rightarrow> (com_packet \<times> 'cb demuxer \<times> 'w) run" where
  "receiveHelloMessage h R stop packet timeoutInMillisecs d w =
     and_then (receivePacket h R stop packet timeoutInMillisecs d w)
       (\<lambda>(received, packet', d', w').
     if \<not> received then Some (Inr (packet', d', w'))
     else if getType packet' = ControlPacket then
       let (sptr, moved) = ComPacket_move packet'
       in (case getControlMessage sptr of
             Inl e \<Rightarrow> Some (Inl e)
           | Inr msg \<Rightarrow>
               Some (Inr (moved, if msg = Hello then d' else signalTransportError d', w')))
     else Some (Inr (packet', signalTransportError d', w')))"

section \<open>The receive loop\<close>

text \<open>Calling the callbacks of all subscribers of the packet's type, in order.\<close>

definition postPacket ::
    "com_packet \<Rightarrow> 'cb demuxer \<Rightarrow> ('cb \<times> com_packet) list \<times> 'cb demuxer" where
  "postPacket sptr d =
     (let queue = subscribers d (getType sptr)
      in (map (\<lambda>s. (sub_callback s, sptr)) queue, set_subscribers (getType sptr) queue d))"

text \<open>One turn of the \<open>while\<close> loop of PacketDemuxer::receiveLoop.\<close>

definition receiveTurn ::
    "host_order \<Rightarrow> 'w abstract_reader \<Rightarrow> ('w \<Rightarrow> bool) \<Rightarrow> com_packet \<Rightarrow> 'cb demuxer \<Rightarrow> 'w \<Rightarrow>
      (com_packet \<times> ('cb \<times> com_packet) list \<times> 'cb demuxer \<times> 'w) run" where
  "receiveTurn h R stop packet d w =
     and_then (receivePacket h R stop packet 1000 d w)
       (\<lambda>(received, packet', d', w').
     if \<not> received then Some (Inr (packet', [], d', w'))
     else
       let packetType = getType packet'; (sptr, moved) = ComPacket_move packet'
       in if packetType = ControlPacket
          then Some (Inr (moved, [], handleControlMessage sptr d', w'))
          else let (calls, d'') = postPacket sptr d' in Some (Inr (moved, calls, d'', w')))"

text \<open>\<open>log\<close> are the callback calls made so far. \<open>None\<close>: the loop does not end.\<close>

partial_function (option) receiveWhile ::
    "host_order \<Rightarrow> 'w abstract_reader \<Rightarrow> ('w \<Rightarrow> bool) \<Rightarrow> com_packet \<Rightarrow>
      ('cb \<times> com_packet) list \<Rightarrow> 'cb demuxer \<Rightarrow> 'w \<Rightarrow>
      (('cb \<times> com_packet) list \<times> 'cb demuxer \<times> 'w) run" where
  [code]: "receiveWhile h R stop packet calls d w =
     (if dmx_transportError d \<or> stop w
      then Some (Inr (calls, d\<lparr>dmx_transportError := True\<rparr>, w))
      else (case receiveTurn h R stop packet d w of
              None \<Rightarrow> None
            | Some r \<Rightarrow>
                (case r of
                   Inl e \<Rightarrow> Some (Inl e)
                 | Inr (packet', new, d', w') \<Rightarrow>
                     receiveWhile h R stop packet' (calls @ new) d' w')))"

definition receiveLoop ::
    "host_order \<Rightarrow> 'w abstract_reader \<Rightarrow> ('w \<Rightarrow> bool) \<Rightarrow> 'cb demuxer \<Rightarrow> 'w \<Rightarrow>
      (('cb \<times> com_packet) list \<times> 'cb demuxer \<times> 'w) run" where
  "receiveLoop h R stop d w =
     and_then (receiveHelloMessage h R stop ComPacket_default 2000 d w)
       (\<lambda>(packet, d', w'). receiveWhile h R stop packet [] d' w')"

declare readBytes.simps [simp del] receiveWhile.simps [simp del]

text \<open>
  Induction over a call of \<open>readBytes\<close> that returns: it was done or told to stop, the read failed,
  it overran the buffer, or it went on.
\<close>

lemma readBytes_induct [consumes 1, case_names stops fails overruns more]:
  fixes R :: "'w abstract_reader"
  assumes "readBytes R stop z sz buf err w = Some r"
    and stops: "\<And>sz buf err w. \<not> (0 < sz \<and> \<not> (err \<or> stop w)) \<Longrightarrow>
      P sz buf err w (Inr (\<not> (err \<or> stop w), sz, buf, err \<or> stop w, w))"
    and fails: "\<And>sz buf w n bs w'. 0 < sz \<Longrightarrow> \<not> stop w \<Longrightarrow> rd_read R sz w = (n, bs, w') \<Longrightarrow>
      n < 0 \<or> n = 0 \<and> z \<Longrightarrow> P sz buf False w (Inr (False, sz, buf, True, w'))"
    and overruns: "\<And>sz buf w n bs w'. 0 < sz \<Longrightarrow> rd_read R sz w = (n, bs, w') \<Longrightarrow>
      int (unat sz) < n \<Longrightarrow> P sz buf False w (Inl UndefinedBehaviour)"
    and more: "\<And>sz buf w n bs w' r. 0 < sz \<Longrightarrow> \<not> stop w \<Longrightarrow> rd_read R sz w = (n, bs, w') \<Longrightarrow> 0 \<le> n \<Longrightarrow>
      n \<le> int (unat sz) \<Longrightarrow> P (sz - word_of_int n) (buf @ take (nat n) bs) False w' r \<Longrightarrow> P sz buf False w r"
  shows "P sz buf err w r"
proof -
  let ?Q = "\<lambda>R' stop' z' (sz :: usize) (buf :: byte list) err (w :: 'w) r.
    R' = R \<longrightarrow> stop' = stop \<longrightarrow> z' = z \<longrightarrow> P sz buf err w r"
  have "?Q R stop z sz buf err w r"
  proof (rule readBytes.raw_induct [where P = ?Q, OF _ assms(1)], intro impI)
    fix f R' stop' z' sz buf err w r
    assume IH: "\<And>R' stop' z' sz buf err w r. f R' stop' z' sz buf err w = Some r \<Longrightarrow>
        ?Q R' stop' z' sz buf err w r"
      and step: "(let err' = err \<or> stop' w
        in if 0 < sz \<and> \<not> err'
           then let (n, bytes, w') = rd_read R' sz w
                in if n < 0 \<or> n = 0 \<and> z' then Some (Inr (False, sz, buf, True, w'))
                   else if int (unat sz) < n then Some (Inl UndefinedBehaviour)
                        else f R' stop' z' (sz - word_of_int n) (buf @ take (nat n) bytes) err' w'
           else Some (Inr (\<not> err', sz, buf, err', w))) = Some r"
      and eqs: "R' = R" "stop' = stop" "z' = z"
    obtain n bs w' where rd: "rd_read R sz w = (n, bs, w')" by (metis prod_cases3)
    show "P sz buf err w r"
    proof (cases "0 < sz \<and> \<not> (err \<or> stop w)")
      case False
      then have "r = Inr (\<not> (err \<or> stop w), sz, buf, err \<or> stop w, w)"
        using step unfolding eqs by (auto simp: Let_def)
      with stops [OF False] show ?thesis by simp
    next
      case True
      then show ?thesis
        using step rd IH [of R stop z] fails [OF _ _ rd] overruns [OF _ rd] more [OF _ _ rd] unfolding eqs
        by (auto simp: Let_def not_less split: if_splits)
    qed
  qed
  then show ?thesis by simp
qed

text \<open>
  Induction over a run of the loop that returns: it saw the error flag, a turn failed, or it
  went on after a turn.
\<close>

lemma receiveWhile_induct [consumes 1, case_names ends fails turn]:
  fixes R :: "'w abstract_reader"
  assumes "receiveWhile h R stop packet calls d w = Some r"
    and ends: "\<And>packet calls d w. dmx_transportError d \<or> stop w \<Longrightarrow>
      P packet calls d w (Inr (calls, d\<lparr>dmx_transportError := True\<rparr>, w))"
    and fails: "\<And>packet calls d w e. \<not> dmx_transportError d \<Longrightarrow> \<not> stop w \<Longrightarrow>
      receiveTurn h R stop packet d w = Some (Inl e) \<Longrightarrow> P packet calls d w (Inl e)"
    and turn: "\<And>packet calls d w packet' new d' w' r. \<not> dmx_transportError d \<Longrightarrow> \<not> stop w \<Longrightarrow>
      receiveTurn h R stop packet d w = Some (Inr (packet', new, d', w')) \<Longrightarrow>
      P packet' (calls @ new) d' w' r \<Longrightarrow> P packet calls d w r"
  shows "P packet calls d w r"
proof -
  let ?Q = "\<lambda>h' R' stop' packet calls d (w :: 'w) r.
    h' = h \<longrightarrow> R' = R \<longrightarrow> stop' = stop \<longrightarrow> P packet calls d w r"
  have "?Q h R stop packet calls d w r"
  proof (rule receiveWhile.raw_induct [where P = ?Q, OF _ assms(1)], intro impI)
    fix f h' R' stop' packet calls d w r
    assume IH: "\<And>h R stop packet calls d w r. f h R stop packet calls d w = Some r \<Longrightarrow>
        ?Q h R stop packet calls d w r"
      and step: "(if dmx_transportError d \<or> stop' w
        then Some (Inr (calls, d\<lparr>dmx_transportError := True\<rparr>, w))
        else case receiveTurn h' R' stop' packet d w of None \<Rightarrow> None
             | Some (Inl e) \<Rightarrow> Some (Inl e)
             | Some (Inr (packet', new, d', w')) \<Rightarrow>
                 f h' R' stop' packet' (calls @ new) d' w') = Some r"
      and eqs: "h' = h" "R' = R" "stop' = stop"
    show "P packet calls d w r"
    proof (cases "dmx_transportError d \<or> stop w")
      case True
      with step ends [OF True] show ?thesis unfolding eqs by auto
    next
      case False
      then show ?thesis
        using step IH [of h R stop] fails [of d w packet] turn [of d w packet] unfolding eqs
        by (auto split: option.splits sum.splits)
    qed
  qed
  then show ?thesis by simp
qed

section \<open>Reading a number of bytes\<close>

context byte_reader begin

text \<open>
  Whatever the transport and the destructor do, a call that returns has stored a prefix of
  the pending bytes after what was there, and reports failure exactly when the error flag
  is set.
\<close>

lemma readBytes_prefix:
  assumes "readBytes R stop False (of_nat k) buf err w = Some r" "k < 2 ^ 64"
  shows "\<exists>bs err' w'. r = Inr (\<not> err', of_nat (k - length bs), buf @ bs, err', w') \<and>
     length bs \<le> k \<and> pending w = bs @ pending w' \<and>
     (\<not> err' \<longrightarrow> length bs = k) \<and> (err \<longrightarrow> err')"
  using assms
proof (induction "of_nat k :: usize" buf err w r arbitrary: k rule: readBytes_induct)
  case (stops buf err w)
  then show ?case
    by (intro exI [of _ "[]"] exI [of _ "err \<or> stop w"] exI [of _ w]) auto
next
  case (fails buf w n bs w')
  then show ?case using read_fail [OF fails(3)] read_fail' [OF fails(3)] by auto
next
  case (overruns buf w n bs w')
  then show ?case using read_le [OF overruns(2)] by linarith
next
  case (more buf w n bytes w' r)
  have "unat (of_nat k :: usize) = k" using more(7) by simp
  then have n: "length bytes = nat n" "pending w = bytes @ pending w'" "nat n \<le> k"
    using read_ok [OF more(3,4)] read_le_nat [OF more(3)] by auto
  have sz: "of_nat k - word_of_int n = (of_nat (k - nat n) :: usize)"
    using usize_diff_of_int [OF n(3)] more(4) by simp
  have "k - nat n < 2 ^ 64" using more(7) by simp
  from more(6) [OF sz this] obtain bs err' w'' where
    "r = Inr (\<not> err', of_nat (k - nat n - length bs), (buf @ take (nat n) bytes) @ bs, err', w'')"
    "length bs \<le> k - nat n" "pending w' = bs @ pending w''" "\<not> err' \<longrightarrow> length bs = k - nat n"
    by blast
  with n show ?case
    by (intro exI [of _ "bytes @ bs"] exI [of _ err'] exI [of _ w'']) auto
qed

end

context byte_source begin

lemma readBytes_total:
  assumes "k \<le> length (pending w)" "k < 2 ^ 64"
  shows "\<exists>w'. readBytes R (\<lambda>_. False) False (of_nat k) buf False w =
      Some (Inr (True, 0, buf @ take k (pending w), False, w')) \<and> pending w' = drop k (pending w)"
  using assms
proof (induction "(k, lag w)" arbitrary: k buf w
    rule: wf_induct_rule [OF wf_lex_prod [OF wf_less_than wf_less_than]])
  case (1 k w buf)
  show ?case
  proof (cases "k = 0")
    case False
    obtain n bytes w' where rd: "rd_read R (of_nat k) w = (n, bytes, w')"
      by (cases "rd_read R (of_nat k) w") auto
    have "pending w \<noteq> []" and pos: "0 < (of_nat k :: usize)"
      using 1(2,3) False by auto
    then have n0: "0 \<le> n" and progress: "0 < n \<or> lag w' < lag w"
      using read_fail [OF rd] read_progress [OF rd] by force+
    have n: "length bytes = nat n" "pending w = bytes @ pending w'" "nat n \<le> k"
      using read_ok [OF rd n0] read_le_nat [OF rd] 1(3) by auto
    then have "n \<le> int k" using n0 by simp
    have sz: "of_nat k - word_of_int n = (of_nat (k - nat n) :: usize)"
      using usize_diff_of_int [OF n(3)] n0 by simp
    have "readBytes R (\<lambda>_. False) False (of_nat k) buf False w =
        readBytes R (\<lambda>_. False) False (of_nat (k - nat n)) (buf @ bytes) False w'"
      using rd n0 n(1) \<open>n \<le> int k\<close> pos 1(3) sz by (subst readBytes.simps) simp
    moreover have "\<exists>w''. readBytes R (\<lambda>_. False) False (of_nat (k - nat n)) (buf @ bytes) False w' =
        Some (Inr (True, 0, (buf @ bytes) @ take (k - nat n) (pending w'), False, w'')) \<and>
        pending w'' = drop (k - nat n) (pending w')"
      using progress n 1(2,3) n0 False by (intro 1(1)) auto
    ultimately show ?thesis using n by auto
  qed (simp add: readBytes.simps)
qed

end

section \<open>Facts about the state of the transport\<close>

lemma readBytes_keeps:
  assumes "readBytes R stop z sz buf err w = Some r" "reader_keeps R P" "P w"
    and "r = Inr (ok, rest, bytes, err', w')"
  shows "P w'"
  using assms(1,3,4)
proof (induction sz buf err w r rule: readBytes_induct)
  case (fails sz buf w n bs w1)
  then show ?case using keeps_read [OF assms(2)] by blast
next
  case (more sz buf w n bs w1 r)
  then show ?case using keeps_read [OF assms(2)] by blast
qed auto

lemma readUint32_keeps:
  "readUint32 h R stop err w = Some (Inr (ok, v, err', w')) \<Longrightarrow> reader_keeps R P \<Longrightarrow> P w \<Longrightarrow> P w'"
  by (auto simp: readUint32_def outcome_eqs dest: readBytes_keeps [OF _ _ _ refl])

lemma receivePayload_keeps:
  "receivePayload R stop packet t n d w = Some (Inr (ok, p, d', w')) \<Longrightarrow> reader_keeps R P \<Longrightarrow> P w \<Longrightarrow> P w'"
  by (auto simp: receivePayload_def outcome_eqs Let_def dest: readBytes_keeps [OF _ _ _ refl]
      split: if_splits sum.splits)

lemma receivePacket_keeps:
  assumes "receivePacket h R stop packet ms d w = Some (Inr (ok, p, d', w'))"
    and "reader_keeps R P" "P w"
  shows "P w'"
  using assms
  by (auto simp: receivePacket_def outcome_eqs dest: readUint32_keeps receivePayload_keeps keeps_ready
      split: if_splits prod.splits)

section \<open>Receiving a packet\<close>

text \<open>The packet made for a header: only a size below \<open>2\<^sup>3\<^sup>1\<close> gives one.\<close>

lemma header_packet:
  "ComPacket_sized t (to_int32 (uint (n :: u32))) =
    (if unat n < 2 ^ 31 then Inr \<lparr>m_type = t, m_data = replicate (unat n) 0\<rparr> else Inl LengthError)"
proof -
  have lt: "uint n < 2 ^ 32" using unsigned_less [of n] by simp
  have conv: "unat n < 2 ^ 31 \<longleftrightarrow> uint n < 2 ^ 31"
  proof -
    have "unat n < 2 ^ 31 \<longleftrightarrow> int (unat n) < int (2 ^ 31)" by (simp only: of_nat_less_iff)
    then show ?thesis by simp
  qed
  show ?thesis
  proof (cases "uint n < 2 ^ 31")
    case True
    then have "to_int32 (uint n) = uint n"
      using uint_ge_0 [of n] by (intro to_int32_id) linarith+
    then show ?thesis
      unfolding conv using True ComPacket_sized_spec [of "uint n" t] uint_ge_0 [of n] by simp
  next
    case False
    then have "to_int32 (uint n) = uint n - 2 ^ 32" using lt by (intro to_int32_wrap) simp_all
    then show ?thesis
      unfolding conv using False lt ComPacket_sized_spec [of "uint n - 2 ^ 32" t] by simp
  qed
qed

context byte_reader begin

lemma readUint32_sound:
  assumes "readUint32 h R stop err w = Some r"
  shows "\<exists>v err' w' bs. r = Inr (\<not> err', v, err', w') \<and> pending w = bs @ pending w' \<and>
    (err \<longrightarrow> err') \<and> (\<not> err' \<longrightarrow> bs = be32 (ntohl h v))"
  using assms readBytes_prefix [of stop 4 "[]" err w]
  by (fastforce simp: readUint32_def outcome_eqs ntohl_load32)

lemma receivePayload_sound:
  assumes "receivePayload R stop packet t n d w = Some r" "\<not> dmx_transportError d"
  shows "r = Inl LengthError \<and> 2 ^ 31 \<le> unat n \<or> r = Inl AssertionFailed \<and> t = InvalidPacket \<or>
    (\<exists>w' bs. r = Inr (False, packet, signalTransportError d, w') \<and> pending w = bs @ pending w') \<or>
    (\<exists>data w'. r = Inr (True, \<lparr>m_type = t, m_data = data\<rparr>, d, w') \<and> pending w = data @ pending w' \<and>
      length data = unat n \<and> unat n < 2 ^ 31 \<and> t \<noteq> InvalidPacket)"
proof (cases "unat n < 2 ^ 31")
  case True
  have "getDataSize \<lparr>m_type = t, m_data = replicate (unat n) 0\<rparr> = of_nat (unat n)"
    by (simp add: getDataSize_def)
  then show ?thesis
    using assms True readBytes_prefix [of stop "unat n" "[]" False w]
    by (fastforce simp: receivePayload_def header_packet outcome_eqs getType_def
        signalTransportError_def Let_def split: if_splits)
next
  case False
  then show ?thesis using assms by (auto simp: receivePayload_def header_packet)
qed

end

context byte_reader begin

text \<open>The header of a packet: reading it fails, or the payload is read after it.\<close>

lemma receivePacket_header:
  assumes "receivePacket h R stop packet ms d w = Some r" "\<not> dmx_transportError d"
    and rdy: "rd_readyForReading R ms w = (True, w0)"
  obtains (failed) w' bs where "r = Inr (False, packet, signalTransportError d, w')"
      "pending w0 = bs @ pending w'"
    | (header) t n w' where "receivePayload R stop packet t n d w' = Some r"
      "pending w0 = be32 t @ be32 n @ pending w'"
proof -
  obtain s1 where s1: "readUint32 h R stop False w0 = Some s1"
    using assms by (auto simp: receivePacket_def outcome_eqs)
  obtain t e1 w1 b1 where 1: "s1 = Inr (\<not> e1, t, e1, w1)" "pending w0 = b1 @ pending w1"
    "\<not> e1 \<longrightarrow> b1 = be32 (ntohl h t)"
    using readUint32_sound [OF s1] by auto
  show thesis
  proof (cases e1)
    case True
    with assms s1 1 failed [of w1 b1] show thesis
      by (simp add: receivePacket_def signalTransportError_def)
  next
    case False
    obtain s2 where s2: "readUint32 h R stop False w1 = Some s2"
      using assms s1 1 False by (auto simp: receivePacket_def outcome_eqs)
    obtain n e2 w2 b2 where 2: "s2 = Inr (\<not> e2, n, e2, w2)" "pending w1 = b2 @ pending w2"
      "\<not> e2 \<longrightarrow> b2 = be32 (ntohl h n)"
      using readUint32_sound [OF s2] by auto
    have d: "d\<lparr>dmx_transportError := False\<rparr> = d" using assms(2) by simp
    show thesis
    proof (cases e2)
      case True
      with assms s1 1 False s2 2 failed [of w2 "b1 @ b2"] show thesis
        by (simp add: receivePacket_def signalTransportError_def)
    next
      case e2: False
      with assms s1 1 False s2 2 header [of "ntohl h t" "ntohl h n" w2] show thesis
        by (simp add: receivePacket_def d)
    qed
  qed
qed

text \<open>
  Every way a call can end that starts without an error: the header announces a size that
  is no \<open>int\<close>; the packet has the invalid type; the wait timed out and nothing was taken;
  the error flag was set; or the result is the next packet on the stream.
\<close>

lemma receivePacket_cases:
  assumes "receivePacket h R stop packet ms d w = Some r" "\<not> dmx_transportError d"
  obtains (length_error) t n rest where "r = Inl LengthError"
      "pending w = be32 t @ be32 n @ rest" "2 ^ 31 \<le> unat n"
    | (assertion) n rest where "r = Inl AssertionFailed"
      "pending w = be32 InvalidPacket @ be32 n @ rest"
    | (timeout) w' where "r = Inr (False, packet, d, w')" "pending w' = pending w"
      "rd_readyForReading R ms w = (False, w')"
    | (error) w' bs where "r = Inr (False, packet, signalTransportError d, w')"
      "pending w = bs @ pending w'"
    | (received) p w' where "r = Inr (True, p, d, w')" "pending w = wire p @ pending w'"
      "length (m_data p) < 2 ^ 31" "m_type p \<noteq> InvalidPacket"
proof -
  obtain ready w0 where rdy: "rd_readyForReading R ms w = (ready, w0)" "pending w0 = pending w"
    using ready_pending by (metis surj_pair)
  show thesis
  proof (cases ready)
    case False
    with assms(1) rdy timeout [of w0] show thesis by (auto simp: receivePacket_def)
  next
    case True
    with rdy have "rd_readyForReading R ms w = (True, w0)" by simp
    with assms show thesis
    proof (cases rule: receivePacket_header)
      case (failed w' bs)
      with rdy(2) show thesis by (intro error [of w' bs]) simp_all
    next
      case (header t n w2)
      from receivePayload_sound [OF header(1) assms(2)] show thesis
      proof (elim disjE exE conjE)
        fix w' bs
        assume "r = Inr (False, packet, signalTransportError d, w')" "pending w2 = bs @ pending w'"
        then show thesis using header(2) rdy(2) by (intro error [of w' "be32 t @ be32 n @ bs"]) auto
      next
        fix data w'
        assume "r = Inr (True, \<lparr>m_type = t, m_data = data\<rparr>, d, w')"
          "pending w2 = data @ pending w'" "length data = unat n" "unat n < 2 ^ 31" "t \<noteq> InvalidPacket"
        then show thesis
          using header(2) rdy(2)
          by (intro received [of "\<lparr>m_type = t, m_data = data\<rparr>" w']) (auto simp: wire_def)
      qed (use header(2) rdy(2) length_error assertion in auto)
    qed
  qed
qed

end

context byte_source begin

lemma readUint32_total:
  assumes "pending w = be32 v @ rest"
  shows "\<exists>x w'. readUint32 h R (\<lambda>_. False) False w = Some (Inr (True, x, False, w')) \<and>
     ntohl h x = v \<and> pending w' = rest"
  using readBytes_total [of 4 w "[]"] assms by (force simp: readUint32_def)

lemma receivePayload_total:
  assumes "pending w = data @ rest" "length data < 2 ^ 31" "t \<noteq> InvalidPacket"
    "\<not> dmx_transportError d"
  shows "\<exists>w'. receivePayload R (\<lambda>_. False) packet t (of_nat (length data)) d w =
      Some (Inr (True, \<lparr>m_type = t, m_data = data\<rparr>, d, w')) \<and> pending w' = rest"
proof -
  have "unat (of_nat (length data) :: u32) = length data" using assms(2) by simp
  moreover have "getDataSize \<lparr>m_type = t, m_data = replicate (length data) 0\<rparr> = of_nat (length data)"
    by (simp add: getDataSize_def)
  moreover obtain w' where "readBytes R (\<lambda>_. False) False (of_nat (length data)) [] False w =
      Some (Inr (True, 0, data, False, w'))" "pending w' = rest"
    using readBytes_total [of "length data" w "[]"] assms(1,2) by auto
  ultimately show ?thesis
    using assms(2-4) by (simp add: receivePayload_def header_packet getType_def)
qed

text \<open>Once a whole header is pending and the transport is ready, the header is read.\<close>

lemma receivePacket_header:
  assumes "pending w = be32 t @ be32 n @ rest" "\<not> dmx_transportError d"
    "rd_readyForReading R ms w = (True, w0)"
  shows "\<exists>w2. receivePacket h R (\<lambda>_. False) packet ms d w =
      receivePayload R (\<lambda>_. False) packet t n d w2 \<and> pending w2 = rest \<and>
    (\<forall>P. reader_keeps R P \<longrightarrow> P w \<longrightarrow> P w2)"
proof -
  have "pending w0 = be32 t @ be32 n @ rest" using ready_pending [OF assms(3)] assms(1) by simp
  from readUint32_total [OF this, of h] obtain x w1 where
    1: "readUint32 h R (\<lambda>_. False) False w0 = Some (Inr (True, x, False, w1))"
      "ntohl h x = t" "pending w1 = be32 n @ rest"
    by blast
  obtain y w2 where 2: "readUint32 h R (\<lambda>_. False) False w1 = Some (Inr (True, y, False, w2))"
    "ntohl h y = n" "pending w2 = rest"
    using readUint32_total [OF 1(3), of h] by blast
  have d: "d\<lparr>dmx_transportError := False\<rparr> = d" using assms(2) by simp
  have "receivePacket h R (\<lambda>_. False) packet ms d w =
      receivePayload R (\<lambda>_. False) packet t n d w2"
    using 1(1,2) 2 assms(2,3) by (simp add: receivePacket_def d)
  moreover have "P w2" if P: "reader_keeps R P" "P w" for P
    using P(2) keeps_ready [OF P(1) assms(3)] readUint32_keeps [OF 1(1) P(1)]
      readUint32_keeps [OF 2(1) P(1)] by blast
  ultimately show ?thesis using 2(3) by blast
qed

text \<open>
  While a whole packet is pending and nothing sets the error flag, a call returns it when
  the transport is ready; otherwise it times out without taking anything.
\<close>

lemma receivePacket_ready:
  assumes "pending w = wire p @ rest" "length (m_data p) < 2 ^ 31" "m_type p \<noteq> InvalidPacket"
    "\<not> dmx_transportError d" "rd_readyForReading R ms w = (True, w0)"
  shows "\<exists>w'. receivePacket h R (\<lambda>_. False) packet ms d w = Some (Inr (True, p, d, w')) \<and> pending w' = rest"
proof -
  have "pending w = be32 (m_type p) @ be32 (of_nat (length (m_data p))) @ m_data p @ rest"
    using assms(1) by (simp add: wire_def)
  from receivePacket_header [OF this assms(4,5), of h packet] obtain w2 where
    "receivePacket h R (\<lambda>_. False) packet ms d w =
      receivePayload R (\<lambda>_. False) packet (m_type p) (of_nat (length (m_data p))) d w2"
    "pending w2 = m_data p @ rest"
    by auto
  with receivePayload_total [OF this(2) assms(2-4), of packet] show ?thesis by auto
qed

lemma receivePacket_total:
  assumes "pending w = wire p @ rest" "length (m_data p) < 2 ^ 31" "m_type p \<noteq> InvalidPacket"
    "\<not> dmx_transportError d"
  shows "\<exists>w'. receivePacket h R (\<lambda>_. False) packet ms d w = Some (Inr (False, packet, d, w')) \<and>
      pending w' = pending w \<and> lag w' < lag w \<or>
    receivePacket h R (\<lambda>_. False) packet ms d w = Some (Inr (True, p, d, w')) \<and> pending w' = rest"
proof -
  obtain ready w0 where rdy: "rd_readyForReading R ms w = (ready, w0)" by fastforce
  have ne: "pending w \<noteq> []" using assms(1) by (auto simp: wire_def be32_def)
  show ?thesis
  proof (cases ready)
    case False
    with rdy ready_pending [OF rdy] ready_progress [OF rdy ne] show ?thesis
      by (auto simp: receivePacket_def)
  next
    case True
    with receivePacket_ready [OF assms, of ms w0 h packet] rdy show ?thesis by auto
  qed
qed

text \<open>Headers that end the process.\<close>

lemma receivePacket_oversized:
  assumes "pending w = be32 t @ be32 n @ rest" "\<not> dmx_transportError d"
    "rd_readyForReading R ms w = (True, w0)" "2 ^ 31 \<le> unat n"
  shows "receivePacket h R (\<lambda>_. False) packet ms d w = Some (Inl LengthError)"
  using receivePacket_header [OF assms(1-3), of h packet] assms(4)
  by (auto simp: receivePayload_def header_packet)

lemma receivePacket_invalid:
  assumes "pending w = wire p @ rest" "\<not> dmx_transportError d"
    "rd_readyForReading R ms w = (True, w0)" "length (m_data p) < 2 ^ 31" "m_type p = InvalidPacket"
  shows "receivePacket h R (\<lambda>_. False) packet ms d w = Some (Inl AssertionFailed)"
proof -
  have "pending w = be32 InvalidPacket @ be32 (of_nat (length (m_data p))) @ m_data p @ rest"
    using assms(1,5) by (simp add: wire_def)
  from receivePacket_header [OF this assms(2,3)] obtain w2 where
    go: "receivePacket h R (\<lambda>_. False) packet ms d w =
      receivePayload R (\<lambda>_. False) packet InvalidPacket (of_nat (length (m_data p))) d w2"
      "pending w2 = m_data p @ rest"
    by blast
  obtain w' where "readBytes R (\<lambda>_. False) False (of_nat (length (m_data p))) [] False w2 =
      Some (Inr (True, 0, m_data p, False, w'))"
    using readBytes_total [of "length (m_data p)" w2 "[]"] go(2) assms(4) by auto
  moreover have "unat (of_nat (length (m_data p)) :: u32) = length (m_data p)" using assms(4) by simp
  moreover have "getDataSize \<lparr>m_type = t, m_data = replicate (length (m_data p)) 0\<rparr> =
      of_nat (length (m_data p))" for t
    by (simp add: getDataSize_def)
  ultimately show ?thesis
    using go(1) assms(2,4) by (simp add: receivePayload_def header_packet getType_def)
qed

end

end
