(* ===== verification/ReceiveLoop.thy ===== *)
theory ReceiveLoop
  imports PacketDemuxer
begin

text \<open>
  What the receive thread of a demuxer does with a stream (\<open>PacketDemuxer::receiveLoop\<close>): the
  callback calls it makes for the packets of the stream, and when it ends.
\<close>

section \<open>Dispatching\<close>

text \<open>
  The callback calls that a packet causes: none for a control packet, otherwise one for each
  subscriber of its type, in the order of subscription.
\<close>

definition dispatched :: "'cb demuxer \<Rightarrow> com_packet \<Rightarrow> ('cb \<times> com_packet) list" where
  "dispatched d p =
     (if m_type p = ControlPacket then []
      else map (\<lambda>s. (sub_callback s, p)) (subscribers d (m_type p)))"

text \<open>Looking up a type may leave an empty entry behind, which makes no difference.\<close>

definition same_service :: "'cb demuxer \<Rightarrow> 'cb demuxer \<Rightarrow> bool" where
  "same_service d d' \<longleftrightarrow> subscribers d' = subscribers d \<and> dmx_packetIds d' = dmx_packetIds d \<and>
     dmx_transportError d' = dmx_transportError d"

lemma same_service_refl [simp]: "same_service d d"
  by (simp add: same_service_def)

lemma same_service_trans: "same_service d e \<Longrightarrow> same_service e f \<Longrightarrow> same_service d f"
  by (simp add: same_service_def)

lemma dispatched_same: "same_service d d' \<Longrightarrow> dispatched d' = dispatched d"
  by (simp add: same_service_def dispatched_def fun_eq_iff)

lemma set_subscribers_same: "same_service d (set_subscribers t (subscribers d t) d)"
  by (auto simp: same_service_def set_subscribers_def subscribers_def fun_eq_iff split: option.split)

lemma receiveTurn_received:
  assumes "receivePacket h R stop packet 1000 d w = Some (Inr (True, p, d1, w1))"
  shows "\<exists>d'. receiveTurn h R stop packet d w = Some (Inr (ComPacket_default, dispatched d1 p, d', w1)) \<and>
    same_service d1 d'"
  using assms set_subscribers_same [of d1 "m_type p"]
  by (auto simp: receiveTurn_def postPacket_def getType_def dispatched_def
      handleControlMessage_def ComPacket_default_def Let_def)

lemma receiveTurn_not_received:
  assumes "receivePacket h R stop packet 1000 d w = Some (Inr (False, p, d1, w1))"
  shows "receiveTurn h R stop packet d w = Some (Inr (p, [], d1, w1))"
  using assms by (simp add: receiveTurn_def)

text \<open>Packets that can be received: of a valid type, and of a size that is an \<open>int\<close>.\<close>

definition receivable :: "com_packet \<Rightarrow> bool" where
  "receivable p \<longleftrightarrow> m_type p \<noteq> InvalidPacket \<and> length (m_data p) < 2 ^ 31"

context byte_source begin

text \<open>
  While a whole packet is pending, the loop gets to the point where it has made the calls
  for the packet and taken it from the stream.
\<close>

lemma receiveWhile_packet:
  assumes "pending w = wire p @ rest" "receivable p" "\<not> dmx_transportError d"
    "reader_keeps R P" "P w"
  shows "\<exists>packet' d' w'. receiveWhile h R (\<lambda>_. False) packet calls d w =
      receiveWhile h R (\<lambda>_. False) packet' (calls @ dispatched d p) d' w' \<and>
      pending w' = rest \<and> same_service d d' \<and> P w'"
  using assms
proof (induction "lag w" arbitrary: w rule: less_induct)
  case less
  let ?go = "receivePacket h R (\<lambda>_. False) packet 1000 d w"
  have "length (m_data p) < 2 ^ 31" "m_type p \<noteq> InvalidPacket"
    using less.prems(2) by (simp_all add: receivable_def)
  from receivePacket_total [OF less.prems(1) this less.prems(3), of h packet 1000]
  consider (timeout) w' where "?go = Some (Inr (False, packet, d, w'))" "pending w' = pending w"
      "lag w' < lag w"
    | (received) w' where "?go = Some (Inr (True, p, d, w'))" "pending w' = rest"
    by blast
  then show ?case
  proof cases
    case timeout
    have "receiveWhile h R (\<lambda>_. False) packet calls d w = receiveWhile h R (\<lambda>_. False) packet calls d w'"
      using receiveTurn_not_received [OF timeout(1)] less.prems(3)
      by (subst receiveWhile.simps) simp
    moreover have "P w'" by (rule receivePacket_keeps [OF timeout(1) less.prems(4,5)])
    ultimately show ?thesis
      using less.hyps [OF timeout(3)] timeout(2) less.prems by auto
  next
    case received
    obtain d' where d': "receiveTurn h R (\<lambda>_. False) packet d w =
        Some (Inr (ComPacket_default, dispatched d p, d', w'))" "same_service d d'"
      using receiveTurn_received [OF received(1)] by blast
    then have "receiveWhile h R (\<lambda>_. False) packet calls d w =
        receiveWhile h R (\<lambda>_. False) ComPacket_default (calls @ dispatched d p) d' w'"
      using less.prems(3) by (subst receiveWhile.simps) simp
    moreover have "P w'" by (rule receivePacket_keeps [OF received(1) less.prems(4,5)])
    ultimately show ?thesis using received(2) d'(2) by blast
  qed
qed

lemma receiveWhile_packets:
  assumes "pending w = concat (map wire ps) @ rest" "\<forall>p \<in> set ps. receivable p"
    "\<not> dmx_transportError d" "reader_keeps R P" "P w"
  shows "\<exists>packet' d' w'. receiveWhile h R (\<lambda>_. False) packet calls d w =
      receiveWhile h R (\<lambda>_. False) packet' (calls @ concat (map (dispatched d) ps)) d' w' \<and>
      pending w' = rest \<and> same_service d d' \<and> P w'"
  using assms
proof (induction ps arbitrary: packet calls d w)
  case Nil
  then show ?case by (intro exI [of _ packet] exI [of _ d] exI [of _ w]) simp
next
  case (Cons p ps)
  have "pending w = wire p @ concat (map wire ps) @ rest" "receivable p"
    using Cons.prems(1,2) by simp_all
  from receiveWhile_packet [OF this Cons.prems(3-5), of h packet calls] obtain packet1 d1 w1
    where 1: "receiveWhile h R (\<lambda>_. False) packet calls d w =
      receiveWhile h R (\<lambda>_. False) packet1 (calls @ dispatched d p) d1 w1"
      "pending w1 = concat (map wire ps) @ rest" "same_service d d1" "P w1"
    by blast
  moreover have "\<not> dmx_transportError d1" using 1(3) Cons.prems(3) by (simp add: same_service_def)
  moreover note Cons.IH [of w1 d1 packet1 "calls @ dispatched d p"]
  ultimately show ?case
    using Cons.prems(2,4) dispatched_same [OF 1(3)] same_service_trans [OF 1(3)] by fastforce
qed

end

section \<open>The handshake\<close>

lemma getControlMessage_hello [simp]: "getControlMessage (control_packet msg) = Inr (control_of (control_value msg))"
  by (simp add: getControlMessage_def control_packet_def)

lemma receivable_hello: "receivable (control_packet msg)"
  by (simp add: receivable_def control_packet_def ControlPacket_def InvalidPacket_def)

context byte_source begin

text \<open>
  A stream that begins with Hello passes the handshake: the packet is taken, or the wait for
  it times out and it is still there.
\<close>

lemma receiveHelloMessage_hello:
  assumes "pending w = wire (control_packet Hello) @ rest" "\<not> dmx_transportError d"
    "reader_keeps R P" "P w"
  shows "\<exists>packet' w'. receiveHelloMessage h R (\<lambda>_. False) packet ms d w = Some (Inr (packet', d, w')) \<and>
     P w' \<and> (pending w' = pending w \<or> pending w' = rest)"
proof -
  let ?go = "receivePacket h R (\<lambda>_. False) packet ms d w"
  have "length (m_data (control_packet Hello)) < 2 ^ 31" "m_type (control_packet Hello) \<noteq> InvalidPacket"
    using receivable_hello [of Hello] by (simp_all add: receivable_def)
  from receivePacket_total [OF assms(1) this assms(2), of h packet ms]
  consider (timeout) w' where "?go = Some (Inr (False, packet, d, w'))" "pending w' = pending w"
    | (received) w' where "?go = Some (Inr (True, control_packet Hello, d, w'))" "pending w' = rest"
    by blast
  then show ?thesis
  proof cases
    case timeout
    then show ?thesis
      using receivePacket_keeps [OF timeout(1) assms(3,4)] by (simp add: receiveHelloMessage_def)
  next
    case received
    then show ?thesis
      using receivePacket_keeps [OF received(1) assms(3,4)]
      by (simp add: receiveHelloMessage_def getType_def control_of_def
          getControlMessage_def control_packet_def)
  qed
qed

lemma dispatched_control: "m_type p = ControlPacket \<Longrightarrow> dispatched d p = []"
  by (simp add: dispatched_def)

lemma receiveLoop_packets:
  assumes "pending w = concat (map wire (control_packet Hello # ps)) @ rest"
    "\<forall>p \<in> set ps. receivable p" "\<not> dmx_transportError d" "reader_keeps R P" "P w"
  shows "\<exists>packet' d' w'. receiveLoop h R (\<lambda>_. False) d w =
      receiveWhile h R (\<lambda>_. False) packet' (concat (map (dispatched d) ps)) d' w' \<and>
      pending w' = rest \<and> same_service d d' \<and> P w'"
proof -
  let ?hello = "control_packet Hello"
  have "pending w = wire ?hello @ concat (map wire ps) @ rest" using assms(1) by simp
  from receiveHelloMessage_hello [OF this assms(3-5), of h ComPacket_default 2000]
  obtain packet1 w1 where 1: "receiveHelloMessage h R (\<lambda>_. False) ComPacket_default 2000 d w =
      Some (Inr (packet1, d, w1))" "P w1"
      "pending w1 = pending w \<or> pending w1 = concat (map wire ps) @ rest"
    by blast
  have loop: "receiveLoop h R (\<lambda>_. False) d w = receiveWhile h R (\<lambda>_. False) packet1 [] d w1"
    by (simp add: receiveLoop_def 1(1))
  have all: "\<forall>p \<in> set (?hello # ps). receivable p"
    using assms(2) receivable_hello by simp
  from 1(3) show ?thesis
  proof
    assume "pending w1 = pending w"
    with assms(1) have "pending w1 = concat (map wire (?hello # ps)) @ rest" by simp
    from receiveWhile_packets [OF this all assms(3,4) 1(2), of h packet1 "[]"] show ?thesis
      using loop by (simp add: dispatched_control)
  next
    assume "pending w1 = concat (map wire ps) @ rest"
    from receiveWhile_packets [OF this assms(2-4) 1(2), of h packet1 "[]"] show ?thesis
      using loop by simp
  qed
qed

end

section \<open>The end of the stream\<close>

context closing_source begin

lemma readBytes_end:
  assumes "closed w" "pending w = []" "0 < k" "k < 2 ^ 64"
  shows "\<exists>w'. readBytes R (\<lambda>_. False) False (of_nat k) buf False w =
      Some (Inr (False, of_nat k, buf, True, w'))"
  using assms(1,2)
proof (induction "lag w" arbitrary: w rule: less_induct)
  case less
  obtain n bytes w' where rd: "rd_read R (of_nat k) w = (n, bytes, w')"
    by (cases "rd_read R (of_nat k) w") auto
  have pos: "0 < (of_nat k :: usize)" using assms(3,4) by simp
  show ?case
  proof (cases "n < 0")
    case True
    with rd pos show ?thesis by (subst readBytes.simps) simp
  next
    case False
    then have n: "length bytes = nat n" "bytes = []" "pending w' = []"
      using read_ok [OF rd] less.prems(2) by auto
    with False have "n = 0" by simp
    have "lag w' < lag w" using closed_read [OF rd less.prems pos] False by simp
    moreover have "closed w'" using keeps_read [OF closed_keeps rd less.prems(1)] .
    ultimately obtain w'' where "readBytes R (\<lambda>_. False) False (of_nat k) buf False w' =
        Some (Inr (False, of_nat k, buf, True, w''))"
      using less.hyps n(3) by blast
    with rd pos \<open>n = 0\<close> n(2) show ?thesis by (subst readBytes.simps) simp
  qed
qed

lemma receiveWhile_end:
  assumes "closed w" "pending w = []" "\<not> dmx_transportError d"
  shows "\<exists>w'. receiveWhile h R (\<lambda>_. False) packet calls d w =
      Some (Inr (calls, signalTransportError d, w'))"
  using assms(1,2)
proof (induction "lag w" arbitrary: w rule: less_induct)
  case less
  obtain ready w0 where rdy: "rd_readyForReading R 1000 w = (ready, w0)" "pending w0 = []" "closed w0"
    using ready_pending keeps_ready [OF closed_keeps] less.prems by (metis surj_pair)
  show ?case
  proof (cases ready)
    case False
    then have "lag w0 < lag w" using closed_ready rdy(1) less.prems by simp
    from less.hyps [OF this rdy(3,2)] show ?thesis
      using False rdy assms(3) by (subst receiveWhile.simps) (simp add: receiveTurn_def receivePacket_def)
  next
    case True
    obtain w1 where "readBytes R (\<lambda>_. False) False 4 [] False w0 = Some (Inr (False, 4, [], True, w1))"
      using readBytes_end [OF rdy(3,2), of 4 "[]"] by auto
    then have "receiveTurn h R (\<lambda>_. False) packet d w = Some (Inr (packet, [], signalTransportError d, w1))"
      using rdy(1) True assms(3)
      by (simp add: receiveTurn_def receivePacket_def readUint32_def signalTransportError_def)
    then show ?thesis
      using assms(3) by (subst receiveWhile.simps) (simp add: receiveWhile.simps signalTransportError_def)
  qed
qed

text \<open>
  The whole thread on a stream of packets: it calls back for every packet, in the order of
  the stream, and then ends with the error flag set.
\<close>

lemma receiveLoop_delivers:
  assumes "pending w = concat (map wire (control_packet Hello # ps))" "closed w"
    "\<forall>p \<in> set ps. receivable p" "\<not> dmx_transportError d"
  shows "\<exists>d' w'. receiveLoop h R (\<lambda>_. False) d w =
      Some (Inr (concat (map (dispatched d) ps), d', w')) \<and>
      dmx_transportError d' \<and> subscribers d' = subscribers d"
proof -
  obtain packet' d' w' where loop: "receiveLoop h R (\<lambda>_. False) d w =
      receiveWhile h R (\<lambda>_. False) packet' (concat (map (dispatched d) ps)) d' w'"
      "pending w' = []" "same_service d d'" "closed w'"
    using receiveLoop_packets [of w ps "[]" d closed h] assms closed_keeps by auto
  moreover have "\<not> dmx_transportError d'" using loop(3) assms(4) by (simp add: same_service_def)
  ultimately show ?thesis
    using receiveWhile_end [of w' d'] loop(3)
    by (fastforce simp: same_service_def signalTransportError_def subscribers_def fun_eq_iff)
qed

end

section \<open>What a run of the loop shows about the stream\<close>

text \<open>The headers that end the process.\<close>

definition bad_header :: "cxx_error \<Rightarrow> byte list \<Rightarrow> bool" where
  "bad_header e bs \<longleftrightarrow>
     (\<exists>t n rest. bs = be32 t @ be32 n @ rest \<and>
        (e = LengthError \<and> 2 ^ 31 \<le> unat n \<or> e = AssertionFailed \<and> t = InvalidPacket))"

text \<open>
  The result \<open>r\<close> of a run that had made the calls \<open>calls\<close> before: the packets \<open>ps\<close> were taken
  from the stream and dispatched, and the run ended with the error flag set, or with the
  process at a bad header.
\<close>

definition run_result ::
    "('w \<Rightarrow> byte list) \<Rightarrow> ('cb \<times> com_packet) list \<Rightarrow> 'cb demuxer \<Rightarrow> 'w \<Rightarrow>
      (('cb \<times> com_packet) list \<times> 'cb demuxer \<times> 'w) outcome \<Rightarrow> bool" where
  "run_result pending calls d w r \<longleftrightarrow>
     (\<exists>ps bs. (\<forall>p \<in> set ps. receivable p) \<and> pending w = concat (map wire ps) @ bs \<and>
        ((\<exists>e. r = Inl e \<and> bad_header e bs) \<or>
         (\<exists>d' w' cs. r = Inr (calls @ concat (map (dispatched d) ps), d', w') \<and>
            bs = cs @ pending w' \<and> dmx_transportError d' \<and> subscribers d' = subscribers d)))"

lemma run_result_more:
  assumes "run_result pending (calls @ dispatched d p) d' w' r" "same_service d d'"
    "pending w = wire p @ pending w'" "receivable p"
  shows "run_result pending calls d w r"
proof -
  obtain ps bs where ps: "\<forall>p \<in> set ps. receivable p" "pending w' = concat (map wire ps) @ bs"
    "(\<exists>e. r = Inl e \<and> bad_header e bs) \<or>
     (\<exists>d'' w'' cs. r = Inr ((calls @ dispatched d p) @ concat (map (dispatched d') ps), d'', w'') \<and>
        bs = cs @ pending w'' \<and> dmx_transportError d'' \<and> subscribers d'' = subscribers d')"
    using assms(1) unfolding run_result_def by blast
  have "dispatched d' = dispatched d" "subscribers d' = subscribers d"
    using assms(2) dispatched_same by (auto simp: same_service_def)
  with ps assms(3,4) show ?thesis
    unfolding run_result_def by (intro exI [of _ "p # ps"] exI [of _ bs]) auto
qed

lemma run_result_end:
  assumes "pending w = cs @ pending w'" "dmx_transportError d'" "subscribers d' = subscribers d"
  shows "run_result pending calls d w (Inr (calls, d', w'))"
  unfolding run_result_def using assms
  by (intro exI [of _ "[]"] exI [of _ "cs @ pending w'"]) auto

lemma run_result_bad: "bad_header e (pending w) \<Longrightarrow> run_result pending calls d w (Inl e)"
  unfolding run_result_def by (intro exI [of _ "[]"] exI [of _ "pending w"]) simp

lemma run_result_same:
  assumes "run_result pending calls d w' r" "pending w' = pending w"
  shows "run_result pending calls d w r"
  using assms by (simp add: run_result_def)

lemma signalTransportError_subscribers [simp]:
  "subscribers (signalTransportError d) = subscribers d" "dmx_transportError (signalTransportError d)"
  by (simp_all add: signalTransportError_def subscribers_def fun_eq_iff)

context byte_reader begin

text \<open>What a turn that completes means for the result of the turns that follow.\<close>

lemma run_result_turn:
  assumes "receiveTurn h R stop packet d w = Some (Inr (packet', new, d', w'))"
    "\<not> dmx_transportError d" "\<not> stop w"
    and rest: "run_result pending (calls @ new) d' w' r"
    "dmx_transportError d' \<Longrightarrow> r = Inr (calls @ new, signalTransportError d', w')"
  shows "run_result pending calls d w r"
proof -
  obtain go where go: "receivePacket h R stop packet 1000 d w = Some go"
    using assms(1) by (cases "receivePacket h R stop packet 1000 d w") (auto simp: receiveTurn_def)
  from go assms(2) show ?thesis
  proof (cases rule: receivePacket_cases)
    case (timeout w1)
    then have "packet' = packet" "new = []" "d' = d" "w' = w1"
      using assms(1) go receiveTurn_not_received [of h R stop packet d w packet d w1] by auto
    with rest(1) timeout(2) show ?thesis by (auto intro: run_result_same)
  next
    case (error w1 bs)
    then have "new = []" "d' = signalTransportError d" "w' = w1"
      using assms(1) go receiveTurn_not_received [of h R stop packet d w packet _ w1] by auto
    with rest(2) have "r = Inr (calls, signalTransportError d, w1)"
      by (simp add: signalTransportError_def)
    then show ?thesis
      using error(2) by (simp only:) (rule run_result_end; simp)
  next
    case (received p w1)
    then obtain d1 where d1: "receiveTurn h R stop packet d w =
        Some (Inr (ComPacket_default, dispatched d p, d1, w1))" "same_service d d1"
      using receiveTurn_received [of h R stop packet d w p d w1] go by blast
    with assms(1) rest(1) received show ?thesis
      by (auto simp: receivable_def intro: run_result_more)
  qed (use assms(1) go in \<open>auto simp: receiveTurn_def\<close>)
qed

lemma receiveTurn_fails_bad_header:
  assumes "receiveTurn h R stop packet d w = Some (Inl e)" "\<not> dmx_transportError d"
  shows "bad_header e (pending w)"
proof -
  have go: "receivePacket h R stop packet 1000 d w = Some (Inl e)"
    using assms(1) by (auto simp: receiveTurn_def outcome_eqs Let_def split: if_splits prod.splits)
  from go assms(2) show ?thesis
    by (cases rule: receivePacket_cases) (auto simp: bad_header_def)
qed

lemma receiveWhile_sound:
  assumes "receiveWhile h R stop packet calls d w = Some r"
  shows "run_result pending calls d w r"
proof -
  have "run_result pending calls d w r \<and>
      (dmx_transportError d \<longrightarrow> r = Inr (calls, signalTransportError d, w))"
    using assms
  proof (induction packet calls d w r rule: receiveWhile_induct)
    case (ends packet calls d w)
    show ?case unfolding signalTransportError_def [symmetric]
      by (intro conjI impI refl run_result_end [where cs = "[]"]) simp_all
  next
    case (fails packet calls d w e)
    then show ?case
      using receiveTurn_fails_bad_header [OF fails(3,1)] fails(1)
      by (simp add: run_result_bad [where pending = pending])
  next
    case (turn packet calls d w packet' new d' w' r)
    then show ?case using run_result_turn [OF turn(3,1,2)] by blast
  qed
  then show ?thesis by simp
qed

lemma receiveHelloMessage_sound:
  assumes "receiveHelloMessage h R stop packet ms d w = Some r" "\<not> dmx_transportError d"
  obtains (bad) e where "r = Inl e" "bad_header e (pending w)"
    | (empty) rest where "r = Inl UndefinedBehaviour" "pending w = be32 ControlPacket @ be32 0 @ rest"
    | (timeout) w' where "r = Inr (packet, d, w')" "pending w' = pending w"
        "rd_readyForReading R ms w = (False, w')"
    | (failed) packet' w' bs where "r = Inr (packet', signalTransportError d, w')" "pending w = bs @ pending w'"
    | (hello) p w' where "r = Inr (ComPacket_default, d, w')" "pending w = wire p @ pending w'" "receivable p"
        "m_type p = ControlPacket" "getControlMessage p = Inr Hello"
proof -
  obtain go where go: "receivePacket h R stop packet ms d w = Some go"
    using assms(1) by (auto simp: receiveHelloMessage_def outcome_eqs)
  from go assms(2) show thesis
  proof (cases rule: receivePacket_cases)
    case (length_error t n rest)
    with assms(1) go bad [of LengthError] show thesis
      by (auto simp: receiveHelloMessage_def bad_header_def)
  next
    case (assertion n rest)
    with assms(1) go bad [of AssertionFailed] show thesis
      by (auto simp: receiveHelloMessage_def bad_header_def)
  next
    case (timeout w')
    with assms(1) go show thesis by (intro that(3) [of w']) (simp_all add: receiveHelloMessage_def)
  next
    case (error w' bs)
    with assms(1) go show thesis by (intro failed [of packet w' bs]) (simp_all add: receiveHelloMessage_def)
  next
    case (received p w')
    have "getControlMessage p = Inl UndefinedBehaviour \<Longrightarrow> m_type p = ControlPacket \<Longrightarrow>
        pending w = be32 ControlPacket @ be32 0 @ pending w'"
      using received(2) by (auto simp: getControlMessage_def wire_def split: list.splits)
    moreover have "getControlMessage p = Inl e \<Longrightarrow> e = UndefinedBehaviour" for e
      by (auto simp: getControlMessage_def split: list.splits)
    ultimately show thesis
      using assms(1) go received that(2) failed [of _ w' "wire p"] hello [of w' p]
      by (cases "getControlMessage p") (auto simp: receiveHelloMessage_def getType_def
          ComPacket_default_def receivable_def split: if_splits)
  qed
qed

lemma receiveWhile_error:
  "dmx_transportError d \<Longrightarrow> receiveWhile h R stop packet calls d w =
     Some (Inr (calls, d\<lparr>dmx_transportError := True\<rparr>, w))"
  by (simp add: receiveWhile.simps)

lemma receiveLoop_sound:
  assumes "receiveLoop h R stop d w = Some r" "\<not> dmx_transportError d"
  shows "(\<exists>rest. r = Inl UndefinedBehaviour \<and> pending w = be32 ControlPacket @ be32 0 @ rest) \<or>
    run_result pending [] d w r"
proof -
  obtain go where go: "receiveHelloMessage h R stop ComPacket_default 2000 d w = Some go"
    using assms(1) by (auto simp: receiveLoop_def outcome_eqs)
  from go assms(2) show ?thesis
  proof (cases rule: receiveHelloMessage_sound)
    case (bad e)
    with assms(1) go show ?thesis by (auto simp: receiveLoop_def intro: run_result_bad)
  next
    case (empty rest)
    with assms(1) go show ?thesis by (auto simp: receiveLoop_def)
  next
    case (timeout w')
    with assms(1) go have "receiveWhile h R stop ComPacket_default [] d w' = Some r"
      by (simp add: receiveLoop_def)
    from receiveWhile_sound [OF this] timeout(2) show ?thesis by (auto intro: run_result_same)
  next
    case (failed packet' w' bs)
    then have "r = Inr ([], (signalTransportError d)\<lparr>dmx_transportError := True\<rparr>, w')"
      using assms(1) go by (simp add: receiveLoop_def receiveWhile_error)
    moreover have "run_result pending [] d w
        (Inr ([], (signalTransportError d)\<lparr>dmx_transportError := True\<rparr>, w'))"
      using failed(2) by (rule run_result_end)
        (simp_all add: signalTransportError_def subscribers_def fun_eq_iff)
    ultimately show ?thesis by simp
  next
    case (hello p w')
    then have "receiveWhile h R stop ComPacket_default ([] @ dispatched d p) d w' = Some r"
      using assms(1) go by (simp add: receiveLoop_def dispatched_def)
    from run_result_more [OF receiveWhile_sound [OF this] _ hello(2,3)] show ?thesis by simp
  qed
qed

text \<open>
  When bytes arrive in time, no callback is called unless the first packet is Hello.
\<close>

lemma receiveLoop_handshake:
  assumes "receiveLoop h R stop d w = Some (Inr (calls, d', w'))" "\<not> dmx_transportError d"
    "rd_readyForReading R 2000 w = (True, w0)" "calls \<noteq> []"
  shows "\<exists>p rest. pending w = wire p @ rest \<and> m_type p = ControlPacket \<and>
    getControlMessage p = Inr Hello"
proof -
  obtain go where go: "receiveHelloMessage h R stop ComPacket_default 2000 d w = Some go"
    using assms(1) by (auto simp: receiveLoop_def outcome_eqs)
  from go assms(2) show ?thesis
  proof (cases rule: receiveHelloMessage_sound)
    case (timeout w')
    with assms(3) show ?thesis by simp
  next
    case (hello p w')
    then show ?thesis by blast
  qed (use assms(1,4) go in \<open>auto simp: receiveLoop_def receiveWhile_error\<close>)
qed

end

text \<open>
  A peer that shuts the connection down makes every read return zero bytes at once. The
  loop of \<open>readBytes\<close> then only ends when the destructor sets the flag.
\<close>

lemma readBytes_spins:
  assumes "\<And>sz w n bs w'. shut w \<Longrightarrow> rd_read R sz w = (n, bs, w') \<Longrightarrow> n = 0 \<and> shut w'"
    "shut w" "0 < sz"
  shows "readBytes R (\<lambda>_. False) False sz buf False w = None"
proof -
  have False if "readBytes R (\<lambda>_. False) False sz buf err w = Some r" "\<not> err" "0 < sz" "shut w"
    for sz buf err w r
    using that
  proof (induction sz buf err w r rule: readBytes_induct)
    case (more sz buf w n bs w' r)
    with assms(1) [OF more(9,3)] show ?case by simp
  qed (use assms(1) in fastforce)+
  with assms(2,3) show ?thesis by (metis option.exhaust)
qed

lemma receiveLoop_spins:
  assumes "\<And>sz w n bs w'. shut w \<Longrightarrow> rd_read R sz w = (n, bs, w') \<Longrightarrow> n = 0 \<and> shut w'"
    "\<And>ms w b w'. shut w \<Longrightarrow> rd_readyForReading R ms w = (b, w') \<Longrightarrow> b \<and> shut w'"
    "shut w" "\<not> dmx_transportError d"
  shows "receiveLoop h R (\<lambda>_. False) d w = None"
proof -
  obtain b w' where rdy: "rd_readyForReading R 2000 w = (b, w')" by fastforce
  then have "b" "shut w'" using assms(2,3) by blast+
  then have "readBytes R (\<lambda>_. False) False 4 [] False w' = None"
    using readBytes_spins [of shut R w' 4] assms(1) by simp
  then show ?thesis
    using rdy \<open>b\<close> assms(4)
    by (simp add: receiveLoop_def receiveHelloMessage_def receivePacket_def readUint32_def)
qed

end
