(* ===== verification/Subscriptions.thy ===== *)
theory Subscriptions
  imports ReceiveLoop "HOL-Library.Multiset"
begin

text \<open>
  Subscribing to a demuxer (\<open>subscribe\<close>, \<open>unsubscribe\<close> and \<open>isSubscribed\<close> of PacketDemuxer.cpp,
  PacketSubscriber.cpp) and the objects that own a subscription (PacketSubscription.h,
  PacketSubscription.cpp): the subscribers of a demuxer are those that live subscription
  objects hold.
\<close>

section \<open>The operations of the demuxer\<close>

text \<open>
  A subscriber is made by \<open>subscribe\<close> only, its constructor being protected. \<open>a\<close> is the address
  at which it is allocated.
\<close>

definition PacketSubscriber_ctor :: "nat \<Rightarrow> u32 \<Rightarrow> 'cb \<Rightarrow> 'cb packet_subscriber" where
  "PacketSubscriber_ctor a type callback =
     \<lparr>sub_addr = a, sub_type = type, sub_callback = callback\<rparr>"

definition subscribe ::
    "nat \<Rightarrow> string \<Rightarrow> 'cb \<Rightarrow> 'cb demuxer \<Rightarrow> ('cb packet_subscriber \<times> 'cb demuxer) outcome" where
  "subscribe a typeName callback d =
     bind_outcome (toId (dmx_packetIds d) typeName) (\<lambda>type.
       let s = PacketSubscriber_ctor a type callback
       in Inr (s, set_subscribers type (subscribers d type @ [s]) d))"

text \<open>
  \<open>remove_if\<close> moves the subscribers that stay to the front and returns where they end;
  \<open>erase\<close> then removes one element there. If several matched, the others would stay with
  unspecified values: that case is an error value of the model.
\<close>

definition unsubscribe :: "'cb packet_subscriber \<Rightarrow> 'cb demuxer \<Rightarrow> 'cb demuxer outcome" where
  "unsubscribe pSubscriber d =
     bind_outcome (toString (dmx_packetIds d) (sub_type pSubscriber)) (\<lambda>_.
       let queue = subscribers d (sub_type pSubscriber);
           kept = filter (\<lambda>s. sub_addr s \<noteq> sub_addr pSubscriber) queue;
           itr = length kept
       in if itr = length queue then Inl AssertionFailed
          else if itr + 1 < length queue then Inl UndefinedBehaviour
          else Inr (set_subscribers (sub_type pSubscriber) kept d))"

definition isSubscribed :: "'cb packet_subscriber \<Rightarrow> 'cb demuxer \<Rightarrow> bool" where
  "isSubscribed pSubscriber d =
     (case dmx_subscribers d (sub_type pSubscriber) of
        None \<Rightarrow> False
      | Some queue \<Rightarrow> \<exists>s \<in> set queue. sub_addr s = sub_addr pSubscriber)"

text \<open>The two calls of a subscriber to the demuxer that made it.\<close>

definition PacketSubscriber_unsubscribe :: "'cb packet_subscriber \<Rightarrow> 'cb demuxer \<Rightarrow> 'cb demuxer outcome" where
  "PacketSubscriber_unsubscribe this comms = unsubscribe this comms"

definition PacketSubscriber_isSubscribed :: "'cb packet_subscriber \<Rightarrow> 'cb demuxer \<Rightarrow> bool" where
  "PacketSubscriber_isSubscribed this comms = isSubscribed this comms"

lemmas subscriber_defs [simp] = PacketSubscriber_ctor_def PacketSubscriber_unsubscribe_def PacketSubscriber_isSubscribed_def

text \<open>The warnings printed by the destructor, for the types in the order of the map.\<close>

fun warnAboutSubscribers :: "u32 list \<Rightarrow> 'cb demuxer \<Rightarrow> (nat \<times> string) list outcome" where
  "warnAboutSubscribers [] d = Inr []"
| "warnAboutSubscribers (t # ts) d =
     (let n = length (subscribers d t)
      in if 0 < n then
           bind_outcome (toString (dmx_packetIds d) t) (\<lambda>name.
             bind_outcome (warnAboutSubscribers ts d) (\<lambda>ws. Inr ((n, name) # ws)))
         else warnAboutSubscribers ts d)"

section \<open>Subscription objects\<close>

text \<open>A subscription wraps a shared pointer, which may be null.\<close>

type_synonym 'cb packet_subscription = "'cb packet_subscriber option"

definition PacketSubscription_default :: "'cb packet_subscription" where
  "PacketSubscription_default = None"

definition PacketSubscription_ctor :: "'cb packet_subscriber \<Rightarrow> 'cb packet_subscription" where
  "PacketSubscription_ctor s = Some s"

text \<open>Both move operations swap the pointers; the second result is the object moved from.\<close>

definition PacketSubscription_move ::
    "'cb packet_subscription \<Rightarrow> 'cb packet_subscription \<times> 'cb packet_subscription" where
  "PacketSubscription_move toMove = (toMove, PacketSubscription_default)"

definition PacketSubscription_assign ::
    "'cb packet_subscription \<Rightarrow> 'cb packet_subscription \<Rightarrow>
      'cb packet_subscription \<times> 'cb packet_subscription" where
  "PacketSubscription_assign this toMove = (toMove, this)"

text \<open>
  The subscription objects of a program, by the name of the object. Shared pointers to a
  subscriber are in these objects and in the queue of the subscriber's type.
\<close>

type_synonym 'cb handles = "(nat \<times> 'cb packet_subscription) list"

fun held :: "'cb handles \<Rightarrow> 'cb packet_subscriber list" where
  "held [] = []"
| "held ((_, None) # hs) = held hs"
| "held ((_, Some s) # hs) = s # held hs"

definition use_count :: "'cb handles \<Rightarrow> 'cb demuxer \<Rightarrow> 'cb packet_subscriber \<Rightarrow> nat" where
  "use_count hs d s =
     length (filter (\<lambda>s'. sub_addr s' = sub_addr s) (held hs)) +
     length (filter (\<lambda>s'. sub_addr s' = sub_addr s) (subscribers d (sub_type s)))"

definition PacketSubscription_dtor ::
    "'cb handles \<Rightarrow> 'cb packet_subscription \<Rightarrow> 'cb demuxer \<Rightarrow> 'cb demuxer outcome" where
  "PacketSubscription_dtor hs h d =
     (case h of
        None \<Rightarrow> Inr d
      | Some s \<Rightarrow> if 1 < use_count hs d s then PacketSubscriber_unsubscribe s d else Inr d)"

text \<open>A null pointer is dereferenced without a check.\<close>

definition PacketSubscription_isSubscribed ::
    "'cb packet_subscription \<Rightarrow> 'cb demuxer \<Rightarrow> bool outcome" where
  "PacketSubscription_isSubscribed h d =
     (case h of None \<Rightarrow> Inl UndefinedBehaviour | Some s \<Rightarrow> Inr (PacketSubscriber_isSubscribed s d))"

section \<open>A program that uses subscriptions\<close>

record 'cb client =
  cl_demuxer :: "'cb demuxer"
  cl_handles :: "'cb handles"

definition set_handle :: "nat \<Rightarrow> 'cb packet_subscription \<Rightarrow> 'cb handles \<Rightarrow> 'cb handles" where
  "set_handle x h = map (\<lambda>(y, h'). (y, if y = x then h else h'))"

definition drop_handle :: "nat \<Rightarrow> 'cb handles \<Rightarrow> 'cb handles" where
  "drop_handle x = filter (\<lambda>(y, _). y \<noteq> x)"

text \<open>
  The steps of the program; those that end the process have an error as their result. The allocator does not return the address of a live object.
\<close>

inductive client_step :: "'cb client \<Rightarrow> 'cb client outcome \<Rightarrow> bool" where
  subscribes: "x \<notin> fst ` set (cl_handles c) \<Longrightarrow> a \<notin> sub_addr ` set (held (cl_handles c)) \<Longrightarrow>
    subscribe a name cb (cl_demuxer c) = Inr (s, d') \<Longrightarrow>
    client_step c (Inr (c\<lparr>cl_demuxer := d',
      cl_handles := (x, PacketSubscription_ctor s) # cl_handles c\<rparr>))"
| default: "x \<notin> fst ` set (cl_handles c) \<Longrightarrow>
    client_step c (Inr (c\<lparr>cl_handles := (x, PacketSubscription_default) # cl_handles c\<rparr>))"
| moves: "x \<notin> fst ` set (cl_handles c) \<Longrightarrow> map_of (cl_handles c) y = Some h \<Longrightarrow>
    PacketSubscription_move h = (new, old) \<Longrightarrow>
    client_step c (Inr (c\<lparr>cl_handles := (x, new) # set_handle y old (cl_handles c)\<rparr>))"
| assigns: "map_of (cl_handles c) x = Some g \<Longrightarrow> map_of (cl_handles c) y = Some h \<Longrightarrow> x \<noteq> y \<Longrightarrow>
    PacketSubscription_assign g h = (this, old) \<Longrightarrow>
    client_step c (Inr (c\<lparr>cl_handles := set_handle x this (set_handle y old (cl_handles c))\<rparr>))"
| destroys: "map_of (cl_handles c) x = Some h \<Longrightarrow>
    PacketSubscription_dtor (cl_handles c) h (cl_demuxer c) = Inr d' \<Longrightarrow>
    client_step c (Inr (c\<lparr>cl_demuxer := d', cl_handles := drop_handle x (cl_handles c)\<rparr>))"
| destroy_fails: "map_of (cl_handles c) x = Some h \<Longrightarrow>
    PacketSubscription_dtor (cl_handles c) h (cl_demuxer c) = Inl e \<Longrightarrow> client_step c (Inl e)"

inductive_cases client_step_fails: "client_step c (Inl e)"

section \<open>The contract of the demuxer\<close>

text \<open>
  A demuxer whose queues hold distinct subscribers of their types, and only types that the
  table of identifiers knows.
\<close>

definition queue_ok :: "id_manager \<Rightarrow> u32 \<Rightarrow> 'cb packet_subscriber list \<Rightarrow> bool" where
  "queue_ok ids t q \<longleftrightarrow> distinct (map sub_addr q) \<and>
     (\<forall>s \<in> set q. sub_type s = t \<and> unat t < length (m_reverse ids))"

definition registry_wf :: "'cb demuxer \<Rightarrow> bool" where
  "registry_wf d \<longleftrightarrow> ids_valid (dmx_packetIds d) \<and>
     (\<forall>t. queue_ok (dmx_packetIds d) t (subscribers d t))"

definition registered :: "'cb demuxer \<Rightarrow> u32 \<Rightarrow> 'cb packet_subscriber multiset" where
  "registered d t = mset (subscribers d t)"

lemma subscribers_set [simp]:
  "subscribers (set_subscribers t q d) = (subscribers d)(t := q)"
  "dmx_packetIds (set_subscribers t q d) = dmx_packetIds d"
  by (auto simp: subscribers_def set_subscribers_def fun_eq_iff)

lemma registry_queue: "registry_wf d \<Longrightarrow> queue_ok (dmx_packetIds d) t (subscribers d t)"
  by (simp add: registry_wf_def)

lemma registry_wf_set:
  "registry_wf d \<Longrightarrow> queue_ok (dmx_packetIds d) t q \<Longrightarrow> registry_wf (set_subscribers t q d)"
  by (simp add: registry_wf_def)

lemma queue_ok_filter: "queue_ok ids t q \<Longrightarrow> queue_ok ids t (filter P q)"
  by (auto simp: queue_ok_def distinct_map_filter)

lemma queue_ok_type: "queue_ok ids t q \<Longrightarrow> s \<in> set q \<Longrightarrow> sub_type s = t"
  by (simp add: queue_ok_def)

lemma filter_addr:
  assumes "distinct (map sub_addr q)" "s \<in> set q"
  shows "mset (filter (\<lambda>s'. sub_addr s' \<noteq> sub_addr s) q) = mset q - {#s#}"
    and "length (filter (\<lambda>s'. sub_addr s' \<noteq> sub_addr s) q) + 1 = length q"
proof -
  obtain xs ys where q: "q = xs @ s # ys" using assms(2) by (meson split_list)
  then have "filter (\<lambda>s'. sub_addr s' \<noteq> sub_addr s) xs = xs"
    "filter (\<lambda>s'. sub_addr s' \<noteq> sub_addr s) ys = ys"
    using assms(1) by (auto simp: filter_id_conv) (metis image_eqI)+
  then show "mset (filter (\<lambda>s'. sub_addr s' \<noteq> sub_addr s) q) = mset q - {#s#}"
    "length (filter (\<lambda>s'. sub_addr s' \<noteq> sub_addr s) q) + 1 = length q"
    by (simp_all add: q)
qed

lemma registered_in: "s \<in># registered d t \<longleftrightarrow> s \<in> set (subscribers d t)"
  by (simp add: registered_def)

lemma unsubscribe_registered:
  assumes "registry_wf d" "s \<in># registered d (sub_type s)"
  shows "\<exists>d'. unsubscribe s d = Inr d' \<and> registry_wf d' \<and> dmx_packetIds d' = dmx_packetIds d \<and>
    registered d' = (registered d)(sub_type s := registered d (sub_type s) - {#s#})"
proof -
  let ?t = "sub_type s" let ?kept = "filter (\<lambda>s'. sub_addr s' \<noteq> sub_addr s) (subscribers d ?t)"
  have s: "s \<in> set (subscribers d ?t)" using assms(2) by (simp add: registered_in)
  have wf: "distinct (map sub_addr (subscribers d ?t))" "unat ?t < length (m_reverse (dmx_packetIds d))"
    using registry_queue [OF assms(1)] s unfolding queue_ok_def by blast+
  let ?d' = "set_subscribers ?t ?kept d"
  have "unsubscribe s d = Inr ?d'"
    using filter_addr(2) [OF wf(1) s] wf(2) by (simp add: unsubscribe_def toString_def Let_def)
  moreover have "registry_wf ?d'"
    by (intro registry_wf_set queue_ok_filter registry_queue assms(1))
  moreover have "registered ?d' = (registered d)(?t := registered d ?t - {#s#})"
    using filter_addr(1) [OF wf(1) s] by (auto simp: registered_def fun_eq_iff)
  ultimately show ?thesis by auto
qed

lemma isSubscribed_registered:
  assumes "registry_wf d" "s \<in># registered d (sub_type s)"
  shows "isSubscribed s d"
  using assms(2) by (cases "dmx_subscribers d (sub_type s)")
    (auto simp: registered_def isSubscribed_def subscribers_def)

lemma subscribe_registered:
  assumes "registry_wf d" "subscribe a name cb d = Inr (s, d')"
    "\<forall>t. \<forall>s \<in># registered d t. sub_addr s \<noteq> a"
  shows "registry_wf d'" "dmx_packetIds d' = dmx_packetIds d"
    "registered d' = (registered d)(sub_type s := add_mset s (registered d (sub_type s)))"
    "sub_addr s = a" "sub_callback s = cb" "toId (dmx_packetIds d) name = Inr (sub_type s)"
    "toString (dmx_packetIds d) (sub_type s) = Inr name"
proof -
  obtain t where t: "toId (dmx_packetIds d) name = Inr t"
    "s = \<lparr>sub_addr = a, sub_type = t, sub_callback = cb\<rparr>"
    "d' = set_subscribers t (subscribers d t @ [s]) d"
    using assms(2) by (auto simp: subscribe_def outcome_eqs Let_def)
  have "ids_valid (dmx_packetIds d)" using assms(1) by (simp add: registry_wf_def)
  from table.to_string_to_id [OF this t(1)]
  show str: "toString (dmx_packetIds d) (sub_type s) = Inr name" by (simp add: t(2))
  then have "unat t < length (m_reverse (dmx_packetIds d))"
    by (simp add: toString_def t(2) split: if_splits)
  with registry_queue [OF assms(1), of t] have "queue_ok (dmx_packetIds d) t (subscribers d t @ [s])"
    using assms(3) by (auto simp: queue_ok_def registered_def t(2))
  with assms(1) show "registry_wf d'" by (simp add: t(3) registry_wf_set)
  show "registered d' = (registered d)(sub_type s := add_mset s (registered d (sub_type s)))"
    by (auto simp: registered_def t(2,3) fun_eq_iff)
qed (use assms(2) in \<open>auto simp: subscribe_def outcome_eqs Let_def\<close>)

text \<open>
  What the owners of subscriptions rely on: a registered subscriber can be removed, and then
  it is gone and nothing else is.
\<close>

locale subscriber_registry =
  fixes valid :: "'d \<Rightarrow> bool"
    and entries :: "'d \<Rightarrow> 't \<Rightarrow> 's multiset"
    and kind :: "'s \<Rightarrow> 't"
    and remove :: "'s \<Rightarrow> 'd \<Rightarrow> 'd outcome"
    and is_entry :: "'s \<Rightarrow> 'd \<Rightarrow> bool"
  assumes remove_entry: "valid d \<Longrightarrow> s \<in># entries d (kind s) \<Longrightarrow> \<exists>d'. remove s d = Inr d' \<and> valid d' \<and>
      entries d' = (entries d)(kind s := entries d (kind s) - {#s#})"
    and is_entry: "valid d \<Longrightarrow> s \<in># entries d (kind s) \<Longrightarrow> is_entry s d"
begin

text \<open>Removing in any order all the subscribers that are registered leaves none.\<close>

primrec remove_all :: "'s list \<Rightarrow> 'd \<Rightarrow> 'd outcome" where
  "remove_all [] d = Inr d"
| "remove_all (s # ss) d = bind_outcome (remove s d) (remove_all ss)"

lemma remove_all_entries:
  assumes "valid d" "\<forall>t. entries d t = filter_mset (\<lambda>s. kind s = t) (mset ss)"
  shows "\<exists>d'. remove_all ss d = Inr d' \<and> valid d' \<and> (\<forall>t. entries d' t = {#})"
  using assms
proof (induction ss arbitrary: d)
  case (Cons s ss)
  then have "s \<in># entries d (kind s)" by simp
  from remove_entry [OF Cons.prems(1) this] obtain d1 where d1: "remove s d = Inr d1" "valid d1"
    "entries d1 = (entries d)(kind s := entries d (kind s) - {#s#})"
    by blast
  with Cons.prems(2) have "\<forall>t. entries d1 t = filter_mset (\<lambda>s. kind s = t) (mset ss)" by simp
  from Cons.IH [OF d1(2) this] d1(1) show ?case by simp
qed simp

end

interpretation demuxer_registry: subscriber_registry registry_wf registered sub_type unsubscribe isSubscribed
  using unsubscribe_registered isSubscribed_registered by unfold_locales blast+

section \<open>The subscribers are those that live objects hold\<close>

definition client_inv :: "'cb client \<Rightarrow> bool" where
  "client_inv c \<longleftrightarrow> registry_wf (cl_demuxer c) \<and> distinct (map fst (cl_handles c)) \<and>
     distinct (map sub_addr (held (cl_handles c))) \<and>
     (\<forall>t. registered (cl_demuxer c) t = filter_mset (\<lambda>s. sub_type s = t) (mset (held (cl_handles c))))"

definition holds :: "'cb packet_subscription \<Rightarrow> 'cb packet_subscriber multiset" where
  "holds h = (case h of None \<Rightarrow> {#} | Some s \<Rightarrow> {#s#})"

lemma holds_simps [simp]: "holds None = {#}" "holds (Some s) = {#s#}"
  by (simp_all add: holds_def)

lemma mset_held: "mset (held ((x, h) # hs)) = holds h + mset (held hs)"
  by (cases h) simp_all

lemma set_handle_simps [simp]:
  "set_handle x h [] = []"
  "set_handle x h ((y, g) # hs) = (y, if y = x then h else g) # set_handle x h hs"
  "map fst (set_handle x h hs) = map fst hs" "fst ` set (set_handle x h hs) = fst ` set hs"
  by (force simp: set_handle_def)+

lemma drop_handle_simps [simp]:
  "drop_handle x [] = []"
  "drop_handle x ((y, g) # hs) = (if y = x then drop_handle x hs else (y, g) # drop_handle x hs)"
  by (simp_all add: drop_handle_def)

lemma set_handle_other [simp]: "x \<notin> fst ` set hs \<Longrightarrow> set_handle x h hs = hs"
  by (induction hs) auto

lemma drop_handle_other [simp]: "x \<notin> fst ` set hs \<Longrightarrow> drop_handle x hs = hs"
  by (induction hs) auto

lemma held_set_handle:
  "distinct (map fst hs) \<Longrightarrow> map_of hs x = Some g \<Longrightarrow>
    mset (held (set_handle x h hs)) + holds g = mset (held hs) + holds h"
  by (induction hs) (auto simp: mset_held split: if_splits)

lemma held_drop_handle:
  "distinct (map fst hs) \<Longrightarrow> map_of hs x = Some g \<Longrightarrow>
    mset (held (drop_handle x hs)) + holds g = mset (held hs)"
  by (induction hs) (auto simp: mset_held split: if_splits)

lemma distinct_mset_eq: "mset xs = mset ys \<Longrightarrow> distinct (map f xs) = distinct (map f ys)"
  by (rule mset_eq_imp_distinct_iff) simp

lemma client_inv_mset:
  assumes "client_inv c" "mset (held hs) = mset (held (cl_handles c))" "distinct (map fst hs)"
  shows "client_inv (c\<lparr>cl_handles := hs\<rparr>)"
  using assms distinct_mset_eq [OF assms(2), of sub_addr] by (simp add: client_inv_def)

lemma distinct_drop_handle: "distinct (map fst hs) \<Longrightarrow> distinct (map fst (drop_handle x hs))"
  by (simp add: drop_handle_def distinct_map_filter)

lemma held_in: "map_of hs x = Some (Some s) \<Longrightarrow> s \<in> set (held hs)"
  by (induction hs rule: held.induct) (auto split: if_splits)

lemma live_registered:
  assumes "client_inv c" "s \<in> set (held (cl_handles c))"
  shows "s \<in># registered (cl_demuxer c) (sub_type s)"
  using assms by (simp add: client_inv_def)

text \<open>The destructor of a live object finds its subscriber registered.\<close>

lemma live_use_count:
  assumes "client_inv c" "s \<in> set (held (cl_handles c))"
  shows "use_count (cl_handles c) (cl_demuxer c) s = 2"
proof -
  have one: "length (filter (\<lambda>s'. sub_addr s' = sub_addr s) q) = 1"
    if q: "distinct (map sub_addr q)" "s \<in> set q" for q
    using filter_addr(2) [OF q] sum_length_filter_compl [of "\<lambda>s'. sub_addr s' = sub_addr s" q] by simp
  have "s \<in> set (subscribers (cl_demuxer c) (sub_type s))"
    using live_registered [OF assms] by (simp add: registered_in)
  moreover have "registry_wf (cl_demuxer c)" "distinct (map sub_addr (held (cl_handles c)))"
    using assms(1) by (simp_all add: client_inv_def)
  moreover from this(1) have "distinct (map sub_addr (subscribers (cl_demuxer c) (sub_type s)))"
    using registry_queue unfolding queue_ok_def by blast
  ultimately show ?thesis
    using assms(2) one by (simp add: use_count_def)
qed

lemma dtor_live:
  assumes "client_inv c" "map_of (cl_handles c) x = Some h"
  shows "\<exists>d'. PacketSubscription_dtor (cl_handles c) h (cl_demuxer c) = Inr d' \<and>
    client_inv (c\<lparr>cl_demuxer := d', cl_handles := drop_handle x (cl_handles c)\<rparr>)"
proof (cases h)
  case None
  have "distinct (map fst (cl_handles c))" using assms(1) by (simp add: client_inv_def)
  then show ?thesis
    using held_drop_handle [OF _ assms(2)] None distinct_drop_handle [of "cl_handles c" x]
      client_inv_mset [OF assms(1), of "drop_handle x (cl_handles c)"]
    by (simp add: PacketSubscription_dtor_def)
next
  case (Some s)
  have inv: "registry_wf (cl_demuxer c)" "distinct (map fst (cl_handles c))"
    "distinct (map sub_addr (held (cl_handles c)))"
    "\<And>t. registered (cl_demuxer c) t = filter_mset (\<lambda>s. sub_type s = t) (mset (held (cl_handles c)))"
    using assms(1) by (simp_all add: client_inv_def)
  have s: "s \<in> set (held (cl_handles c))" using assms(2) Some held_in by simp
  obtain d' where d': "unsubscribe s (cl_demuxer c) = Inr d'" "registry_wf d'"
    "registered d' = (registered (cl_demuxer c))(sub_type s := registered (cl_demuxer c) (sub_type s) - {#s#})"
    using demuxer_registry.remove_entry [OF inv(1) live_registered [OF assms(1) s]] by blast
  have rest: "mset (held (cl_handles c)) = add_mset s (mset (held (drop_handle x (cl_handles c))))"
    using held_drop_handle [OF inv(2) assms(2)] Some by simp
  then have "mset (map sub_addr (held (cl_handles c))) =
      add_mset (sub_addr s) (mset (map sub_addr (held (drop_handle x (cl_handles c)))))"
    by simp
  then have "distinct (sub_addr s # map sub_addr (held (drop_handle x (cl_handles c))))"
    using inv(3) by (metis mset.simps(2) mset_eq_imp_distinct_iff)
  then have "client_inv (c\<lparr>cl_demuxer := d', cl_handles := drop_handle x (cl_handles c)\<rparr>)"
    using d'(2,3) inv(4) rest distinct_drop_handle [OF inv(2)] by (simp add: client_inv_def)
  then show ?thesis
    using d'(1) Some live_use_count [OF assms(1) s] by (simp add: PacketSubscription_dtor_def)
qed

text \<open>What changes neither the subscribers nor the table of identifiers keeps the invariant.\<close>

lemma client_inv_cong:
  assumes "client_inv c" "subscribers d' = subscribers (cl_demuxer c)"
    "dmx_packetIds d' = dmx_packetIds (cl_demuxer c)"
  shows "client_inv (c\<lparr>cl_demuxer := d'\<rparr>)"
  using assms by (simp add: client_inv_def registered_def registry_wf_def)

lemma postPacket_service:
  assumes "postPacket p d = (calls, d')"
  shows "same_service d d'" and "m_type p \<noteq> ControlPacket \<Longrightarrow> calls = dispatched d p"
  using assms set_subscribers_same [of d "m_type p"]
  by (auto simp: postPacket_def dispatched_def getType_def Let_def)

lemma map_of_set_handle: "x \<noteq> y \<Longrightarrow> map_of (set_handle y h hs) x = map_of hs x"
  by (induction hs) auto

lemma client_step_inv:
  assumes "client_step c r" "client_inv c"
  shows "\<exists>c'. r = Inr c' \<and> client_inv c'"
  using assms
proof (induction rule: client_step.induct)
  case (subscribes x c a name cb s d')
  have inv: "registry_wf (cl_demuxer c)"
    "\<And>t. registered (cl_demuxer c) t = filter_mset (\<lambda>s. sub_type s = t) (mset (held (cl_handles c)))"
    using subscribes.prems by (simp_all add: client_inv_def)
  have "\<forall>t. \<forall>s \<in># registered (cl_demuxer c) t. sub_addr s \<noteq> a"
    using subscribes.hyps(2) by (auto simp: inv(2))
  note d' = subscribe_registered [OF inv(1) subscribes.hyps(3) this]
  have "client_inv (c\<lparr>cl_demuxer := d', cl_handles := (x, PacketSubscription_ctor s) # cl_handles c\<rparr>)"
    using subscribes.prems subscribes.hyps(1,2) d'(1,3,4)
    by (simp add: client_inv_def PacketSubscription_ctor_def)
  then show ?case by blast
next
  case (default x c)
  then have "client_inv (c\<lparr>cl_handles := (x, PacketSubscription_default) # cl_handles c\<rparr>)"
    by (intro client_inv_mset) (auto simp: PacketSubscription_default_def client_inv_def)
  then show ?case by blast
next
  case (moves x c y h new old)
  then have *: "distinct (map fst (cl_handles c))" "new = h" "old = None"
    by (auto simp: client_inv_def PacketSubscription_move_def PacketSubscription_default_def)
  have "mset (held ((x, new) # set_handle y old (cl_handles c))) = mset (held (cl_handles c))"
    using held_set_handle [OF *(1) moves.hyps(2), of None] *(2,3) by (simp add: mset_held add.commute)
  from client_inv_mset [OF moves.prems this] moves.hyps(1) *(1) show ?case by simp
next
  case (assigns c x g y h this old)
  then have *: "distinct (map fst (cl_handles c))" "this = h" "old = g"
    by (auto simp: client_inv_def PacketSubscription_assign_def)
  let ?hs = "set_handle y old (cl_handles c)"
  have "map_of ?hs x = Some g"
    using assigns.hyps(1,3) by (simp add: map_of_set_handle)
  then have "mset (held (set_handle x this ?hs)) = mset (held (cl_handles c))"
    using held_set_handle [of ?hs x g this] held_set_handle [OF *(1) assigns.hyps(2), of old] *
    by (simp add: add.commute)
  from client_inv_mset [OF assigns.prems this] *(1) show ?case by simp
next
  case (destroys c x h d')
  then show ?case using dtor_live [OF destroys.prems destroys.hyps(1)] by auto
next
  case (destroy_fails c x h e)
  then show ?case using dtor_live [OF destroy_fails.prems destroy_fails.hyps(1)] by auto
qed

text \<open>A demuxer as its constructor makes it has no subscribers.\<close>

lemma ctor_registry:
  assumes "PacketDemuxer_ctor names = Inr d" "length names + 2 \<le> 2 ^ 32"
  shows "registry_wf d" and "subscribers d t = []" and "\<not> dmx_transportError d"
proof -
  obtain ids where ids: "IdManager_ctor names = Inr ids"
    and d: "d = \<lparr>dmx_packetIds = ids, dmx_subscribers = Map.empty, dmx_transportError = False\<rparr>"
    using assms(1) by (auto simp: PacketDemuxer_ctor_def outcome_eqs)
  have "ids_valid ids" using IdManager_ctor_wf [OF ids] assms(2) by (simp add: ids_valid_def)
  then show "registry_wf d" "subscribers d t = []" "\<not> dmx_transportError d"
    by (simp_all add: d registry_wf_def queue_ok_def subscribers_def)
qed

lemma client_inv_start:
  assumes "PacketDemuxer_ctor names = Inr d" "length names + 2 \<le> 2 ^ 32"
  shows "client_inv \<lparr>cl_demuxer = d, cl_handles = []\<rparr>"
  using ctor_registry [OF assms] by (simp add: client_inv_def registered_def)

text \<open>
  A live object that holds a subscriber reports that it is subscribed, and the callbacks
  made for a packet are those of the live objects of its type.
\<close>

lemma live_isSubscribed:
  assumes "client_inv c" "map_of (cl_handles c) x = Some (Some s)"
  shows "PacketSubscription_isSubscribed (Some s) (cl_demuxer c) = Inr True"
proof -
  have "s \<in># registered (cl_demuxer c) (sub_type s)"
    using live_registered assms held_in by blast
  moreover have "registry_wf (cl_demuxer c)" using assms(1) by (simp add: client_inv_def)
  ultimately show ?thesis
    using demuxer_registry.is_entry by (simp add: PacketSubscription_isSubscribed_def)
qed

lemma live_dispatched:
  assumes "client_inv c" "m_type p \<noteq> ControlPacket"
  shows "mset (dispatched (cl_demuxer c) p) =
    {#(sub_callback s, p). s \<in># filter_mset (\<lambda>s. sub_type s = m_type p) (mset (held (cl_handles c)))#}"
proof -
  have "mset (subscribers (cl_demuxer c) (m_type p)) =
      filter_mset (\<lambda>s. sub_type s = m_type p) (mset (held (cl_handles c)))"
    using assms(1) by (simp add: client_inv_def registered_def)
  then show ?thesis using assms(2) by (simp add: dispatched_def del: mset_filter)
qed

lemma no_warnings:
  "\<forall>t. subscribers d t = [] \<Longrightarrow> warnAboutSubscribers ts d = Inr []"
  by (induction ts) simp_all

end
