(* ===== verification/DemuxerThreads.thy ===== *)
theory DemuxerThreads
  imports Subscriptions
begin

text \<open>
  The threads of a demuxer (PacketDemuxer.cpp: constructor, destructor, \<open>receiveLoop\<close>): the
  receive thread, the program that subscribes and unsubscribes, and the destructor. The
  subscribers are only changed, and callbacks are only called, under the mutex
  \<open>m_subscriberLock\<close>; a call of \<open>receivePacket\<close> touches nothing that other threads use except
  the error flag, so it is one step.
\<close>

section \<open>The state and the steps\<close>

text \<open>
  Where the receive thread is: before the handshake, at the head of the loop, with a packet to
  dispatch, returned, or ended with the process by an exception or a failed assertion.
\<close>

datatype receive_pc = R_Handshake | R_Loop | R_Dispatch | R_Exited | R_Aborted

text \<open>
  Where the destructor is: not called, entered, so that it may set the error flag at any moment,
  after setting it, after printing the warnings, or past joining the receive thread.
\<close>

datatype dtor_pc = D_None | D_Entered | D_Signalled | D_Warned | D_Joined

text \<open>
  \<open>rs_taken\<close>, \<open>rs_calls\<close> and \<open>rs_warnings\<close> are history variables: the packets that were read,
  that of the handshake included, the calls of callbacks, and what the destructor printed.
\<close>

record ('cb, 'w) receive_system =
  rs_client :: "'cb client"
  rs_world :: 'w
  rs_pc :: receive_pc
  rs_packet :: com_packet
  rs_constructed :: bool
  rs_dtor :: dtor_pc
  rs_taken :: "com_packet list"
  rs_calls :: "('cb \<times> com_packet) list"
  rs_warnings :: "(nat \<times> string) list"

definition rs_demuxer :: "('cb, 'w, 'z) receive_system_scheme \<Rightarrow> 'cb demuxer" where
  "rs_demuxer s = cl_demuxer (rs_client s)"

definition with_demuxer :: "'cb demuxer \<Rightarrow> ('cb, 'w, 'z) receive_system_scheme \<Rightarrow> ('cb, 'w, 'z) receive_system_scheme" where
  "with_demuxer d s = s\<lparr>rs_client := (rs_client s)\<lparr>cl_demuxer := d\<rparr>\<rparr>"

text \<open>
  The thread starts in the initialiser list; the body of the constructor then switches the
  transport to non-blocking mode. The program has the demuxer from the end of the constructor on.
\<close>

definition start_receiving :: "'cb demuxer \<Rightarrow> 'w \<Rightarrow> ('cb, 'w) receive_system" where
  "start_receiving d w =
     \<lparr>rs_client = \<lparr>cl_demuxer = d, cl_handles = []\<rparr>, rs_world = w, rs_pc = R_Handshake,
      rs_packet = ComPacket_default, rs_constructed = False, rs_dtor = D_None,
      rs_taken = [], rs_calls = [], rs_warnings = []\<rparr>"

text \<open>
  \<open>stop\<close> is where a call of the receive thread finds the error flag set by the destructor: nowhere
  unless the destructor runs.
\<close>

definition may_stop :: "('cb, 'w) receive_system \<Rightarrow> ('w \<Rightarrow> bool) \<Rightarrow> bool" where
  "may_stop s stop \<longleftrightarrow> rs_dtor s \<noteq> D_None \<or> stop = (\<lambda>_. False)"

text \<open>
  The destructor. \<open>ts\<close> are the types in the order of the map; an exception thrown in a destructor
  ends the process.
\<close>

inductive dtor_step ::
    "('cb, 'w, 'z) receive_system_scheme \<Rightarrow> ('cb, 'w, 'z) receive_system_scheme \<Rightarrow> bool" where
  signals: "rs_dtor s = D_Entered \<Longrightarrow>
    dtor_step s (with_demuxer (signalTransportError (rs_demuxer s)) (s\<lparr>rs_dtor := D_Signalled\<rparr>))"
| warns: "rs_dtor s = D_Signalled \<Longrightarrow> set ts = dom (dmx_subscribers (rs_demuxer s)) \<Longrightarrow> distinct ts \<Longrightarrow>
    warnAboutSubscribers ts (rs_demuxer s) = Inr ws \<Longrightarrow>
    dtor_step s (s\<lparr>rs_dtor := D_Warned, rs_warnings := ws\<rparr>)"
| warn_throws: "rs_dtor s = D_Signalled \<Longrightarrow> set ts = dom (dmx_subscribers (rs_demuxer s)) \<Longrightarrow> distinct ts \<Longrightarrow>
    warnAboutSubscribers ts (rs_demuxer s) = Inl e \<Longrightarrow> dtor_step s (s\<lparr>rs_pc := R_Aborted\<rparr>)"
| joins: "rs_dtor s = D_Warned \<Longrightarrow> rs_pc s = R_Exited \<Longrightarrow> dtor_step s (s\<lparr>rs_dtor := D_Joined\<rparr>)"

inductive receive_step ::
    "host_order \<Rightarrow> 'w abstract_reader \<Rightarrow> ('cb, 'w) receive_system \<Rightarrow> ('cb, 'w) receive_system \<Rightarrow> bool"
  for h :: host_order and R :: "'w abstract_reader" where
  construction: "\<not> rs_constructed s \<Longrightarrow>
    receive_step h R s (s\<lparr>rs_world := rd_setBlocking R False (rs_world s), rs_constructed := True\<rparr>)"
| handshake: "rs_pc s = R_Handshake \<Longrightarrow> may_stop s stop \<Longrightarrow>
    receivePacket h R stop (rs_packet s) 2000 (rs_demuxer s) (rs_world s) = Some (Inr (got, p, d1, w1)) \<Longrightarrow>
    receiveHelloMessage h R stop (rs_packet s) 2000 (rs_demuxer s) (rs_world s) = Some (Inr (packet', d', w')) \<Longrightarrow>
    receive_step h R s (with_demuxer d' (s\<lparr>rs_pc := R_Loop, rs_packet := packet', rs_world := w',
      rs_taken := rs_taken s @ (if got then [p] else [])\<rparr>))"
| handshake_fails: "rs_pc s = R_Handshake \<Longrightarrow> may_stop s stop \<Longrightarrow>
    receiveHelloMessage h R stop (rs_packet s) 2000 (rs_demuxer s) (rs_world s) = Some (Inl e) \<Longrightarrow>
    receive_step h R s (s\<lparr>rs_pc := R_Aborted\<rparr>)"
| receive: "rs_pc s = R_Loop \<Longrightarrow> dmx_transportError (rs_demuxer s) = False \<Longrightarrow> may_stop s stop \<Longrightarrow>
    receivePacket h R stop (rs_packet s) 1000 (rs_demuxer s) (rs_world s) = Some (Inr (True, p, d', w')) \<Longrightarrow>
    receive_step h R s (with_demuxer d' (s\<lparr>rs_pc := R_Dispatch, rs_packet := p, rs_world := w',
      rs_taken := rs_taken s @ [p]\<rparr>))"
| nothing: "rs_pc s = R_Loop \<Longrightarrow> dmx_transportError (rs_demuxer s) = False \<Longrightarrow> may_stop s stop \<Longrightarrow>
    receivePacket h R stop (rs_packet s) 1000 (rs_demuxer s) (rs_world s) = Some (Inr (False, p, d', w')) \<Longrightarrow>
    receive_step h R s (with_demuxer d' (s\<lparr>rs_packet := p, rs_world := w'\<rparr>))"
| receive_fails: "rs_pc s = R_Loop \<Longrightarrow> dmx_transportError (rs_demuxer s) = False \<Longrightarrow> may_stop s stop \<Longrightarrow>
    receivePacket h R stop (rs_packet s) 1000 (rs_demuxer s) (rs_world s) = Some (Inl e) \<Longrightarrow>
    receive_step h R s (s\<lparr>rs_pc := R_Aborted\<rparr>)"
| control: "rs_pc s = R_Dispatch \<Longrightarrow> getType (rs_packet s) = ControlPacket \<Longrightarrow>
    ComPacket_move (rs_packet s) = (sptr, moved) \<Longrightarrow>
    receive_step h R s (with_demuxer (handleControlMessage sptr (rs_demuxer s))
      (s\<lparr>rs_pc := R_Loop, rs_packet := moved\<rparr>))"
| posts: "rs_pc s = R_Dispatch \<Longrightarrow> getType (rs_packet s) \<noteq> ControlPacket \<Longrightarrow>
    ComPacket_move (rs_packet s) = (sptr, moved) \<Longrightarrow> postPacket sptr (rs_demuxer s) = (calls, d') \<Longrightarrow>
    receive_step h R s (with_demuxer d' (s\<lparr>rs_pc := R_Loop, rs_packet := moved,
      rs_calls := rs_calls s @ calls\<rparr>))"
| returns: "rs_pc s = R_Loop \<Longrightarrow> dmx_transportError (rs_demuxer s) = True \<Longrightarrow>
    receive_step h R s (s\<lparr>rs_pc := R_Exited\<rparr>)"
| uses: "rs_constructed s \<Longrightarrow> rs_dtor s \<noteq> D_Joined \<Longrightarrow> client_step (rs_client s) (Inr c') \<Longrightarrow>
    receive_step h R s (s\<lparr>rs_client := c'\<rparr>)"
| enters_dtor: "rs_constructed s \<Longrightarrow> rs_dtor s = D_None \<Longrightarrow> receive_step h R s (s\<lparr>rs_dtor := D_Entered\<rparr>)"
| destruction: "dtor_step s s' \<Longrightarrow> receive_step h R s s'"

inductive receiving ::
    "host_order \<Rightarrow> 'w abstract_reader \<Rightarrow> 'cb demuxer \<Rightarrow> 'w \<Rightarrow> ('cb, 'w) receive_system \<Rightarrow> bool"
  for h :: host_order and R :: "'w abstract_reader" and d0 :: "'cb demuxer" and w0 :: 'w where
  start: "receiving h R d0 w0 (start_receiving d0 w0)"
| step: "receiving h R d0 w0 s \<Longrightarrow> receive_step h R s s' \<Longrightarrow> receiving h R d0 w0 s'"

lemma rs_demuxer_simps [simp]:
  "rs_demuxer (with_demuxer d s) = d"
  "rs_client (with_demuxer d s) = (rs_client s)\<lparr>cl_demuxer := d\<rparr>"
  "rs_world (with_demuxer d s) = rs_world s" "rs_pc (with_demuxer d s) = rs_pc s"
  "rs_packet (with_demuxer d s) = rs_packet s" "rs_taken (with_demuxer d s) = rs_taken s"
  "rs_calls (with_demuxer d s) = rs_calls s" "rs_constructed (with_demuxer d s) = rs_constructed s"
  "rs_dtor (with_demuxer d s) = rs_dtor s" "rs_warnings (with_demuxer d s) = rs_warnings s"
  by (simp_all add: with_demuxer_def rs_demuxer_def)

lemma rs_demuxer_update [simp]:
  "rs_demuxer (s\<lparr>rs_world := w\<rparr>) = rs_demuxer s" "rs_demuxer (s\<lparr>rs_pc := q\<rparr>) = rs_demuxer s"
  "rs_demuxer (s\<lparr>rs_constructed := b\<rparr>) = rs_demuxer s" "rs_demuxer (s\<lparr>rs_dtor := q'\<rparr>) = rs_demuxer s"
  "rs_demuxer (s\<lparr>rs_warnings := ws\<rparr>) = rs_demuxer s"
  "rs_demuxer (s\<lparr>rs_client := c\<rparr>) = cl_demuxer c"
  by (simp_all add: rs_demuxer_def)

section \<open>The stream and the packets taken\<close>

context byte_reader begin

text \<open>What a call that returns has taken from the stream.\<close>

lemma receivePacket_taken:
  assumes "receivePacket h R stop packet ms d w = Some (Inr (got, p, d', w'))"
  shows "if got then pending w = wire p @ pending w' \<and> receivable p \<and> d' = d \<and> \<not> dmx_transportError d
    else p = packet \<and> (d' = d \<and> pending w' = pending w \<or>
      d' = signalTransportError d \<and> (\<exists>bs. pending w = bs @ pending w'))"
proof (cases "dmx_transportError d")
  case False
  with assms show ?thesis
    by (cases rule: receivePacket_cases) (use False in \<open>auto simp: receivable_def\<close>)
next
  case True
  then have "d\<lparr>dmx_transportError := True\<rparr> = d" by simp
  with True assms show ?thesis
    by (auto simp: receivePacket_def readUint32_def readBytes.simps dest: ready_pending split: if_splits prod.splits)
qed

text \<open>The handshake does with the stream what its call of \<open>receivePacket\<close> does.\<close>

lemma receiveHelloMessage_taken:
  assumes "receivePacket h R stop packet ms d w = Some (Inr (got, p, d1, w1))"
    "receiveHelloMessage h R stop packet ms d w = Some (Inr (packet', d', w'))"
  shows "w' = w1" and "d' = d1 \<or> d' = signalTransportError d1"
  using assms by (auto simp: receiveHelloMessage_def Let_def split: if_splits sum.splits)

end

text \<open>
  The invariant: what has been read is the wire form of the packets taken, followed by some more
  bytes only after an error.
\<close>

definition receive_inv ::
    "('w \<Rightarrow> byte list) \<Rightarrow> byte list \<Rightarrow> ('cb, 'w) receive_system \<Rightarrow> bool" where
  "receive_inv pending stream s \<longleftrightarrow> (\<forall>p \<in> set (rs_taken s). receivable p) \<and>
     (\<exists>junk. stream = concat (map wire (rs_taken s)) @ junk @ pending (rs_world s) \<and>
        (\<not> dmx_transportError (rs_demuxer s) \<longrightarrow> junk = []))"

lemma signal_service [simp]:
  "subscribers (signalTransportError d) = subscribers d"
  "dmx_packetIds (signalTransportError d) = dmx_packetIds d" "dmx_transportError (signalTransportError d)"
  "signalTransportError (signalTransportError d) = signalTransportError d"
  by (simp_all add: signalTransportError_def subscribers_def fun_eq_iff)

lemma client_step_error:
  "client_step c r \<Longrightarrow> r = Inr c' \<Longrightarrow> dmx_transportError (cl_demuxer c') = dmx_transportError (cl_demuxer c)"
  by (induction rule: client_step.induct)
    (auto simp: subscribe_def unsubscribe_def PacketSubscription_dtor_def set_subscribers_def
      outcome_eqs Let_def split: option.splits if_splits)

context byte_reader begin

lemma receive_inv_read:
  assumes "receive_inv pending stream s" "dmx_transportError (rs_demuxer s) \<longrightarrow> ps = []"
    "\<exists>junk. pending (rs_world s) = concat (map wire ps) @ junk @ pending w' \<and>
      (d' = rs_demuxer s \<and> junk = [] \<or> d' = signalTransportError (rs_demuxer s))"
    "\<forall>p \<in> set ps. receivable p"
  shows "receive_inv pending stream (with_demuxer d' (s\<lparr>rs_pc := q, rs_packet := p, rs_world := w',
    rs_taken := rs_taken s @ ps\<rparr>))"
proof -
  obtain junk where junk: "pending (rs_world s) = concat (map wire ps) @ junk @ pending w'"
    "d' = rs_demuxer s \<and> junk = [] \<or> d' = signalTransportError (rs_demuxer s)"
    using assms(3) by blast
  obtain junk0 where junk0: "stream = concat (map wire (rs_taken s)) @ junk0 @ pending (rs_world s)"
    "\<not> dmx_transportError (rs_demuxer s) \<longrightarrow> junk0 = []"
    using assms(1) by (auto simp: receive_inv_def)
  have "stream = concat (map wire (rs_taken s @ ps)) @ (junk0 @ junk) @ pending w'"
    using junk0 assms(2) junk(1) by (cases "dmx_transportError (rs_demuxer s)") auto
  moreover have "\<not> dmx_transportError d' \<longrightarrow> junk0 @ junk = []"
    using junk(2) junk0(2) by auto
  ultimately show ?thesis
    using assms(1,4) unfolding receive_inv_def by auto
qed

lemma receive_step_inv:
  assumes "receive_step h R s s'" "receive_inv pending stream s"
  shows "receive_inv pending stream s'"
  using assms
proof (induction rule: receive_step.induct)
  case (construction s)
  then show ?case by (simp add: receive_inv_def setBlocking_pending)
next
  case (handshake s stop got p d1 w1 packet' d' w')
  note call = receivePacket_taken [OF handshake.hyps(3)]
  note result = receiveHelloMessage_taken [OF handshake.hyps(3,4)]
  show ?case
  proof (cases got)
    case True
    with handshake.prems call result show ?thesis
      by (intro receive_inv_read) auto
  next
    case False
    with handshake.prems call result show ?thesis
      by (intro receive_inv_read) auto
  qed
next
  case (receive s stop p d' w')
  with receivePacket_taken [OF receive.hyps(4)] show ?case
    by (intro receive_inv_read) auto
next
  case (nothing s stop p d' w')
  have same: "s\<lparr>rs_packet := p, rs_world := w'\<rparr> =
      s\<lparr>rs_pc := R_Loop, rs_packet := p, rs_world := w', rs_taken := rs_taken s @ []\<rparr>"
    using nothing.hyps(1) by (cases s) simp
  show ?case
    unfolding same using nothing.prems receivePacket_taken [OF nothing.hyps(4)]
    by (intro receive_inv_read) auto
next
  case (control s sptr moved)
  then show ?case
    by (simp add: handleControlMessage_def with_demuxer_def rs_demuxer_def receive_inv_def)
next
  case (posts s sptr moved calls d')
  have "dmx_transportError d' = dmx_transportError (rs_demuxer s)"
    using postPacket_service(1) [OF posts.hyps(4)] by (simp add: same_service_def)
  with posts.prems show ?case by (auto simp: receive_inv_def rs_demuxer_def)
next
  case (uses s c')
  then show ?case
    using client_step_error [OF uses.hyps(3) refl] by (auto simp: receive_inv_def rs_demuxer_def)
next
  case (destruction s s')
  then show ?case by (induction rule: dtor_step.induct) (auto simp: receive_inv_def)
qed (auto simp: receive_inv_def)

lemma receiving_inv: "receiving h R d0 w0 s \<Longrightarrow> receive_inv pending (pending w0) s"
proof (induction rule: receiving.induct)
  case start
  show ?case by (simp add: receive_inv_def start_receiving_def)
qed (rule receive_step_inv)

end

text \<open>Over any transport, whatever it does, the subscribers are those that live objects hold.\<close>

lemma error_flag_service [simp]:
  "subscribers (d\<lparr>dmx_transportError := err\<rparr>) = subscribers d"
  by (simp add: subscribers_def fun_eq_iff)

lemma receivePayload_service:
  "receivePayload R stop packet t n d w = Some (Inr (ok, p, d', w')) \<Longrightarrow>
    subscribers d' = subscribers d \<and> dmx_packetIds d' = dmx_packetIds d"
  by (auto simp: receivePayload_def outcome_eqs Let_def split: if_splits sum.splits)

lemma receivePacket_service:
  assumes "receivePacket h R stop packet ms d w = Some (Inr (ok, p, d', w'))"
  shows "subscribers d' = subscribers d \<and> dmx_packetIds d' = dmx_packetIds d"
proof -
  consider "d' = d" | err where "d' = d\<lparr>dmx_transportError := err\<rparr>"
    | n t w2 err where "receivePayload R stop packet t n (d\<lparr>dmx_transportError := err\<rparr>) w2 = Some (Inr (ok, p, d', w'))"
    using assms by (auto simp: receivePacket_def outcome_eqs split: if_splits prod.splits)
  then show ?thesis
  proof cases
    case 3
    from receivePayload_service [OF this] show ?thesis by simp
  qed simp_all
qed

lemma receiveHelloMessage_service:
  assumes "receiveHelloMessage h R stop packet ms d w = Some (Inr (p, d', w'))"
  shows "subscribers d' = subscribers d \<and> dmx_packetIds d' = dmx_packetIds d"
proof -
  obtain got q d1 w1 where go: "receivePacket h R stop packet ms d w = Some (Inr (got, q, d1, w1))"
    using assms by (auto simp: receiveHelloMessage_def outcome_eqs)
  with assms have "d' = d1 \<or> d' = signalTransportError d1"
    by (auto simp: receiveHelloMessage_def Let_def split: if_splits sum.splits)
  with receivePacket_service [OF go] show ?thesis by auto
qed

lemma receive_step_client:
  assumes "receive_step h R s s'" "client_inv (rs_client s)"
  shows "client_inv (rs_client s')"
  using assms
proof (induction rule: receive_step.induct)
  case (handshake s stop got p d1 w1 packet' d' w')
  then show ?case
    using receiveHelloMessage_service [OF handshake.hyps(4)] client_inv_cong [of "rs_client s" d']
    by (simp add: rs_demuxer_def)
next
  case (receive s stop p d' w')
  then show ?case
    using receivePacket_service [OF receive.hyps(4)] client_inv_cong [of "rs_client s" d']
    by (simp add: rs_demuxer_def)
next
  case (nothing s stop p d' w')
  then show ?case
    using receivePacket_service [OF nothing.hyps(4)] client_inv_cong [of "rs_client s" d']
    by (simp add: rs_demuxer_def)
next
  case (posts s sptr moved calls d')
  then show ?case
    using postPacket_service(1) [OF posts.hyps(4)] client_inv_cong [of "rs_client s" d']
    by (simp add: rs_demuxer_def same_service_def)
next
  case (uses s c')
  then show ?case using client_step_inv [OF uses.hyps(3)] by auto
next
  case (destruction s s')
  then show ?case
    by (induction rule: dtor_step.induct) (simp_all add: rs_demuxer_def client_inv_cong)
qed (simp_all add: handleControlMessage_def rs_demuxer_def client_inv_cong)

lemma receiving_client:
  assumes "receiving h R d0 w0 s" "PacketDemuxer_ctor names = Inr d0" "length names + 2 \<le> 2 ^ 32"
  shows "client_inv (rs_client s)"
  using assms(1)
proof (induction rule: receiving.induct)
  case start
  show ?case using client_inv_start [OF assms(2,3)] by (simp add: start_receiving_def)
qed (rule receive_step_client)

section \<open>Callbacks\<close>

text \<open>
  A step that calls callbacks has just dispatched the packet taken last, to the subscribers of
  that moment.
\<close>

inductive_cases receive_stepE: "receive_step h R s s'"

lemma receive_step_calls:
  assumes "receive_step h R s s'"
  shows "rs_calls s' = rs_calls s \<or>
    rs_pc s = R_Dispatch \<and> m_type (rs_packet s) \<noteq> ControlPacket \<and>
    rs_calls s' = rs_calls s @ dispatched (rs_demuxer s) (rs_packet s)"
  using assms
proof (cases rule: receive_step.cases)
  case (posts sptr moved calls d')
  then have "sptr = rs_packet s" by (simp add: ComPacket_move_def)
  with posts postPacket_service(2) [OF posts(5)] show ?thesis by (auto simp: getType_def)
next
  case destruction
  then show ?thesis by (cases rule: dtor_step.cases) simp_all
qed simp_all

text \<open>The packet to dispatch is the one taken last.\<close>

lemma receiving_dispatch:
  "receive_step h R s s' \<Longrightarrow> (rs_pc s = R_Dispatch \<longrightarrow> (\<exists>ps. rs_taken s = ps @ [rs_packet s])) \<Longrightarrow>
    rs_pc s' = R_Dispatch \<longrightarrow> (\<exists>ps. rs_taken s' = ps @ [rs_packet s'])"
proof (induction rule: receive_step.induct)
  case (destruction s s')
  then show ?case by (cases rule: dtor_step.cases) auto
qed auto

lemma dispatching_taken:
  "receiving h R d0 w0 s \<Longrightarrow> rs_pc s = R_Dispatch \<longrightarrow> (\<exists>ps. rs_taken s = ps @ [rs_packet s])"
proof (induction rule: receiving.induct)
  case start
  show ?case by (simp add: start_receiving_def)
qed (rule receiving_dispatch)

section \<open>The end of the receive thread\<close>

text \<open>With the error flag set or about to be seen, a call of \<open>receivePacket\<close> returns over any transport.\<close>

lemma receivePacket_stopped:
  assumes "dmx_transportError d \<or> (\<forall>w. stop w)"
  shows "\<exists>d' w'. receivePacket h R stop packet ms d w = Some (Inr (False, packet, d', w')) \<and>
    (d' = d \<or> d' = signalTransportError d)"
proof -
  obtain ready w0 where rdy: "rd_readyForReading R ms w = (ready, w0)" by fastforce
  have "readUint32 h R stop (dmx_transportError d) w0 = Some (Inr (False, load32 h [], True, w0))"
    using assms by (auto simp: readUint32_def readBytes.simps)
  with rdy show ?thesis
    by (cases ready) (auto simp: receivePacket_def signalTransportError_def)
qed

text \<open>From the signal of the destructor on, the error flag stays set.\<close>

definition flag_inv :: "('cb, 'w, 'z) receive_system_scheme \<Rightarrow> bool" where
  "flag_inv s \<longleftrightarrow> rs_dtor s \<in> {D_Signalled, D_Warned, D_Joined} \<longrightarrow> dmx_transportError (rs_demuxer s)"

lemma receivePacket_flag:
  assumes "receivePacket h R stop packet ms d w = Some (Inr (got, p, d', w'))" "dmx_transportError d"
  shows "dmx_transportError d'"
  using receivePacket_stopped [of d stop h R packet ms w] assms by auto

lemma receiveHelloMessage_flag:
  assumes "receiveHelloMessage h R stop packet ms d w = Some (Inr (p, d', w'))" "dmx_transportError d"
  shows "dmx_transportError d'"
proof -
  obtain got q d1 w1 where go: "receivePacket h R stop packet ms d w = Some (Inr (got, q, d1, w1))"
    using assms by (auto simp: receiveHelloMessage_def outcome_eqs)
  with assms have "d' = d1 \<or> d' = signalTransportError d1"
    by (auto simp: receiveHelloMessage_def Let_def split: if_splits sum.splits)
  with receivePacket_flag [OF go assms(2)] show ?thesis by auto
qed

lemma receive_step_flag:
  assumes "receive_step h R s s'" "flag_inv s"
  shows "flag_inv s'"
  using assms
proof (induction rule: receive_step.induct)
  case (handshake s stop got p d1 w1 packet' d' w')
  then show ?case using receiveHelloMessage_flag [OF handshake.hyps(4)] by (auto simp: flag_inv_def)
next
  case (posts s sptr moved calls d')
  then show ?case using postPacket_service(1) [OF posts.hyps(4)] by (auto simp: flag_inv_def same_service_def)
next
  case (uses s c')
  then show ?case using client_step_error [OF uses.hyps(3) refl] by (auto simp: flag_inv_def rs_demuxer_def)
next
  case (destruction s s')
  then show ?case by (induction rule: dtor_step.induct) (auto simp: flag_inv_def)
qed (auto simp: flag_inv_def handleControlMessage_def)

lemma receiving_flag: "receiving h R d0 w0 s \<Longrightarrow> flag_inv s"
proof (induction rule: receiving.induct)
  case start
  show ?case by (simp add: flag_inv_def start_receiving_def)
qed (rule receive_step_flag)

text \<open>
  Once the destructor is entered there is a way to the end of the thread from every state, so that
  \<open>join\<close> is not blocked for ever by the state of the demuxer.
\<close>

lemma reached: "(receive_step h R)\<^sup>*\<^sup>* s s1 \<Longrightarrow> Q s1 \<Longrightarrow> \<exists>s'. (receive_step h R)\<^sup>*\<^sup>* s s' \<and> Q s'"
  by blast

lemma reached_step:
  "receive_step h R s s1 \<Longrightarrow> \<exists>s'. (receive_step h R)\<^sup>*\<^sup>* s1 s' \<and> Q s' \<Longrightarrow> \<exists>s'. (receive_step h R)\<^sup>*\<^sup>* s s' \<and> Q s'"
  by (meson converse_rtranclp_into_rtranclp)

lemma thread_exits:
  assumes "dmx_transportError (rs_demuxer s)" "rs_pc s \<noteq> R_Aborted"
  shows "\<exists>s'. (receive_step h R)\<^sup>*\<^sup>* s s' \<and>
    rs_pc s' = R_Exited \<and> rs_dtor s' = rs_dtor s \<and> rs_warnings s' = rs_warnings s"
proof -
  have loop: "\<exists>s'. (receive_step h R)\<^sup>*\<^sup>* s1 s' \<and>
      rs_pc s' = R_Exited \<and> rs_dtor s' = rs_dtor s \<and> rs_warnings s' = rs_warnings s"
    if "rs_pc s1 = R_Loop" "dmx_transportError (rs_demuxer s1)" "rs_dtor s1 = rs_dtor s"
      "rs_warnings s1 = rs_warnings s" for s1
    by (rule reached [OF r_into_rtranclp, OF returns [OF that(1)]]) (use that in simp_all)
  show ?thesis
  proof (cases "rs_pc s")
    case R_Handshake
    obtain d' w' where go: "receivePacket h R (\<lambda>_. False) (rs_packet s) 2000 (rs_demuxer s) (rs_world s) =
        Some (Inr (False, rs_packet s, d', w'))" "dmx_transportError d'"
      using receivePacket_stopped [of "rs_demuxer s" "\<lambda>_. False" h R "rs_packet s" 2000 "rs_world s"] assms(1) by auto
    then have "receiveHelloMessage h R (\<lambda>_. False) (rs_packet s) 2000 (rs_demuxer s) (rs_world s) =
        Some (Inr (rs_packet s, d', w'))"
      by (simp add: receiveHelloMessage_def)
    from handshake [OF R_Handshake _ go(1) this] show ?thesis
      by (rule reached_step) (use go(2) in \<open>auto simp: may_stop_def intro!: loop\<close>)
  next
    case R_Loop
    then show ?thesis using loop assms(1) by blast
  next
    case R_Dispatch
    obtain sptr moved where mv: "ComPacket_move (rs_packet s) = (sptr, moved)" by fastforce
    obtain calls d' where post: "postPacket sptr (rs_demuxer s) = (calls, d')" by fastforce
    show ?thesis
    proof (cases "getType (rs_packet s) = ControlPacket")
      case True
      from control [OF R_Dispatch this mv] show ?thesis
        by (rule reached_step) (use assms(1) in \<open>simp add: loop handleControlMessage_def\<close>)
    next
      case False
      have "dmx_transportError d'"
        using postPacket_service(1) [OF post] assms(1) by (simp add: same_service_def)
      with posts [OF R_Dispatch False mv post] show ?thesis
        by (intro reached_step [OF posts [OF R_Dispatch False mv post]] loop) simp_all
    qed
  qed (use assms(2) in auto)
qed

lemma warnings_total: "registry_wf d \<Longrightarrow> \<exists>ws. warnAboutSubscribers ts d = Inr ws"
proof (induction ts)
  case (Cons t ts)
  have "unat t < length (m_reverse (dmx_packetIds d))" if "subscribers d t \<noteq> []"
    using registry_queue [OF Cons.prems, of t] that by (cases "subscribers d t") (auto simp: queue_ok_def)
  with Cons show ?case by (cases "subscribers d t") (auto simp: toString_def Let_def)
qed simp

lemma destructor_joins:
  assumes "client_inv (rs_client s)" "dmx_transportError (rs_demuxer s)"
    "rs_dtor s \<in> {D_Signalled, D_Warned}" "rs_pc s \<noteq> R_Aborted"
  shows "\<exists>s'. (receive_step h R)\<^sup>*\<^sup>* s s' \<and> rs_dtor s' = D_Joined"
proof -
  have warned: "\<exists>s'. (receive_step h R)\<^sup>*\<^sup>* s1 s' \<and> rs_dtor s' = D_Joined"
    if s1: "dmx_transportError (rs_demuxer s1)" "rs_dtor s1 = D_Warned" "rs_pc s1 \<noteq> R_Aborted" for s1
  proof -
    obtain s2 where s2: "(receive_step h R)\<^sup>*\<^sup>* s1 s2" "rs_pc s2 = R_Exited" "rs_dtor s2 = D_Warned"
      using thread_exits [OF s1(1,3), of h R] s1(2) by auto
    have "receive_step h R s2 (s2\<lparr>rs_dtor := D_Joined\<rparr>)" by (intro destruction joins s2(2,3))
    with s2(1) have "(receive_step h R)\<^sup>*\<^sup>* s1 (s2\<lparr>rs_dtor := D_Joined\<rparr>)" by simp
    then show ?thesis by (rule reached) simp
  qed
  from assms(3) consider "rs_dtor s = D_Signalled" | "rs_dtor s = D_Warned" by blast
  then show ?thesis
  proof cases
    case 1
    obtain ts where ts: "set ts = dom (dmx_subscribers (rs_demuxer s))" "distinct ts"
      using finite_distinct_list [of "dom (dmx_subscribers (rs_demuxer s))"] by auto
    obtain ws where ws: "warnAboutSubscribers ts (rs_demuxer s) = Inr ws"
      using warnings_total [of "rs_demuxer s"] assms(1) by (auto simp: client_inv_def rs_demuxer_def)
    show ?thesis
      by (intro reached_step [OF destruction [OF warns [OF 1 ts ws]]] warned) (use assms in simp_all)
  qed (use warned assms in blast)
qed

lemma destructor_completes:
  assumes "client_inv (rs_client s)" "flag_inv s" "rs_dtor s \<noteq> D_None" "rs_pc s \<noteq> R_Aborted"
  shows "\<exists>s'. (receive_step h R)\<^sup>*\<^sup>* s s' \<and> rs_dtor s' = D_Joined"
proof (cases "rs_dtor s = D_Entered")
  case True
  let ?s1 = "with_demuxer (signalTransportError (rs_demuxer s)) (s\<lparr>rs_dtor := D_Signalled\<rparr>)"
  have "receive_step h R s ?s1" by (intro destruction signals True)
  moreover have "client_inv (rs_client ?s1)"
    using receive_step_client [OF calculation assms(1)] .
  ultimately show ?thesis using assms(4) by (intro reached_step [of h R s ?s1] destructor_joins) simp_all
next
  case False
  then show ?thesis
    using assms destructor_joins [of s h R] by (cases "rs_dtor s") (auto simp: flag_inv_def)
qed

text \<open>
  What the destructor of the demuxer prints when no subscription object is left: nothing.
\<close>

lemma dtor_no_warnings:
  assumes "dtor_step s s'" "client_inv (rs_client s)" "held (cl_handles (rs_client s)) = []"
  shows "rs_warnings s' = rs_warnings s \<or> rs_warnings s' = []"
  using assms
proof (cases rule: dtor_step.cases)
  case (warns ts ws)
  have "\<forall>t. subscribers (rs_demuxer s) t = []"
    using assms(2,3) by (simp add: client_inv_def registered_def rs_demuxer_def)
  from no_warnings [OF this] warns show ?thesis by simp
qed simp_all

section \<open>The function receiveLoop as a run of these steps\<close>

text \<open>What a run of the loop leaves behind.\<close>

definition ends_as ::
    "(('cb \<times> com_packet) list \<times> 'cb demuxer \<times> 'w) outcome \<Rightarrow> ('cb, 'w, 'z) receive_system_scheme \<Rightarrow> bool" where
  "ends_as r s \<longleftrightarrow>
     (case r of
        Inl e \<Rightarrow> rs_pc s = R_Aborted
      | Inr (calls, d, w) \<Rightarrow> rs_pc s = R_Exited \<and> rs_calls s = calls \<and> rs_demuxer s = d \<and> rs_world s = w)"

lemma dispatch_steps:
  assumes "rs_pc s = R_Dispatch" "ComPacket_move (rs_packet s) = (sptr, moved)"
    and "(if getType (rs_packet s) = ControlPacket then ([], handleControlMessage sptr (rs_demuxer s))
      else postPacket sptr (rs_demuxer s)) = (new, d')"
  shows "\<exists>s'. receive_step h R s s' \<and> rs_pc s' = R_Loop \<and> rs_packet s' = moved \<and>
    rs_demuxer s' = d' \<and> rs_world s' = rs_world s \<and> rs_calls s' = rs_calls s @ new"
proof (cases "getType (rs_packet s) = ControlPacket")
  case True
  with assms(3) have "new = []" "d' = handleControlMessage sptr (rs_demuxer s)" by simp_all
  with control [OF assms(1) True assms(2), of h R] show ?thesis
    by (intro exI [of _ "with_demuxer d' (s\<lparr>rs_pc := R_Loop, rs_packet := moved\<rparr>)"]) simp
next
  case False
  with assms(3) have "postPacket sptr (rs_demuxer s) = (new, d')" by simp
  from posts [OF assms(1) False assms(2) this, of h R] show ?thesis
    by (intro exI [of _ "with_demuxer d'
      (s\<lparr>rs_pc := R_Loop, rs_packet := moved, rs_calls := rs_calls s @ new\<rparr>)"]) simp
qed

lemma receiveTurn_steps:
  assumes "receiveTurn h R (\<lambda>_. False) packet d w = Some (Inr (packet', new, d', w'))"
    "rs_pc s = R_Loop" "rs_packet s = packet" "rs_demuxer s = d" "rs_world s = w" "\<not> dmx_transportError d"
  shows "\<exists>s'. (receive_step h R)\<^sup>*\<^sup>* s s' \<and> rs_pc s' = R_Loop \<and> rs_packet s' = packet' \<and>
    rs_demuxer s' = d' \<and> rs_world s' = w' \<and> rs_calls s' = rs_calls s @ new"
proof -
  obtain got p d1 w1 where go: "receivePacket h R (\<lambda>_. False) packet 1000 d w = Some (Inr (got, p, d1, w1))"
    using assms(1) by (auto simp: receiveTurn_def outcome_eqs)
  have stop: "may_stop s (\<lambda>_. False)" by (simp add: may_stop_def)
  show ?thesis
  proof (cases got)
    case False
    with go assms(1) have eq: "packet' = p" "new = []" "d' = d1" "w' = w1"
      by (auto simp: receiveTurn_def)
    have "receive_step h R s (with_demuxer d' (s\<lparr>rs_packet := packet', rs_world := w'\<rparr>))"
      unfolding eq by (rule nothing [where stop = "\<lambda>_. False"]) (use go assms(2-6) stop False in simp_all)
    then have "(receive_step h R)\<^sup>*\<^sup>* s (with_demuxer d' (s\<lparr>rs_packet := packet', rs_world := w'\<rparr>))" ..
    then show ?thesis by (rule reached) (use assms(2) eq in simp)
  next
    case True
    obtain sptr moved where mv: "ComPacket_move p = (sptr, moved)" by fastforce
    let ?s1 = "with_demuxer d1 (s\<lparr>rs_pc := R_Dispatch, rs_packet := p, rs_world := w1,
      rs_taken := rs_taken s @ [p]\<rparr>)"
    have step: "receive_step h R s ?s1"
      by (rule receive [where stop = "\<lambda>_. False"]) (use go assms(2-6) stop True in simp_all)
    have "packet' = moved" "w' = w1" and post: "(if getType p = ControlPacket
        then ([], handleControlMessage sptr d1) else postPacket sptr d1) = (new, d')"
      using go True assms(1) mv by (auto simp: receiveTurn_def Let_def split: prod.splits if_splits)
    have s1: "rs_pc ?s1 = R_Dispatch" "rs_packet ?s1 = p" "rs_demuxer ?s1 = d1"
      "rs_world ?s1 = w1" "rs_calls ?s1 = rs_calls s" by simp_all
    obtain s' where s': "receive_step h R ?s1 s'" "rs_pc s' = R_Loop" "rs_packet s' = moved"
      "rs_demuxer s' = d'" "rs_world s' = w1" "rs_calls s' = rs_calls s @ new"
      using dispatch_steps [of ?s1, unfolded s1, OF refl mv post] by blast
    from step s'(1) have "(receive_step h R)\<^sup>*\<^sup>* s s'"
      by (meson converse_rtranclp_into_rtranclp r_into_rtranclp)
    with s'(2-) \<open>packet' = moved\<close> \<open>w' = w1\<close> show ?thesis by blast
  qed
qed

lemma receiveTurn_fails:
  assumes "receiveTurn h R (\<lambda>_. False) packet d w = Some (Inl e)"
    "rs_pc s = R_Loop" "rs_packet s = packet" "rs_demuxer s = d" "rs_world s = w" "\<not> dmx_transportError d"
  shows "receive_step h R s (s\<lparr>rs_pc := R_Aborted\<rparr>)"
proof -
  have "receivePacket h R (\<lambda>_. False) packet 1000 d w = Some (Inl e)"
    using assms(1) by (auto simp: receiveTurn_def outcome_eqs Let_def split: if_splits prod.splits)
  then show ?thesis
    by (intro receive_fails [where stop = "\<lambda>_. False"]) (use assms in \<open>simp_all add: may_stop_def\<close>)
qed

lemma receiveWhile_steps:
  fixes R :: "'w abstract_reader"
  assumes "receiveWhile h R (\<lambda>_. False) packet calls d w = Some r"
    "rs_pc s = R_Loop" "rs_packet s = packet" "rs_demuxer s = d" "rs_world s = w" "rs_calls s = calls"
  shows "\<exists>s'. (receive_step h R)\<^sup>*\<^sup>* s s' \<and> ends_as r s'"
  using assms
proof (induction packet calls d w r arbitrary: s rule: receiveWhile_induct)
  case (ends packet calls d w)
  then have "receive_step h R s (s\<lparr>rs_pc := R_Exited\<rparr>)" "d\<lparr>dmx_transportError := True\<rparr> = d"
    using returns [OF ends(2)] by simp_all
  then show ?case
    using ends by (intro exI [of _ "s\<lparr>rs_pc := R_Exited\<rparr>"]) (simp add: ends_as_def)
next
  case (fails packet calls d w e)
  with receiveTurn_fails [OF fails(3-7) fails(1)] show ?case
    by (intro exI [of _ "s\<lparr>rs_pc := R_Aborted\<rparr>"]) (simp add: ends_as_def r_into_rtranclp)
next
  case (turn packet calls d w packet' new d' w' r)
  obtain s1 where s1: "(receive_step h R)\<^sup>*\<^sup>* s s1" "rs_pc s1 = R_Loop" "rs_packet s1 = packet'"
    "rs_demuxer s1 = d'" "rs_world s1 = w'" "rs_calls s1 = calls @ new"
    using receiveTurn_steps [OF turn(3,5-8,1)] turn(9) by auto
  with turn.IH obtain s' where "(receive_step h R)\<^sup>*\<^sup>* s1 s'" "ends_as r s'" by blast
  with s1(1) show ?case by (meson rtranclp_trans)
qed

lemma receiveLoop_steps:
  assumes "receiveLoop h R (\<lambda>_. False) d w = Some r"
  shows "\<exists>s'. (receive_step h R)\<^sup>*\<^sup>* (start_receiving d w) s' \<and> ends_as r s'"
proof -
  let ?s = "start_receiving d w"
  have s: "rs_pc ?s = R_Handshake" "rs_packet ?s = ComPacket_default" "rs_demuxer ?s = d" "rs_world ?s = w"
    "may_stop ?s (\<lambda>_. False)" "rs_calls ?s = []"
    by (simp_all add: start_receiving_def rs_demuxer_def may_stop_def)
  obtain t where t: "receiveHelloMessage h R (\<lambda>_. False) ComPacket_default 2000 d w = Some t"
    using assms by (cases "receiveHelloMessage h R (\<lambda>_. False) ComPacket_default 2000 d w") (auto simp: receiveLoop_def)
  show ?thesis
  proof (cases t)
    case (Inl e)
    then have "r = Inl e" using assms t by (simp add: receiveLoop_def)
    moreover have "receive_step h R ?s (?s\<lparr>rs_pc := R_Aborted\<rparr>)"
      by (rule handshake_fails [OF s(1,5)]) (use t Inl s in simp)
    ultimately show ?thesis
      by (intro exI [of _ "?s\<lparr>rs_pc := R_Aborted\<rparr>"]) (simp add: ends_as_def r_into_rtranclp)
  next
    case (Inr q)
    then obtain packet' d' w' where q: "t = Inr (packet', d', w')" by (cases q) auto
    then have rec: "receiveWhile h R (\<lambda>_. False) packet' [] d' w' = Some r"
      using assms t by (simp add: receiveLoop_def)
    obtain got p d1 w1 where go: "receivePacket h R (\<lambda>_. False) ComPacket_default 2000 d w = Some (Inr (got, p, d1, w1))"
      using t q by (auto simp: receiveHelloMessage_def outcome_eqs)
    let ?s1 = "with_demuxer d' (?s\<lparr>rs_pc := R_Loop, rs_packet := packet', rs_world := w',
      rs_taken := rs_taken ?s @ (if got then [p] else [])\<rparr>)"
    have "receive_step h R ?s ?s1"
      by (rule handshake [OF s(1,5)]) (use go t q s in simp_all)
    moreover have "\<exists>s'. (receive_step h R)\<^sup>*\<^sup>* ?s1 s' \<and> ends_as r s'"
      by (rule receiveWhile_steps [OF rec]) (use s(6) in simp_all)
    ultimately show ?thesis by (rule reached_step)
  qed
qed

end
