(* ===== verification/ReceiveSteps.thy ===== *)
theory ReceiveSteps
  imports DemuxerThreads
begin

text \<open>
  The receive thread call by call, with the mutex: a step makes at most one call to the transport
  or to a callback. Between two steps the program may subscribe, the constructor may switch the
  mode of the transport, and the destructor may set the error flag; while the thread holds
  \<open>m_subscriberLock\<close>, nobody else changes the subscribers.
\<close>

section \<open>A call of receivePacket, step by step\<close>

text \<open>
  Which \<open>readBytes\<close> the thread is in: that of the type, of the size (with the type as it lies in
  memory), or of the data (with the packet that it fills).
\<close>

datatype read_part = ReadType | ReadSize u32 | ReadData com_packet

datatype read_result =
    Continues read_part usize "byte list"
  | ReturnsFalse
  | ReturnsTrue com_packet

text \<open>
  One turn of the loop of \<open>readBytes\<close>, or what \<open>receivePacket\<close> does between two such loops: \<open>sz\<close>
  bytes are missing, \<open>buf\<close> is stored, \<open>err\<close> is the error flag. The result holds the new value
  of the flag.
\<close>

fun part_done :: "host_order \<Rightarrow> read_part \<Rightarrow> byte list \<Rightarrow> com_packet \<Rightarrow> read_result outcome" where
  "part_done h ReadType buf packet = Inr (Continues (ReadSize (load32 h buf)) 4 [])"
| "part_done h (ReadSize type) buf packet =
     bind_outcome (ComPacket_sized (ntohl h type) (to_int32 (uint (ntohl h (load32 h buf)))))
       (\<lambda>p. Inr (Continues (ReadData p) (getDataSize p) []))"
| "part_done h (ReadData p) buf packet =
     (let (_, packet') = ComPacket_swap (p\<lparr>m_data := buf @ drop (length buf) (m_data p)\<rparr>) packet
      in if getType packet' = InvalidPacket then Inl AssertionFailed else Inr (ReturnsTrue packet'))"

definition read_step ::
    "host_order \<Rightarrow> 'w abstract_reader \<Rightarrow> read_part \<Rightarrow> usize \<Rightarrow> byte list \<Rightarrow> com_packet \<Rightarrow> bool \<Rightarrow> 'w \<Rightarrow>
      (read_result \<times> bool \<times> 'w) outcome" where
  "read_step h R part sz buf packet err w =
     (if err then Inr (ReturnsFalse, True, w)
      else if 0 < sz then
        (let (n, bytes, w') = rd_read R sz w
         in if n < 0 then Inr (ReturnsFalse, True, w')
            else if int (unat sz) < n then Inl UndefinedBehaviour
            else Inr (Continues part (sz - word_of_int n) (buf @ take (nat n) bytes), False, w'))
      else bind_outcome (part_done h part buf packet) (\<lambda>r. Inr (r, False, w)))"

text \<open>What \<open>receiveHelloMessage\<close> does with a packet that it has received.\<close>

definition check_hello :: "com_packet \<Rightarrow> 'cb demuxer \<Rightarrow> (com_packet \<times> 'cb demuxer) outcome" where
  "check_hello packet d =
     (if getType packet = ControlPacket then
        let (sptr, moved) = ComPacket_move packet
        in bind_outcome (getControlMessage sptr)
             (\<lambda>msg. Inr (moved, if msg = Hello then d else signalTransportError d))
      else Inr (packet, signalTransportError d))"

section \<open>The threads\<close>

text \<open>
  Where the receive thread is inside the stretch that \<open>rs_pc\<close> names: at its start, in
  \<open>readBytes\<close>, calling callbacks with \<open>m_subscriberLock\<close> held (with the packet and the subscribers
  still to call), or in a callback that does not come back.
\<close>

datatype 'cb receive_at =
    Outside
  | Reading read_part usize "byte list"
  | Calling com_packet "'cb packet_subscriber list"
  | Stuck

record ('cb, 'w) receiver = "('cb, 'w) receive_system" +
  rs_at :: "'cb receive_at"

definition start_receiver :: "'cb demuxer \<Rightarrow> 'w \<Rightarrow> ('cb, 'w) receiver" where
  "start_receiver d w = receive_system.extend (start_receiving d w) (receiver.fields Outside)"

definition lock_held :: "('cb, 'w) receiver \<Rightarrow> bool" where
  "lock_held s \<longleftrightarrow> (case rs_at s of Calling _ _ \<Rightarrow> True | Stuck \<Rightarrow> True | _ \<Rightarrow> False)"

text \<open>
  When \<open>receivePacket\<close> has returned false, the thread goes to the head of the loop in any case.
  \<open>reenters\<close> tells which callbacks subscribe to, or unsubscribe from, the demuxer that calls them:
  the mutex is not recursive, and such a call waits for ever for the thread itself.
\<close>

inductive fine_receive_step ::
    "host_order \<Rightarrow> 'w abstract_reader \<Rightarrow> ('cb \<Rightarrow> bool) \<Rightarrow> ('cb, 'w) receiver \<Rightarrow> ('cb, 'w) receiver \<Rightarrow> bool"
  for h :: host_order and R :: "'w abstract_reader" and reenters :: "'cb \<Rightarrow> bool" where
  construction: "\<not> rs_constructed s \<Longrightarrow>
    fine_receive_step h R reenters s
      (s\<lparr>rs_world := rd_setBlocking R False (rs_world s), rs_constructed := True\<rparr>)"
| waits: "rs_at s = Outside \<Longrightarrow>
    rs_pc s = R_Handshake \<and> ms = 2000 \<or> rs_pc s = R_Loop \<and> \<not> dmx_transportError (rs_demuxer s) \<and> ms = 1000 \<Longrightarrow>
    rd_readyForReading R ms (rs_world s) = (ready, w') \<Longrightarrow>
    fine_receive_step h R reenters s
      (if ready then s\<lparr>rs_world := w', rs_at := Reading ReadType 4 []\<rparr> else s\<lparr>rs_world := w', rs_pc := R_Loop\<rparr>)"
| reads: "rs_at s = Reading part sz buf \<Longrightarrow>
    read_step h R part sz buf (rs_packet s) (dmx_transportError (rs_demuxer s)) (rs_world s) =
      Inr (Continues part' sz' buf', err, w') \<Longrightarrow>
    fine_receive_step h R reenters s (s\<lparr>rs_world := w', rs_at := Reading part' sz' buf'\<rparr>)"
| gives_up: "rs_at s = Reading part sz buf \<Longrightarrow> rs_pc s \<noteq> R_Aborted \<Longrightarrow>
    read_step h R part sz buf (rs_packet s) (dmx_transportError (rs_demuxer s)) (rs_world s) =
      Inr (ReturnsFalse, err, w') \<Longrightarrow>
    fine_receive_step h R reenters s (with_demuxer (signalTransportError (rs_demuxer s))
      (s\<lparr>rs_world := w', rs_at := Outside, rs_pc := R_Loop\<rparr>))"
| greets: "rs_at s = Reading part sz buf \<Longrightarrow> rs_pc s = R_Handshake \<Longrightarrow>
    read_step h R part sz buf (rs_packet s) (dmx_transportError (rs_demuxer s)) (rs_world s) =
      Inr (ReturnsTrue p, err, w') \<Longrightarrow> check_hello p (rs_demuxer s) = Inr (packet', d') \<Longrightarrow>
    fine_receive_step h R reenters s (with_demuxer d' (s\<lparr>rs_world := w', rs_at := Outside, rs_pc := R_Loop,
      rs_packet := packet', rs_taken := rs_taken s @ [p]\<rparr>))"
| receives: "rs_at s = Reading part sz buf \<Longrightarrow> rs_pc s = R_Loop \<Longrightarrow>
    read_step h R part sz buf (rs_packet s) (dmx_transportError (rs_demuxer s)) (rs_world s) =
      Inr (ReturnsTrue p, err, w') \<Longrightarrow>
    fine_receive_step h R reenters s (s\<lparr>rs_world := w', rs_at := Outside, rs_pc := R_Dispatch,
      rs_packet := p, rs_taken := rs_taken s @ [p]\<rparr>)"
| fails: "rs_at s = Reading part sz buf \<Longrightarrow>
    read_step h R part sz buf (rs_packet s) (dmx_transportError (rs_demuxer s)) (rs_world s) = Inl e \<or>
    rs_pc s = R_Handshake \<and> (\<exists>p err w'. read_step h R part sz buf (rs_packet s)
      (dmx_transportError (rs_demuxer s)) (rs_world s) = Inr (ReturnsTrue p, err, w') \<and>
      check_hello p (rs_demuxer s) = Inl e) \<Longrightarrow>
    fine_receive_step h R reenters s (s\<lparr>rs_pc := R_Aborted, rs_at := Outside\<rparr>)"
| handles: "rs_at s = Outside \<Longrightarrow> rs_pc s = R_Dispatch \<Longrightarrow> getType (rs_packet s) = ControlPacket \<Longrightarrow>
    ComPacket_move (rs_packet s) = (sptr, moved) \<Longrightarrow>
    fine_receive_step h R reenters s (with_demuxer (handleControlMessage sptr (rs_demuxer s))
      (s\<lparr>rs_pc := R_Loop, rs_packet := moved\<rparr>))"
| locks: "rs_at s = Outside \<Longrightarrow> rs_pc s = R_Dispatch \<Longrightarrow> getType (rs_packet s) \<noteq> ControlPacket \<Longrightarrow>
    ComPacket_move (rs_packet s) = (sptr, moved) \<Longrightarrow>
    queue = subscribers (rs_demuxer s) (getType (rs_packet s)) \<Longrightarrow>
    fine_receive_step h R reenters s
      (with_demuxer (set_subscribers (getType (rs_packet s)) queue (rs_demuxer s))
        (s\<lparr>rs_packet := moved, rs_at := Calling sptr queue\<rparr>))"
| calls: "rs_at s = Calling sptr (subscriber # queue) \<Longrightarrow>
    fine_receive_step h R reenters s
      (s\<lparr>rs_calls := rs_calls s @ [(sub_callback subscriber, sptr)],
        rs_at := if reenters (sub_callback subscriber) then Stuck else Calling sptr queue\<rparr>)"
| unlocks: "rs_at s = Calling sptr [] \<Longrightarrow> rs_pc s = R_Dispatch \<Longrightarrow>
    fine_receive_step h R reenters s (s\<lparr>rs_at := Outside, rs_pc := R_Loop\<rparr>)"
| returns: "rs_at s = Outside \<Longrightarrow> rs_pc s = R_Loop \<Longrightarrow> dmx_transportError (rs_demuxer s) \<Longrightarrow>
    fine_receive_step h R reenters s (s\<lparr>rs_pc := R_Exited\<rparr>)"
| uses: "rs_constructed s \<Longrightarrow> rs_dtor s \<noteq> D_Joined \<Longrightarrow> client_step (rs_client s) (Inr c') \<Longrightarrow>
    lock_held s \<longrightarrow> cl_demuxer c' = cl_demuxer (rs_client s) \<Longrightarrow>
    fine_receive_step h R reenters s (s\<lparr>rs_client := c'\<rparr>)"
| enters_dtor: "rs_constructed s \<Longrightarrow> rs_dtor s = D_None \<Longrightarrow>
    fine_receive_step h R reenters s (s\<lparr>rs_dtor := D_Entered\<rparr>)"
| destruction: "dtor_step s s' \<Longrightarrow> lock_held s \<longrightarrow> rs_dtor s \<noteq> D_Signalled \<Longrightarrow>
    fine_receive_step h R reenters s s'"

inductive fine_receiving ::
    "host_order \<Rightarrow> 'w abstract_reader \<Rightarrow> ('cb \<Rightarrow> bool) \<Rightarrow> 'cb demuxer \<Rightarrow> 'w \<Rightarrow> ('cb, 'w) receiver \<Rightarrow> bool"
  for h :: host_order and R :: "'w abstract_reader" and reenters :: "'cb \<Rightarrow> bool" and d0 :: "'cb demuxer" and w0 :: 'w
  where
  start: "fine_receiving h R reenters d0 w0 (start_receiver d0 w0)"
| step: "fine_receiving h R reenters d0 w0 s \<Longrightarrow> fine_receive_step h R reenters s s' \<Longrightarrow>
    fine_receiving h R reenters d0 w0 s'"

lemma start_receiver_simps [simp]:
  "rs_client (start_receiver d w) = \<lparr>cl_demuxer = d, cl_handles = []\<rparr>" "rs_world (start_receiver d w) = w"
  "rs_pc (start_receiver d w) = R_Handshake" "rs_packet (start_receiver d w) = ComPacket_default"
  "\<not> rs_constructed (start_receiver d w)" "rs_dtor (start_receiver d w) = D_None"
  "rs_taken (start_receiver d w) = []" "rs_calls (start_receiver d w) = []"
  "rs_at (start_receiver d w) = Outside" "rs_demuxer (start_receiver d w) = d"
  by (simp_all add: start_receiver_def start_receiving_def receive_system.defs receiver.defs rs_demuxer_def)

lemma rs_at_simps [simp]: "rs_at (with_demuxer d s) = rs_at s"
  by (simp add: with_demuxer_def)

lemma rs_demuxer_receiver [simp]:
  "rs_demuxer (s\<lparr>rs_at := a\<rparr>) = rs_demuxer s" "rs_demuxer (s\<lparr>rs_packet := p\<rparr>) = rs_demuxer s"
  "rs_demuxer (s\<lparr>rs_taken := ps\<rparr>) = rs_demuxer s" "rs_demuxer (s\<lparr>rs_calls := cs\<rparr>) = rs_demuxer s"
  by (simp_all add: rs_demuxer_def)

text \<open>The destructor touches nothing but its own progress, the flag and the warnings.\<close>

lemma dtor_step_frame:
  assumes "dtor_step s s'"
  shows "rs_world s' = rs_world s" "rs_taken s' = rs_taken s" "rs_calls s' = rs_calls s"
    "rs_packet s' = rs_packet s" "rs_constructed s' = rs_constructed s"
    "receive_system.more s' = receive_system.more s"
    "rs_demuxer s' = rs_demuxer s \<or> rs_demuxer s' = signalTransportError (rs_demuxer s)"
    "cl_handles (rs_client s') = cl_handles (rs_client s)"
    "rs_pc s' = rs_pc s \<or> rs_pc s' = R_Aborted"
  using assms by (induction rule: dtor_step.induct) (simp_all add: with_demuxer_def rs_demuxer_def)

lemma dtor_step_at: "dtor_step s s' \<Longrightarrow> rs_at s' = rs_at s"
  using dtor_step_frame(6) [of s s'] by (cases s; cases s') simp

section \<open>The stream\<close>

text \<open>The part of a packet that has been read.\<close>

fun partial :: "host_order \<Rightarrow> read_part \<Rightarrow> byte list \<Rightarrow> byte list" where
  "partial h ReadType buf = buf"
| "partial h (ReadSize type) buf = be32 (ntohl h type) @ buf"
| "partial h (ReadData p) buf = be32 (m_type p) @ be32 (of_nat (length (m_data p))) @ buf"

fun part_size :: "read_part \<Rightarrow> nat" where
  "part_size (ReadData p) = length (m_data p)"
| "part_size part = 4"

definition part_wf :: "read_part \<Rightarrow> usize \<Rightarrow> byte list \<Rightarrow> bool" where
  "part_wf part sz buf \<longleftrightarrow> part_size part < 2 ^ 31 \<and> length buf \<le> part_size part \<and>
     sz = of_nat (part_size part - length buf)"

lemma part_done_spec:
  assumes "part_done h part buf packet = r" "length buf = part_size part" "part_size part < 2 ^ 31"
  shows "case r of
      Inl e \<Rightarrow> (\<exists>rest. bad_header e (partial h part buf @ rest))
    | Inr (Continues part' sz buf') \<Rightarrow> part_wf part' sz buf' \<and> partial h part' buf' = partial h part buf
    | Inr ReturnsFalse \<Rightarrow> False
    | Inr (ReturnsTrue p) \<Rightarrow> partial h part buf = wire p \<and> receivable p"
proof (cases part)
  case ReadType
  with assms show ?thesis by (auto simp: part_wf_def ntohl_load32)
next
  case (ReadSize type)
  let ?n = "ntohl h (load32 h buf)"
  have buf: "be32 ?n = buf" using assms(2) ReadSize by (simp add: ntohl_load32)
  show ?thesis
  proof (cases "unat ?n < 2 ^ 31")
    case True
    then have "r = Inr (Continues (ReadData \<lparr>m_type = ntohl h type, m_data = replicate (unat ?n) 0\<rparr>) (of_nat (unat ?n)) [])"
      using assms(1) ReadSize by (simp add: header_packet getDataSize_def)
    then show ?thesis using ReadSize buf True by (simp add: part_wf_def)
  next
    case False
    then have "r = Inl LengthError" using assms(1) ReadSize by (simp add: header_packet)
    then show ?thesis using ReadSize buf False by (auto simp: bad_header_def intro!: exI [of _ ?n])
  qed
next
  case (ReadData p)
  then show ?thesis
    using assms by (auto simp: getType_def wire_def receivable_def bad_header_def Let_def)
qed

context byte_reader begin

lemma read_step_spec:
  assumes "read_step h R part sz buf packet err w = r" "part_wf part sz buf"
  shows "case r of
      Inl e \<Rightarrow> \<not> err \<and> (\<exists>rest. bad_header e (partial h part buf @ rest))
    | Inr (Continues part' sz' buf', err', w') \<Rightarrow> \<not> err \<and> part_wf part' sz' buf' \<and>
        (\<exists>bs. pending w = bs @ pending w' \<and> partial h part' buf' = partial h part buf @ bs)
    | Inr (ReturnsFalse, err', w') \<Rightarrow> \<exists>bs. pending w = bs @ pending w'
    | Inr (ReturnsTrue p, err', w') \<Rightarrow> \<not> err \<and> w' = w \<and> partial h part buf = wire p \<and> receivable p"
proof -
  have size: "part_size part < 2 ^ 31" "length buf \<le> part_size part" and sz: "sz = of_nat (part_size part - length buf)"
    using assms(2) by (simp_all add: part_wf_def)
  define k where "k = part_size part - length buf"
  then have "k < 2 ^ 64" using size(1) by simp
  then have "unat sz = k" "0 < sz \<longleftrightarrow> 0 < k" by (simp_all add: sz flip: k_def)
  then have u: "unat sz = part_size part - length buf" "0 < sz \<longleftrightarrow> length buf < part_size part"
    by (auto simp: k_def)
  consider (stopped) "err" | (reads) "\<not> err" "length buf < part_size part"
    | (whole) "\<not> err" "length buf = part_size part"
    using size(2) by linarith
  then show ?thesis
  proof cases
    case stopped
    with assms(1) show ?thesis by (auto simp: read_step_def)
  next
    case reads
    obtain n bytes w' where rd: "rd_read R sz w = (n, bytes, w')" by (metis prod_cases3)
    show ?thesis
    proof (cases "n < 0")
      case True
      with assms(1) reads u rd read_fail [OF rd] read_fail' [OF rd] show ?thesis
        by (auto simp: read_step_def)
    next
      case False
      then have n: "length bytes = nat n" "pending w = bytes @ pending w'" "nat n \<le> part_size part - length buf"
        using read_ok [OF rd] read_le_nat [OF rd] u(1) by auto
      have "r = Inr (Continues part (sz - word_of_int n) (buf @ bytes), False, w')"
        using assms(1) reads u rd False n(1) read_le [OF rd] by (simp add: read_step_def not_less)
      moreover have "sz - word_of_int n = of_nat (part_size part - length (buf @ bytes))"
        using usize_diff_of_int [OF n(3)] False n(1) by (simp add: sz)
      then have "part_wf part (sz - word_of_int n) (buf @ bytes)"
        using size n(1,3) by (simp add: part_wf_def)
      moreover have "partial h part (buf @ bytes) = partial h part buf @ bytes" by (cases part) simp_all
      ultimately show ?thesis using reads(1) n(2) by simp
    qed
  next
    case whole
    with assms(1) u have r: "r = bind_outcome (part_done h part buf packet) (\<lambda>r. Inr (r, False, w))"
      by (simp add: read_step_def)
    show ?thesis
      using part_done_spec [OF refl whole(2) size(1), of h packet] whole(1)
      by (cases "part_done h part buf packet") (auto simp: r split: read_result.splits)
  qed
qed

end

text \<open>
  What has been read is the wire form of the packets taken, and of a part of the next one; after
  an error, of anything.
\<close>

fun in_progress :: "host_order \<Rightarrow> ('cb, 'w) receiver \<Rightarrow> byte list" where
  "in_progress h s = (case rs_at s of Reading part _ buf \<Rightarrow> partial h part buf | _ \<Rightarrow> [])"

definition stream_inv ::
    "host_order \<Rightarrow> ('w \<Rightarrow> byte list) \<Rightarrow> byte list \<Rightarrow> ('cb, 'w) receiver \<Rightarrow> bool" where
  "stream_inv h pending stream s \<longleftrightarrow> (\<forall>p \<in> set (rs_taken s). receivable p) \<and>
     (\<forall>part sz buf. rs_at s = Reading part sz buf \<longrightarrow> part_wf part sz buf) \<and>
     (\<exists>junk. stream = concat (map wire (rs_taken s)) @ junk @ pending (rs_world s) \<and>
        (\<not> dmx_transportError (rs_demuxer s) \<and> rs_pc s \<noteq> R_Aborted \<longrightarrow> junk = in_progress h s))"

lemma check_hello_service:
  assumes "check_hello p d = Inr (packet', d')"
  shows "d' = d \<or> d' = signalTransportError d"
  using assms by (auto simp: check_hello_def outcome_eqs Let_def split: if_splits)

text \<open>What a step changes that neither reads nor sets the flag.\<close>

lemma stream_inv_cong:
  assumes "stream_inv h pending stream s" "rs_taken s' = rs_taken s" "rs_at s' = rs_at s \<or>
      (\<forall>part sz buf. rs_at s \<noteq> Reading part sz buf) \<and>
      (rs_at s' = Reading ReadType 4 [] \<or> (\<forall>part sz buf. rs_at s' \<noteq> Reading part sz buf))"
    "pending (rs_world s') = pending (rs_world s)"
    "dmx_transportError (rs_demuxer s) \<Longrightarrow> dmx_transportError (rs_demuxer s')"
    "rs_pc s = R_Aborted \<Longrightarrow> rs_pc s' = R_Aborted"
  shows "stream_inv h pending stream s'"
proof -
  have "in_progress h s' = in_progress h s" using assms(3) by (auto split: receive_at.split)
  moreover have "\<forall>part sz buf. rs_at s' = Reading part sz buf \<longrightarrow> part_wf part sz buf"
    using assms(1,3) by (auto simp: stream_inv_def part_wf_def)
  ultimately show ?thesis using assms unfolding stream_inv_def by auto
qed

context byte_reader begin

lemma fine_receive_step_inv:
  assumes "fine_receive_step h R reenters s s'" "stream_inv h pending stream s"
  shows "stream_inv h pending stream s'"
  using assms
proof (induction rule: fine_receive_step.induct)
  case (construction s)
  from construction.prems show ?case by (rule stream_inv_cong) (simp_all add: setBlocking_pending)
next
  case (waits s ms ready w')
  from waits.prems show ?case
    by (rule stream_inv_cong) (use waits.hyps ready_pending [OF waits.hyps(3)] in auto)
next
  case (reads s part sz buf part' sz' buf' err w')
  have "part_wf part sz buf" using reads.prems reads.hyps(1) by (simp add: stream_inv_def)
  from read_step_spec [OF reads.hyps(2) this] reads.prems reads.hyps(1) show ?case
    by (auto simp: stream_inv_def)
next
  case (gives_up s part sz buf err w')
  have "part_wf part sz buf" using gives_up.prems gives_up.hyps(1) by (simp add: stream_inv_def)
  from read_step_spec [OF gives_up.hyps(3) this] gives_up.prems show ?case
    by (auto simp: stream_inv_def)
next
  case (greets s part sz buf p err w' packet' d')
  have "part_wf part sz buf" using greets.prems greets.hyps(1) by (simp add: stream_inv_def)
  from read_step_spec [OF greets.hyps(3) this] greets.prems greets.hyps(1,2) show ?case
    by (auto simp: stream_inv_def)
next
  case (receives s part sz buf p err w')
  have "part_wf part sz buf" using receives.prems receives.hyps(1) by (simp add: stream_inv_def)
  from read_step_spec [OF receives.hyps(3) this] receives.prems receives.hyps(1,2) show ?case
    by (auto simp: stream_inv_def)
next
  case (fails s part sz buf e)
  then show ?case by (auto simp: stream_inv_def)
next
  case (locks s sptr moved queue)
  from locks.prems show ?case
    by (rule stream_inv_cong) (use locks.hyps in \<open>simp_all add: set_subscribers_def\<close>)
next
  case (uses s c')
  from uses.prems show ?case
    by (rule stream_inv_cong) (use client_step_error [OF uses.hyps(3) refl] in \<open>simp_all add: rs_demuxer_def\<close>)
next
  case (destruction s s')
  from destruction.prems show ?case
    by (rule stream_inv_cong) (use dtor_step_frame [OF destruction.hyps(1)] dtor_step_at [OF destruction.hyps(1)] in auto)
qed (erule stream_inv_cong; simp add: handleControlMessage_def)+

lemma fine_receiving_inv:
  "fine_receiving h R reenters d0 w0 s \<Longrightarrow> stream_inv h pending (pending w0) s"
proof (induction rule: fine_receiving.induct)
  case start
  show ?case by (simp add: stream_inv_def)
qed (rule fine_receive_step_inv)

end

section \<open>The mutex and the callbacks\<close>

text \<open>
  While callbacks are called, the subscribers of the packet's type are those called already, in
  order, followed by those still to call: the vector that the loop iterates over does not change.
\<close>

definition calls_inv :: "('cb, 'w) receiver \<Rightarrow> bool" where
  "calls_inv s \<longleftrightarrow>
     (\<forall>part sz buf. rs_at s = Reading part sz buf \<longrightarrow> rs_pc s \<in> {R_Handshake, R_Loop, R_Aborted}) \<and>
     (rs_pc s = R_Dispatch \<and> rs_at s = Outside \<longrightarrow> (\<exists>ps. rs_taken s = ps @ [rs_packet s])) \<and>
     (\<forall>sptr todo. rs_at s = Calling sptr todo \<longrightarrow> rs_pc s = R_Dispatch \<and> getType sptr \<noteq> ControlPacket \<and>
        (\<exists>ps. rs_taken s = ps @ [sptr]) \<and>
        (\<exists>called before. subscribers (rs_demuxer s) (getType sptr) = called @ todo \<and>
          rs_calls s = before @ map (\<lambda>x. (sub_callback x, sptr)) called)) \<and>
     (rs_at s = Stuck \<longrightarrow> rs_pc s = R_Dispatch)"

lemma client_subscribers_cong: "cl_demuxer c' = rs_demuxer s \<Longrightarrow> rs_demuxer (s\<lparr>rs_client := c'\<rparr>) = rs_demuxer s"
  by (simp add: rs_demuxer_def)

lemma dtor_step_pc:
  assumes "dtor_step s s'" "rs_dtor s \<noteq> D_Signalled"
  shows "rs_pc s' = rs_pc s"
  using assms by (induction rule: dtor_step.induct) simp_all

lemma fine_receive_step_calls_inv:
  assumes "fine_receive_step h R reenters s s'" "calls_inv s"
  shows "calls_inv s'"
  using assms
proof (induction rule: fine_receive_step.induct)
  case (waits s ms ready w')
  then show ?case by (auto simp: calls_inv_def)
next
  case (locks s sptr moved queue)
  then show ?case by (auto simp: calls_inv_def ComPacket_move_def)
next
  case (calls s sptr subscriber queue)
  then obtain called before where "subscribers (rs_demuxer s) (getType sptr) = called @ subscriber # queue"
    "rs_calls s = before @ map (\<lambda>x. (sub_callback x, sptr)) called"
    by (auto simp: calls_inv_def)
  then have "subscribers (rs_demuxer s) (getType sptr) = (called @ [subscriber]) @ queue"
    "rs_calls s @ [(sub_callback subscriber, sptr)] =
      before @ map (\<lambda>x. (sub_callback x, sptr)) (called @ [subscriber])"
    by simp_all
  with calls show ?case unfolding calls_inv_def by simp
next
  case (uses s c')
  then show ?case
    by (cases "lock_held s") (auto simp: calls_inv_def lock_held_def rs_demuxer_def)
next
  case (destruction s s')
  note frame = dtor_step_frame [OF destruction.hyps(1)] dtor_step_at [OF destruction.hyps(1)]
  show ?case
  proof (cases "lock_held s")
    case True
    with destruction.hyps have "rs_pc s' = rs_pc s" by (intro dtor_step_pc) simp_all
    moreover have "subscribers (rs_demuxer s') = subscribers (rs_demuxer s)" using frame(7) by auto
    ultimately show ?thesis using destruction.prems frame by (simp add: calls_inv_def)
  next
    case False
    then show ?thesis
      using destruction.prems frame by (auto simp: calls_inv_def lock_held_def split: receive_at.splits)
  qed
qed (auto simp: calls_inv_def)

lemma fine_receiving_calls_inv: "fine_receiving h R reenters d0 w0 s \<Longrightarrow> calls_inv s"
proof (induction rule: fine_receiving.induct)
  case start
  show ?case by (simp add: calls_inv_def)
qed (rule fine_receive_step_calls_inv)

lemma fine_receive_step_client:
  assumes "fine_receive_step h R reenters s s'" "client_inv (rs_client s)"
  shows "client_inv (rs_client s')"
  using assms
proof (induction rule: fine_receive_step.induct)
  case (greets s part sz buf p err w' packet' d')
  then show ?case
    using check_hello_service [OF greets.hyps(4)] client_inv_cong [of "rs_client s" d']
    by (auto simp: rs_demuxer_def)
next
  case (locks s sptr moved queue)
  then show ?case
    using set_subscribers_same [of "rs_demuxer s" "getType (rs_packet s)"]
      client_inv_cong [of "rs_client s" "set_subscribers (getType (rs_packet s)) queue (rs_demuxer s)"]
    by (simp add: rs_demuxer_def same_service_def)
next
  case (uses s c')
  then show ?case using client_step_inv [OF uses.hyps(3)] by auto
next
  case (destruction s s')
  from destruction.hyps(1) destruction.prems show ?case
    by (induction rule: dtor_step.induct) (simp_all add: rs_demuxer_def client_inv_cong)
qed (simp_all add: handleControlMessage_def rs_demuxer_def client_inv_cong)

lemma fine_receiving_client:
  assumes "fine_receiving h R reenters d0 w0 s" "PacketDemuxer_ctor names = Inr d0" "length names + 2 \<le> 2 ^ 32"
  shows "client_inv (rs_client s)"
  using assms(1)
proof (induction rule: fine_receiving.induct)
  case start
  show ?case using client_inv_start [OF assms(2,3)] by simp
qed (rule fine_receive_step_client)

text \<open>
  While callbacks are called for a packet, those called and those to call are the subscribers of the
  live objects of its type; the mutex is unlocked after the last.
\<close>

lemma calling_all:
  assumes "calls_inv s" "client_inv (rs_client s)" "rs_at s = Calling p todo"
  shows "\<exists>called before.
    mset (called @ todo) = filter_mset (\<lambda>b. sub_type b = m_type p) (mset (held (cl_handles (rs_client s)))) \<and>
    rs_calls s = before @ map (\<lambda>x. (sub_callback x, p)) called"
proof -
  obtain called before where "subscribers (rs_demuxer s) (m_type p) = called @ todo"
    "rs_calls s = before @ map (\<lambda>x. (sub_callback x, p)) called"
    using assms(1,3) by (auto simp: calls_inv_def getType_def)
  moreover have "mset (subscribers (rs_demuxer s) (m_type p)) =
      filter_mset (\<lambda>b. sub_type b = m_type p) (mset (held (cl_handles (rs_client s))))"
    using assms(2) by (simp add: client_inv_def registered_def rs_demuxer_def)
  ultimately show ?thesis by metis
qed

lemma calling_until_done:
  assumes "fine_receive_step h R reenters s s'" "rs_at s = Calling p todo"
  shows "rs_at s' = Outside \<longrightarrow> todo = []"
  using assms by (cases rule: fine_receive_step.cases) (auto dest: dtor_step_at)

text \<open>A callback is called only while the object that holds its subscriber is alive.\<close>

lemma fine_step_calls:
  assumes "fine_receive_step h R reenters s s'" "rs_calls s' \<noteq> rs_calls s" "calls_inv s" "client_inv (rs_client s)"
  obtains x p where "x \<in> set (held (cl_handles (rs_client s)))" "sub_type x = m_type p"
    "rs_calls s' = rs_calls s @ [(sub_callback x, p)]" "\<exists>ps. rs_taken s = ps @ [p]" "lock_held s"
  using assms(1)
proof (cases rule: fine_receive_step.cases)
  case (calls sptr x queue)
  then have x: "x \<in> set (subscribers (rs_demuxer s) (m_type sptr))" and "\<exists>ps. rs_taken s = ps @ [sptr]"
    using assms(3) by (auto simp: calls_inv_def getType_def)
  moreover have "x \<in># registered (rs_demuxer s) (m_type sptr)" using x by (simp add: registered_in)
  then have "x \<in> set (held (cl_handles (rs_client s)))" "sub_type x = m_type sptr"
    using assms(4) by (simp_all add: client_inv_def rs_demuxer_def)
  ultimately show thesis using calls by (intro that [of x sptr]) (simp_all add: lock_held_def)
next
  case destruction
  then show thesis using assms(2) dtor_step_frame(3) by metis
qed (use assms(2) in \<open>auto split: if_splits\<close>)

text \<open>
  A callback that subscribes to, or unsubscribes from, its own demuxer stops the receive thread for
  good, with the mutex locked: no more packets, callbacks or changes of the subscribers, and no
  end of the destructor.
\<close>

lemma lock_keeps_subscribers:
  assumes "fine_receive_step h R reenters s s'" "lock_held s"
  shows "subscribers (rs_demuxer s') = subscribers (rs_demuxer s)"
  using assms
proof (cases rule: fine_receive_step.cases)
  case (uses c')
  with assms(2) show ?thesis by (simp add: rs_demuxer_def)
next
  case destruction
  then show ?thesis using dtor_step_frame(7) by (metis signal_service(1))
qed (auto simp: lock_held_def)

lemma joined_exited:
  assumes "fine_receiving h R reenters d0 w0 s"
  shows "rs_dtor s = D_Joined \<longrightarrow> rs_pc s = R_Exited"
  using assms
proof (induction rule: fine_receiving.induct)
  case (step s s')
  note inv = fine_receiving_calls_inv [OF step.hyps(1)]
  from step.hyps(2) step.IH inv show ?case
  proof (cases rule: fine_receive_step.cases)
    case destruction
    then show ?thesis using step.IH by (auto elim!: dtor_step.cases)
  qed (auto simp: calls_inv_def)
qed simp

lemma stuck_step:
  assumes "fine_receive_step h R reenters s s'" "rs_at s = Stuck" "rs_pc s = R_Dispatch" "rs_dtor s \<noteq> D_Joined"
  shows "rs_at s' = Stuck \<and> rs_pc s' = R_Dispatch \<and> rs_dtor s' \<noteq> D_Joined \<and> rs_calls s' = rs_calls s \<and>
    rs_taken s' = rs_taken s \<and> subscribers (rs_demuxer s') = subscribers (rs_demuxer s)"
  using assms
proof (cases rule: fine_receive_step.cases)
  case (uses c')
  with assms show ?thesis by (simp add: lock_held_def rs_demuxer_def)
next
  case destruction
  have "lock_held s" using assms(2) by (simp add: lock_held_def)
  then have pc: "rs_pc s' = rs_pc s" by (intro dtor_step_pc destruction) (use destruction in simp)
  from destruction(1) assms(3,4) have "rs_dtor s' \<noteq> D_Joined" by (auto elim!: dtor_step.cases)
  moreover have "subscribers (rs_demuxer s') = subscribers (rs_demuxer s)"
    using dtor_step_frame(7) [OF destruction(1)] by auto
  ultimately show ?thesis
    using assms pc dtor_step_frame [OF destruction(1)] dtor_step_at [OF destruction(1)] by simp
qed auto

lemma stuck_forever:
  assumes "(fine_receive_step h R reenters)\<^sup>*\<^sup>* s s'" "rs_at s = Stuck" "rs_pc s = R_Dispatch" "rs_dtor s \<noteq> D_Joined"
  shows "rs_at s' = Stuck \<and> rs_pc s' = R_Dispatch \<and> rs_dtor s' \<noteq> D_Joined \<and> rs_calls s' = rs_calls s \<and>
    rs_taken s' = rs_taken s \<and> subscribers (rs_demuxer s') = subscribers (rs_demuxer s)"
  using assms
proof (induction rule: rtranclp_induct)
  case (step s1 s2)
  then show ?case using stuck_step [OF step.hyps(2)] by simp
qed simp

lemma stuck_after_call:
  assumes "fine_receiving h R reenters d0 w0 s" "fine_receive_step h R reenters s s'"
    "rs_calls s' = rs_calls s @ [(cb, p)]" "reenters cb"
  shows "rs_at s' = Stuck" "rs_pc s' = R_Dispatch" "rs_dtor s' \<noteq> D_Joined"
proof -
  have "rs_at s' = Stuck \<and> rs_pc s' = R_Dispatch \<and> rs_dtor s' \<noteq> D_Joined"
    using assms(2)
  proof (cases rule: fine_receive_step.cases)
    case (calls sptr x queue)
    then have "rs_pc s = R_Dispatch" using fine_receiving_calls_inv [OF assms(1)] by (auto simp: calls_inv_def)
    with calls assms(3,4) joined_exited [OF assms(1)] show ?thesis by auto
  next
    case destruction
    then show ?thesis using dtor_step_frame(3) assms(3) by fastforce
  qed (use assms(3) in \<open>auto split: if_splits\<close>)
  then show "rs_at s' = Stuck" "rs_pc s' = R_Dispatch" "rs_dtor s' \<noteq> D_Joined" by simp_all
qed

section \<open>The end of the thread\<close>

text \<open>Where callbacks do not re-enter the demuxer, the mutex is always released again.\<close>

lemma fine_reached: "(fine_receive_step h R reenters)\<^sup>*\<^sup>* s s1 \<Longrightarrow> \<exists>s'. (fine_receive_step h R reenters)\<^sup>*\<^sup>* s1 s' \<and> Q s' \<Longrightarrow>
    \<exists>s'. (fine_receive_step h R reenters)\<^sup>*\<^sup>* s s' \<and> Q s'"
  by (meson rtranclp_trans)

lemma fine_reached_step: "fine_receive_step h R reenters s s1 \<Longrightarrow> \<exists>s'. (fine_receive_step h R reenters)\<^sup>*\<^sup>* s1 s' \<and> Q s' \<Longrightarrow>
    \<exists>s'. (fine_receive_step h R reenters)\<^sup>*\<^sup>* s s' \<and> Q s'"
  by (meson converse_rtranclp_into_rtranclp)

lemma never_stuck: "fine_receiving h R reenters d0 w0 s \<Longrightarrow> \<forall>cb. \<not> reenters cb \<Longrightarrow> rs_at s \<noteq> Stuck"
proof (induction rule: fine_receiving.induct)
  case (step s s')
  from step.hyps(2) step.IH step.prems show ?case
    by (cases rule: fine_receive_step.cases) (auto dest: dtor_step_at)
qed simp

lemma calling_ends:
  assumes "rs_at s = Calling sptr todo" "rs_pc s = R_Dispatch" "\<forall>x \<in> set todo. \<not> reenters (sub_callback x)"
  shows "(fine_receive_step h R reenters)\<^sup>*\<^sup>* s (s\<lparr>rs_calls := rs_calls s @ map (\<lambda>x. (sub_callback x, sptr)) todo,
    rs_at := Outside, rs_pc := R_Loop\<rparr>)"
  using assms
proof (induction todo arbitrary: s)
  case Nil
  from unlocks [OF Nil.prems(1,2), of h R reenters] show ?case by simp
next
  case (Cons x todo)
  let ?s1 = "s\<lparr>rs_calls := rs_calls s @ [(sub_callback x, sptr)], rs_at := Calling sptr todo\<rparr>"
  have "fine_receive_step h R reenters s ?s1"
    using calls [OF Cons.prems(1), of h R reenters] Cons.prems(3) by simp
  moreover have "(fine_receive_step h R reenters)\<^sup>*\<^sup>* ?s1 (?s1\<lparr>rs_calls := rs_calls ?s1 @ map (\<lambda>x. (sub_callback x, sptr)) todo,
      rs_at := Outside, rs_pc := R_Loop\<rparr>)"
    using Cons.prems by (intro Cons.IH) simp_all
  ultimately show ?case by (simp add: converse_rtranclp_into_rtranclp)
qed

lemma lock_released:
  assumes "calls_inv s" "rs_at s \<noteq> Stuck" "\<forall>cb. \<not> reenters cb"
  obtains s' where "(fine_receive_step h R reenters)\<^sup>*\<^sup>* s s'" "\<not> lock_held s'" "rs_client s' = rs_client s"
    "rs_dtor s' = rs_dtor s" "rs_warnings s' = rs_warnings s" "rs_pc s = R_Aborted \<longleftrightarrow> rs_pc s' = R_Aborted"
proof (cases "rs_at s")
  case (Calling sptr todo)
  then have pc: "rs_pc s = R_Dispatch" using assms(1) by (auto simp: calls_inv_def)
  from that [OF calling_ends [OF Calling pc]] assms(3) pc show thesis by (simp add: lock_held_def)
qed (use that [of s] assms(2) in \<open>auto simp: lock_held_def\<close>)

lemma fine_thread_exits:
  assumes "calls_inv s" "dmx_transportError (rs_demuxer s)" "rs_pc s \<noteq> R_Aborted" "rs_at s \<noteq> Stuck"
    "\<forall>cb. \<not> reenters cb"
  shows "\<exists>s'. (fine_receive_step h R reenters)\<^sup>*\<^sup>* s s' \<and> rs_pc s' = R_Exited \<and> rs_dtor s' = rs_dtor s \<and>
    rs_warnings s' = rs_warnings s"
proof -
  let ?ends = "\<lambda>s1. \<exists>s'. (fine_receive_step h R reenters)\<^sup>*\<^sup>* s1 s' \<and> rs_pc s' = R_Exited \<and>
    rs_dtor s' = rs_dtor s \<and> rs_warnings s' = rs_warnings s"
  have loop: "?ends s1" if "rs_pc s1 = R_Loop" "rs_at s1 = Outside" "dmx_transportError (rs_demuxer s1)"
    "rs_dtor s1 = rs_dtor s" "rs_warnings s1 = rs_warnings s" for s1
    by (rule fine_reached_step [OF returns [OF that(2,1,3)]]) (use that in auto)
  have reading: "?ends s1" if "rs_at s1 = Reading part sz buf" "rs_pc s1 \<noteq> R_Aborted"
    "dmx_transportError (rs_demuxer s1)" "rs_dtor s1 = rs_dtor s" "rs_warnings s1 = rs_warnings s" for s1 part sz buf
  proof -
    have "read_step h R part sz buf (rs_packet s1) (dmx_transportError (rs_demuxer s1)) (rs_world s1) =
        Inr (ReturnsFalse, True, rs_world s1)"
      using that(3) by (simp add: read_step_def)
    from gives_up [OF that(1,2) this] show ?thesis
      by (rule fine_reached_step) (use that in \<open>auto intro!: loop\<close>)
  qed
  show ?thesis
  proof (cases "rs_at s")
    case Outside
    note out = this
    show ?thesis
    proof (cases "rs_pc s")
      case R_Handshake
      then have at: "rs_pc s = R_Handshake \<and> 2000 = (2000 :: int) \<or>
        rs_pc s = R_Loop \<and> \<not> dmx_transportError (rs_demuxer s) \<and> 2000 = (1000 :: int)" by simp
      obtain ready w' where rdy: "rd_readyForReading R 2000 (rs_world s) = (ready, w')" by fastforce
      show ?thesis
      proof (rule fine_reached_step [OF waits [OF out at rdy]], cases ready)
        case True
        then show "?ends (if ready then s\<lparr>rs_world := w', rs_at := Reading ReadType 4 []\<rparr>
            else s\<lparr>rs_world := w', rs_pc := R_Loop\<rparr>)"
          by (simp, intro reading) (use assms(2) R_Handshake in simp_all)
      next
        case False
        then show "?ends (if ready then s\<lparr>rs_world := w', rs_at := Reading ReadType 4 []\<rparr>
            else s\<lparr>rs_world := w', rs_pc := R_Loop\<rparr>)"
          by (simp, intro loop) (use assms(2) out in simp_all)
      qed
    next
      case R_Loop
      with out assms(2) show ?thesis by (intro loop) simp_all
    next
      case R_Dispatch
      obtain sptr moved where mv: "ComPacket_move (rs_packet s) = (sptr, moved)" by fastforce
      show ?thesis
      proof (cases "getType (rs_packet s) = ControlPacket")
        case True
        from handles [OF out R_Dispatch this mv] show ?thesis
          by (rule fine_reached_step) (use assms(2) out in \<open>auto simp: handleControlMessage_def intro!: loop\<close>)
      next
        case False
        let ?q = "subscribers (rs_demuxer s) (getType (rs_packet s))"
        note lock = locks [OF out R_Dispatch False mv refl, of h R reenters]
        show ?thesis
          by (rule fine_reached_step [OF lock], rule fine_reached [OF calling_ends [where sptr = sptr and todo = ?q]])
            (use assms(2,5) R_Dispatch in \<open>auto simp: set_subscribers_def intro!: loop\<close>)
      qed
    qed (use assms(3) in auto)
  next
    case (Calling sptr todo)
    then have pc: "rs_pc s = R_Dispatch" using assms(1) by (auto simp: calls_inv_def)
    show ?thesis
      by (rule fine_reached [OF calling_ends [OF Calling pc]]) (use assms in \<open>auto intro!: loop\<close>)
  qed (use assms in \<open>auto intro: reading\<close>)
qed

text \<open>From the moment the destructor is entered, there is a way to its end.\<close>

lemma fine_receive_step_flag: "fine_receive_step h R reenters s s' \<Longrightarrow> flag_inv s \<Longrightarrow> flag_inv s'"
proof (induction rule: fine_receive_step.induct)
  case (greets s part sz buf p err w' packet' d')
  then show ?case using check_hello_service [OF greets.hyps(4)] by (auto simp: flag_inv_def)
next
  case (uses s c')
  then show ?case using client_step_error [OF uses.hyps(3) refl] by (auto simp: flag_inv_def rs_demuxer_def)
next
  case (destruction s s')
  from destruction.hyps(1) destruction.prems show ?case
    by (induction rule: dtor_step.induct) (auto simp: flag_inv_def)
qed (auto simp: flag_inv_def handleControlMessage_def set_subscribers_def)

lemma fine_receiving_flag: "fine_receiving h R reenters d0 w0 s \<Longrightarrow> flag_inv s"
proof (induction rule: fine_receiving.induct)
  case start
  show ?case by (simp add: flag_inv_def)
qed (rule fine_receive_step_flag)

lemma fine_joins:
  assumes "calls_inv s" "dmx_transportError (rs_demuxer s)" "rs_dtor s = D_Warned" "rs_pc s \<noteq> R_Aborted"
    "rs_at s \<noteq> Stuck" "\<forall>cb. \<not> reenters cb"
  shows "\<exists>s'. (fine_receive_step h R reenters)\<^sup>*\<^sup>* s s' \<and> rs_dtor s' = D_Joined"
proof -
  obtain s1 where s1: "(fine_receive_step h R reenters)\<^sup>*\<^sup>* s s1" "rs_pc s1 = R_Exited" "rs_dtor s1 = D_Warned"
    using fine_thread_exits [OF assms(1,2,4-6), of h R] assms(3) by auto
  have "fine_receive_step h R reenters s1 (s1\<lparr>rs_dtor := D_Joined\<rparr>)"
    by (rule destruction [OF joins [OF s1(3,2)]]) (simp add: s1(3))
  with s1(1) have "(fine_receive_step h R reenters)\<^sup>*\<^sup>* s (s1\<lparr>rs_dtor := D_Joined\<rparr>)" by simp
  then show ?thesis by (intro exI conjI) (assumption, simp)
qed

lemma fine_warns:
  assumes "calls_inv s" "client_inv (rs_client s)" "dmx_transportError (rs_demuxer s)" "rs_dtor s = D_Signalled"
    "rs_pc s \<noteq> R_Aborted" "rs_at s \<noteq> Stuck" "\<forall>cb. \<not> reenters cb"
  shows "\<exists>s'. (fine_receive_step h R reenters)\<^sup>*\<^sup>* s s' \<and> rs_dtor s' = D_Joined"
proof -
  obtain s1 where s1: "(fine_receive_step h R reenters)\<^sup>*\<^sup>* s s1" "\<not> lock_held s1" "rs_client s1 = rs_client s"
    "rs_dtor s1 = D_Signalled" "rs_pc s1 \<noteq> R_Aborted"
    using lock_released [OF assms(1,6,7)] assms(4,5) by metis
  have inv: "calls_inv s1"
    using s1(1) assms(1) by (induction rule: rtranclp_induct) (auto dest: fine_receive_step_calls_inv)
  have d: "rs_demuxer s1 = rs_demuxer s" using s1(3) by (simp add: rs_demuxer_def)
  obtain ts where ts: "set ts = dom (dmx_subscribers (rs_demuxer s1))" "distinct ts"
    using finite_distinct_list [of "dom (dmx_subscribers (rs_demuxer s1))"] by auto
  obtain ws where ws: "warnAboutSubscribers ts (rs_demuxer s1) = Inr ws"
    using warnings_total [of "rs_demuxer s1"] assms(2) by (auto simp: client_inv_def rs_demuxer_def s1(3))
  let ?s2 = "s1\<lparr>rs_dtor := D_Warned, rs_warnings := ws\<rparr>"
  have "fine_receive_step h R reenters s1 ?s2"
    by (rule destruction [OF warns [OF s1(4) ts ws]]) (simp add: s1(2))
  moreover have "calls_inv ?s2" using fine_receive_step_calls_inv [OF calculation inv] .
  then have "\<exists>s'. (fine_receive_step h R reenters)\<^sup>*\<^sup>* ?s2 s' \<and> rs_dtor s' = D_Joined"
    using s1 assms(3,7) d by (intro fine_joins) (auto simp: lock_held_def)
  ultimately have "\<exists>s'. (fine_receive_step h R reenters)\<^sup>*\<^sup>* s1 s' \<and> rs_dtor s' = D_Joined"
    by (rule fine_reached_step)
  with s1(1) show ?thesis by (rule fine_reached)
qed

lemma fine_destructor_completes:
  assumes "calls_inv s" "client_inv (rs_client s)" "flag_inv s" "rs_dtor s \<noteq> D_None"
    "rs_pc s \<noteq> R_Aborted" "rs_at s \<noteq> Stuck" "\<forall>cb. \<not> reenters cb"
  shows "\<exists>s'. (fine_receive_step h R reenters)\<^sup>*\<^sup>* s s' \<and> rs_dtor s' = D_Joined"
proof (cases "rs_dtor s")
  case D_Entered
  let ?s1 = "with_demuxer (signalTransportError (rs_demuxer s)) (s\<lparr>rs_dtor := D_Signalled\<rparr>)"
  have step: "fine_receive_step h R reenters s ?s1"
    by (rule destruction [OF signals [OF D_Entered]]) (simp add: D_Entered)
  have "\<exists>s'. (fine_receive_step h R reenters)\<^sup>*\<^sup>* ?s1 s' \<and> rs_dtor s' = D_Joined"
    using fine_receive_step_calls_inv [OF step assms(1)] fine_receive_step_client [OF step assms(2)] assms(5-7)
    by (intro fine_warns) simp_all
  with step show ?thesis by (rule fine_reached_step)
qed (use assms fine_warns fine_joins in \<open>auto simp: flag_inv_def\<close>)

end
