(* ===== verification/Connection.thy ===== *)
theory Connection
  imports SendSteps ReceiveSteps
begin

text \<open>
  A connection: the threads of a muxer at one end and those of a demuxer at the other, in any
  interleaving, over a transport that delivers the bytes in order and not before they are
  sent. It refines a channel that is a queue of packets for each type, whether a pass of the send
  thread and a call of \<open>receivePacket\<close> are one step each or one step for each call to the transport:
  then packets are received while the send thread is still writing others.
\<close>

section \<open>The channel\<close>

text \<open>
  The abstract specification: a packet that is posted is put at the end of the queue of its type;
  only the packet at the front of a queue can be taken.
\<close>

datatype channel_event = Posted com_packet | Taken com_packet

type_synonym channel = "u32 \<Rightarrow> com_packet list"

fun channel_run :: "channel_event list \<Rightarrow> channel \<Rightarrow> channel option" where
  "channel_run [] c = Some c"
| "channel_run (Posted p # es) c = channel_run es (c(m_type p := c (m_type p) @ [p]))"
| "channel_run (Taken p # es) c =
     (case c (m_type p) of
        [] \<Rightarrow> None
      | q # qs \<Rightarrow> if q = p then channel_run es (c(m_type p := qs)) else None)"

fun posted_in :: "channel_event list \<Rightarrow> com_packet list" where
  "posted_in [] = []"
| "posted_in (Posted p # es) = p # posted_in es"
| "posted_in (Taken p # es) = posted_in es"

fun taken_in :: "channel_event list \<Rightarrow> com_packet list" where
  "taken_in [] = []"
| "taken_in (Posted p # es) = taken_in es"
| "taken_in (Taken p # es) = p # taken_in es"

lemma channel_run_append:
  "channel_run (es @ fs) c = (case channel_run es c of None \<Rightarrow> None | Some c' \<Rightarrow> channel_run fs c')"
proof (induction es arbitrary: c)
  case (Cons e es)
  then show ?case by (cases e) (simp_all split: list.split del: fun_upd_apply)
qed simp

lemma events_append [simp]:
  "posted_in (es @ fs) = posted_in es @ posted_in fs" "taken_in (es @ fs) = taken_in es @ taken_in fs"
  by (induction es rule: posted_in.induct) simp_all

lemma channel_run_posts:
  "\<exists>c'. channel_run (map Posted ps) c = Some c' \<and> (\<forall>t. c' t = c t @ of_type t ps)"
proof (induction ps arbitrary: c)
  case (Cons p ps)
  obtain c' where c': "channel_run (map Posted ps) (c(m_type p := c (m_type p) @ [p])) = Some c'"
    "\<forall>t. c' t = (c(m_type p := c (m_type p) @ [p])) t @ of_type t ps"
    using Cons.IH by blast
  show ?case
  proof (intro exI conjI allI)
    show "channel_run (map Posted (p # ps)) c = Some c'" using c'(1) by simp
    show "c' t = c t @ of_type t (p # ps)" for t using c'(2) by (simp add: of_type_Cons)
  qed
qed simp

lemma events_map [simp]:
  "posted_in (map Posted ps) = ps" "taken_in (map Posted ps) = []"
  by (induction ps) simp_all

fun_cases channel_run_TakenE: "channel_run (Taken p # es) c = Some c'"

text \<open>What the channel promises: within a type, what is taken followed by what is left is what was posted.\<close>

lemma channel_fifo:
  "channel_run es c = Some c' \<Longrightarrow> c t @ of_type t (posted_in es) = of_type t (taken_in es) @ c' t"
proof (induction es arbitrary: c)
  case (Cons e es)
  show ?case
  proof (cases e)
    case (Posted p)
    with Cons.prems have "channel_run es (c(m_type p := c (m_type p) @ [p])) = Some c'" by simp
    from Cons.IH [OF this] Posted show ?thesis by (simp add: of_type_Cons split: if_splits)
  next
    case (Taken p)
    from Cons.prems [unfolded Taken] obtain qs where
      "c (m_type p) = p # qs" "channel_run es (c(m_type p := qs)) = Some c'"
      by (elim channel_run_TakenE) (auto split: list.splits if_splits)
    from Cons.IH [OF this(2)] this(1) Taken show ?thesis
      by (auto simp: of_type_Cons split: if_splits)
  qed
qed simp

lemma channel_run_takes:
  "(\<And>t. c t = of_type t ps @ c' t) \<Longrightarrow> channel_run (map Taken ps) c = Some c'"
proof (induction ps arbitrary: c)
  case Nil
  then show ?case by auto
next
  case (Cons p ps)
  have "c (m_type p) = p # of_type (m_type p) ps @ c' (m_type p)"
    using Cons.prems [of "m_type p"] by (simp add: of_type_Cons)
  moreover have "channel_run (map Taken ps) (c(m_type p := of_type (m_type p) ps @ c' (m_type p))) = Some c'"
    using Cons.prems by (intro Cons.IH) (simp add: of_type_Cons)
  ultimately show ?case by (simp del: fun_upd_apply)
qed

lemma events_takes [simp]:
  "posted_in (map Taken ps) = []" "taken_in (map Taken ps) = ps"
  by (induction ps) simp_all

section \<open>Two ends and what is between them\<close>

text \<open>
  Steps of a sender and of a receiver in any order; \<open>delivers s r\<close> says that the transport can have
  brought the receiver to \<open>r\<close> when the sender is at \<open>s\<close>.
\<close>

inductive linked ::
    "('s \<Rightarrow> 's \<Rightarrow> bool) \<Rightarrow> ('r \<Rightarrow> 'r \<Rightarrow> bool) \<Rightarrow> ('s \<Rightarrow> 'r \<Rightarrow> bool) \<Rightarrow> 's \<Rightarrow> 'r \<Rightarrow> 's \<Rightarrow> 'r \<Rightarrow> bool"
  for send :: "'s \<Rightarrow> 's \<Rightarrow> bool" and receive :: "'r \<Rightarrow> 'r \<Rightarrow> bool" and delivers :: "'s \<Rightarrow> 'r \<Rightarrow> bool"
    and s0 :: 's and r0 :: 'r where
  opened: "linked send receive delivers s0 r0 s0 r0"
| sends: "linked send receive delivers s0 r0 s r \<Longrightarrow> send s s' \<Longrightarrow> linked send receive delivers s0 r0 s' r"
| receives: "linked send receive delivers s0 r0 s r \<Longrightarrow> receive r r' \<Longrightarrow> delivers s r' \<Longrightarrow>
    linked send receive delivers s0 r0 s r'"

lemma linked_ends:
  assumes "linked send receive delivers s0 r0 s r"
  shows "send\<^sup>*\<^sup>* s0 s" and "receive\<^sup>*\<^sup>* r0 r"
  using assms by (induction rule: linked.induct) auto

lemma linked_sending: "send\<^sup>*\<^sup>* s0 s \<Longrightarrow> linked send receive delivers s0 r0 s r0"
  by (induction rule: rtranclp_induct) (auto intro: linked.intros)

lemma linked_receiving:
  assumes "receive\<^sup>*\<^sup>* r r'" "linked send receive delivers s0 r0 s r"
    and "\<And>r'. receive\<^sup>*\<^sup>* r0 r' \<Longrightarrow> delivers s r'"
  shows "linked send receive delivers s0 r0 s r'"
  using assms(1,2)
proof (induction rule: rtranclp_induct)
  case (step r1 r2)
  have "receive\<^sup>*\<^sup>* r0 r2" using linked_ends(2) [OF step.IH [OF step.prems]] step.hyps(2) by simp
  with step assms(3) show ?case by (blast intro: linked.receives)
qed

text \<open>It is enough that the last state of the receiver can be reached now, when so can all earlier ones.\<close>

lemma linked_receiving_back:
  assumes "receive\<^sup>*\<^sup>* r0 r" "linked send receive delivers s0 r0 s r0" "delivers s r"
    and "\<And>r r'. receive\<^sup>*\<^sup>* r0 r \<Longrightarrow> receive r r' \<Longrightarrow> delivers s r' \<Longrightarrow> delivers s r"
  shows "linked send receive delivers s0 r0 s r"
  using assms(1,3)
proof (induction rule: rtranclp_induct)
  case (step r1 r2)
  then show ?case using assms(4) by (blast intro: linked.receives)
qed (rule assms(2))

text \<open>What is in flight, when \<open>ps\<close> are posted and \<open>qs\<close> are taken.\<close>

definition not_taken :: "com_packet list \<Rightarrow> com_packet list \<Rightarrow> channel" where
  "not_taken ps qs = (\<lambda>t. drop (length (of_type t qs)) (of_type t ps))"

lemma wire_prefix:
  assumes "prefix (concat (map wire ps)) (concat (map wire qs))"
    "\<forall>p \<in> set ps \<union> set qs. length (m_data p) < 2 ^ 32"
  shows "prefix ps qs"
  using assms
proof (induction ps arbitrary: qs)
  case (Cons p ps)
  obtain q qs' where qs: "qs = q # qs'"
    using Cons.prems(1) by (cases qs) (auto simp: wire_def be32_def)
  obtain rest where "wire q @ concat (map wire qs') = wire p @ concat (map wire ps) @ rest"
    using Cons.prems(1) by (auto simp: qs prefix_def)
  then have "q = p" "concat (map wire qs') = concat (map wire ps) @ rest"
    using Cons.prems(2) wire_inject [of q p] by (auto simp: qs)
  then show ?case using Cons.IH [of qs'] Cons.prems(2) by (simp add: qs prefix_def)
qed simp

text \<open>
  The interface. The sender posts packets and has given some of them to the transport, the first
  ones of each type; while it has not failed, the bytes of the packets that the receiver has
  taken are the first ones of those given.
\<close>

locale packet_link =
  fixes send :: "'s \<Rightarrow> 's \<Rightarrow> bool" and receive :: "'r \<Rightarrow> 'r \<Rightarrow> bool" and delivers :: "'s \<Rightarrow> 'r \<Rightarrow> bool"
    and s0 :: 's and r0 :: 'r and failed :: "'s \<Rightarrow> bool" and posted_by :: "'s \<Rightarrow> com_packet list"
    and given_by :: "'s \<Rightarrow> com_packet list" and taken_by :: "'r \<Rightarrow> com_packet list"
  assumes start: "posted_by s0 = []" "taken_by r0 = []" "delivers s0 r0"
    and posts: "send\<^sup>*\<^sup>* s0 s \<Longrightarrow> send s s' \<Longrightarrow> \<exists>ps. posted_by s' = posted_by s @ ps"
    and failed: "send\<^sup>*\<^sup>* s0 s \<Longrightarrow> send s s' \<Longrightarrow> \<not> failed s' \<Longrightarrow> \<not> failed s"
    and delivers: "send\<^sup>*\<^sup>* s0 s \<Longrightarrow> send s s' \<Longrightarrow> \<not> failed s' \<Longrightarrow> delivers s r \<Longrightarrow> delivers s' r"
    and takes: "receive r r' \<Longrightarrow> \<exists>ps. taken_by r' = taken_by r @ ps"
    and taken_small: "receive\<^sup>*\<^sup>* r0 r \<Longrightarrow> p \<in> set (taken_by r) \<Longrightarrow> length (m_data p) < 2 ^ 32"
    and given: "send\<^sup>*\<^sup>* s0 s \<Longrightarrow> \<exists>rest. of_type t (posted_by s) = of_type t (given_by s) @ rest"
    and stream: "send\<^sup>*\<^sup>* s0 s \<Longrightarrow> receive\<^sup>*\<^sup>* r0 r \<Longrightarrow> \<not> failed s \<Longrightarrow> delivers s r \<Longrightarrow>
      prefix (concat (map wire (taken_by r))) (concat (map wire (given_by s)))"
begin

lemma linked_delivers:
  assumes "linked send receive delivers s0 r0 s r" "\<not> failed s"
  shows "delivers s r"
  using assms
proof (induction rule: linked.induct)
  case (sends s r s')
  note reach = linked_ends(1) [OF sends.hyps(1)]
  show ?case
    using delivers [OF reach sends.hyps(2) sends.prems] sends.IH failed [OF reach sends.hyps(2) sends.prems] .
qed (simp_all add: start)

text \<open>The packets taken are the first ones given, and so the first ones posted of each type.\<close>

lemma taken_given:
  assumes "linked send receive delivers s0 r0 s r" "\<not> failed s"
    "\<forall>p \<in> set (posted_by s). length (m_data p) < 2 ^ 32"
  shows "prefix (taken_by r) (given_by s)"
proof (rule wire_prefix)
  note ends = linked_ends [OF assms(1)]
  show "prefix (concat (map wire (taken_by r))) (concat (map wire (given_by s)))"
    using stream [OF ends assms(2) linked_delivers [OF assms(1,2)]] .
  have "p \<in> set (posted_by s)" if "p \<in> set (given_by s)" for p
  proof -
    have "p \<in> set (of_type (m_type p) (given_by s))" using that by (simp add: of_type_def)
    moreover obtain rest where "of_type (m_type p) (posted_by s) = of_type (m_type p) (given_by s) @ rest"
      using given [OF ends(1)] by blast
    ultimately have "p \<in> set (of_type (m_type p) (posted_by s))" by simp
    then show ?thesis by (simp add: of_type_def)
  qed
  then show "\<forall>p \<in> set (taken_by r) \<union> set (given_by s). length (m_data p) < 2 ^ 32"
    using assms(3) taken_small [OF ends(2)] by blast
qed

lemma posted_taken:
  assumes "linked send receive delivers s0 r0 s r" "\<not> failed s"
    "\<forall>p \<in> set (posted_by s). length (m_data p) < 2 ^ 32"
  shows "of_type t (posted_by s) = of_type t (taken_by r) @ not_taken (posted_by s) (taken_by r) t"
  using taken_given [OF assms] given [OF linked_ends(1) [OF assms(1)], of t]
  by (auto simp: not_taken_def prefix_def)

text \<open>
  Every run of the two ends is a run of the channel, with the same packets posted and taken in
  the same order.
\<close>

lemma refines:
  assumes "linked send receive delivers s0 r0 s r" "\<not> failed s"
    "\<forall>p \<in> set (posted_by s). length (m_data p) < 2 ^ 32"
  shows "\<exists>es. channel_run es (\<lambda>_. []) = Some (not_taken (posted_by s) (taken_by r)) \<and>
    posted_in es = posted_by s \<and> taken_in es = taken_by r"
  using assms
proof (induction rule: linked.induct)
  case opened
  show ?case by (intro exI [of _ "[]"]) (simp add: start not_taken_def)
next
  case (sends s r s')
  note reach = linked_ends(1) [OF sends.hyps(1)]
  note ok = failed [OF reach sends.hyps(2) sends.prems(1)]
  obtain ps where ps: "posted_by s' = posted_by s @ ps" using posts [OF reach sends.hyps(2)] by blast
  then have small: "\<forall>p \<in> set (posted_by s). length (m_data p) < 2 ^ 32" using sends.prems(2) by simp
  let ?c = "not_taken (posted_by s) (taken_by r)"
  obtain es where es: "channel_run es (\<lambda>_. []) = Some ?c" "posted_in es = posted_by s" "taken_in es = taken_by r"
    using sends.IH [OF ok small] by blast
  obtain c' where c': "channel_run (map Posted ps) ?c = Some c'" "\<forall>t. c' t = ?c t @ of_type t ps"
    using channel_run_posts by blast
  have "c' t = not_taken (posted_by s') (taken_by r) t" for t
  proof -
    have "of_type t (posted_by s') = of_type t (taken_by r) @ ?c t @ of_type t ps"
      using posted_taken [OF sends.hyps(1) ok small, of t] ps by simp
    then have "not_taken (posted_by s') (taken_by r) t = ?c t @ of_type t ps" by (simp add: not_taken_def)
    then show ?thesis using c'(2) by simp
  qed
  then have "c' = not_taken (posted_by s') (taken_by r)" ..
  with es c'(1) ps show ?case
    by (intro exI [of _ "es @ map Posted ps"]) (simp add: channel_run_append)
next
  case (receives s r r')
  let ?c = "not_taken (posted_by s) (taken_by r)" and ?c' = "not_taken (posted_by s) (taken_by r')"
  obtain es where es: "channel_run es (\<lambda>_. []) = Some ?c" "posted_in es = posted_by s" "taken_in es = taken_by r"
    using receives.IH [OF receives.prems] by blast
  obtain ps where ps: "taken_by r' = taken_by r @ ps" using takes [OF receives.hyps(2)] by blast
  have "?c t = of_type t ps @ ?c' t" for t
    using posted_taken [OF receives.hyps(1) receives.prems, of t]
      posted_taken [OF linked.receives [OF receives.hyps] receives.prems, of t] ps
    by simp
  then have "channel_run (map Taken ps) ?c = Some ?c'" by (rule channel_run_takes)
  with es ps show ?case
    by (intro exI [of _ "es @ map Taken ps"]) (simp add: channel_run_append)
qed

end

section \<open>The connection\<close>

text \<open>
  \<open>stream\<close> is everything that the reader will ever get. What it has got is a prefix of what the
  writer has sent.
\<close>

definition in_order ::
    "('w \<Rightarrow> byte list) \<Rightarrow> byte list \<Rightarrow> ('v \<Rightarrow> byte list) \<Rightarrow> byte list \<Rightarrow> 'w \<Rightarrow> 'v \<Rightarrow> bool" where
  "in_order sent before pending stream w v \<longleftrightarrow>
     (\<exists>got out. stream = got @ pending v \<and> sent w = before @ out \<and> prefix got out)"

definition delivered ::
    "('w \<Rightarrow> byte list) \<Rightarrow> 'w \<Rightarrow> ('v \<Rightarrow> byte list) \<Rightarrow> 'v \<Rightarrow>
      ('w, 'y) send_system_scheme \<Rightarrow> ('cb, 'v, 'z) receive_system_scheme \<Rightarrow> bool" where
  "delivered sent w0 pending v0 s r \<longleftrightarrow> in_order sent (sent w0) pending (pending v0) (world s) (rs_world r)"

definition connected ::
    "host_order \<Rightarrow> 'w abstract_writer \<Rightarrow> ('w \<Rightarrow> byte list) \<Rightarrow> muxer \<Rightarrow> 'w \<Rightarrow>
      host_order \<Rightarrow> 'v abstract_reader \<Rightarrow> ('v \<Rightarrow> byte list) \<Rightarrow> 'cb demuxer \<Rightarrow> 'v \<Rightarrow>
      'w send_system \<Rightarrow> ('cb, 'v) receive_system \<Rightarrow> bool" where
  "connected hs W sent m0 w0 hr R pending d0 v0 =
     linked (send_step hs W) (receive_step hr R) (delivered sent w0 pending v0)
       (start_sending m0 w0) (start_receiving d0 v0)"

definition fine_connected ::
    "host_order \<Rightarrow> 'w abstract_writer \<Rightarrow> ('w \<Rightarrow> byte list) \<Rightarrow> muxer \<Rightarrow> 'w \<Rightarrow>
      host_order \<Rightarrow> 'v abstract_reader \<Rightarrow> ('v \<Rightarrow> byte list) \<Rightarrow> ('cb \<Rightarrow> bool) \<Rightarrow> 'cb demuxer \<Rightarrow> 'v \<Rightarrow>
      'w sender \<Rightarrow> ('cb, 'v) receiver \<Rightarrow> bool" where
  "fine_connected hs W sent m0 w0 hr R pending reenters d0 v0 =
     linked (fine_send_step hs W) (fine_receive_step hr R reenters) (delivered sent w0 pending v0)
       (between_passes (start_sending m0 w0)) (start_receiver d0 v0)"

text \<open>What is in flight: posted and not taken yet.\<close>

definition in_flight :: "('w, 'y) send_system_scheme \<Rightarrow> ('cb, 'v, 'z) receive_system_scheme \<Rightarrow> channel" where
  "in_flight s r = not_taken (posted s) (rs_taken r)"

lemma receive_step_taken:
  assumes "receive_step h R s s'"
  shows "\<exists>ps. rs_taken s' = rs_taken s @ ps \<and> length ps \<le> 1"
  using assms
proof (cases rule: receive_step.cases)
  case destruction
  then show ?thesis by (cases rule: dtor_step.cases) auto
qed auto

lemma fine_receive_step_taken:
  assumes "fine_receive_step h R reenters s s'"
  shows "\<exists>ps. rs_taken s' = rs_taken s @ ps \<and> length ps \<le> 1"
  using assms
proof (cases rule: fine_receive_step.cases)
  case destruction
  then show ?thesis using dtor_step_frame(2) by fastforce
qed auto

lemma fine_sending_steps:
  "(fine_send_step h W)\<^sup>*\<^sup>* s s' \<Longrightarrow> fine_sending h W m0 w0 s \<Longrightarrow> fine_sending h W m0 w0 s'"
  by (induction rule: rtranclp_induct) (auto intro: fine_sending.step)

lemma receiving_steps:
  "(receive_step h R)\<^sup>*\<^sup>* r r' \<Longrightarrow> receiving h R d0 v0 r \<Longrightarrow> receiving h R d0 v0 r'"
  by (induction rule: rtranclp_induct) (auto intro: receiving.step)

lemma fine_receiving_steps:
  "(fine_receive_step h R reenters)\<^sup>*\<^sup>* r r' \<Longrightarrow> fine_receiving h R reenters d0 v0 r \<Longrightarrow>
    fine_receiving h R reenters d0 v0 r'"
  by (induction rule: rtranclp_induct) (auto intro: fine_receiving.step)

lemma sending_reach: "(send_step h W)\<^sup>*\<^sup>* (start_sending m0 w0) s \<Longrightarrow> sending h W m0 w0 s"
  by (erule sending_steps) (rule sending.start)

lemma fine_sending_reach:
  "(fine_send_step h W)\<^sup>*\<^sup>* (between_passes (start_sending m0 w0)) s \<Longrightarrow> fine_sending h W m0 w0 s"
  by (erule fine_sending_steps) (rule fine_sending.start)

lemma receiving_reach: "(receive_step h R)\<^sup>*\<^sup>* (start_receiving d0 v0) r \<Longrightarrow> receiving h R d0 v0 r"
  by (erule receiving_steps) (rule receiving.start)

lemma fine_receiving_reach:
  "(fine_receive_step h R reenters)\<^sup>*\<^sup>* (start_receiver d0 v0) r \<Longrightarrow> fine_receiving h R reenters d0 v0 r"
  by (erule fine_receiving_steps) (rule fine_receiving.start)

lemma delivered_more: "delivered sent w0 pending v0 s r \<Longrightarrow> prefix (sent (world s)) (sent (world s')) \<Longrightarrow>
    delivered sent w0 pending v0 s' r"
  unfolding delivered_def in_order_def by (fastforce simp: prefix_def)

lemma delivered_prefix:
  assumes "delivered sent w0 pending v0 s r" "pending v0 = bs @ junk @ pending (rs_world r)"
    "sent (world s) @ rest = sent w0 @ cs"
  shows "prefix bs cs"
  using assms unfolding delivered_def in_order_def by (auto simp: prefix_def)

lemma fine_receive_step_pending:
  assumes "reader_contract R pending" "fine_receive_step h R reenters r r'" "stream_inv h pending stream r"
  shows "\<exists>bs. pending (rs_world r) = bs @ pending (rs_world r')"
proof -
  note reader = byte_reader.intro [OF assms(1)]
  note turn = byte_reader.read_step_spec [OF reader]
  have wf: "part_wf part sz buf" if "rs_at r = Reading part sz buf" for part sz buf
    using assms(3) that by (simp add: stream_inv_def)
  from assms(2) show ?thesis
  proof (cases rule: fine_receive_step.cases)
    case construction
    then show ?thesis using byte_reader.setBlocking_pending [OF reader] by auto
  next
    case (waits ms ready w')
    then show ?thesis using byte_reader.ready_pending [OF reader waits(4)] by auto
  next
    case (reads part sz buf part' sz' buf' err w')
    then show ?thesis using turn [OF reads(3) wf] by auto
  next
    case (gives_up part sz buf err w')
    then show ?thesis using turn [OF gives_up(4) wf] by auto
  next
    case (greets part sz buf p err w' packet' d')
    then show ?thesis using turn [OF greets(4) wf] by auto
  next
    case (receives part sz buf p err w')
    then show ?thesis using turn [OF receives(4) wf] by auto
  next
    case destruction
    then show ?thesis using dtor_step_frame(1) [of r r'] by simp
  qed auto
qed

lemma delivered_before:
  assumes "delivered sent w0 pending v0 s r'" "pending (rs_world r) = bs @ pending (rs_world r')"
    and "pending v0 = cs @ pending (rs_world r)"
  shows "delivered sent w0 pending v0 s r"
  using assms unfolding delivered_def in_order_def
  by (auto simp: prefix_def)

section \<open>Refinement\<close>

text \<open>Both connections are instances of the interface.\<close>

lemma connected_link:
  fixes d0 :: "'cb demuxer"
  assumes "writer_contract W sent" "PacketMuxer_ctor names = Inr m0" "length names + 2 \<le> 2 ^ 32"
    and "reader_contract R pending"
  shows "packet_link (send_step hs W) (receive_step hr R) (delivered sent w0 pending v0) (start_sending m0 w0)
    (start_receiving d0 v0) (\<lambda>s. mux_transportError (mux s)) posted transmitted rs_taken"
proof (unfold_locales, goal_cases)
  case 3
  show ?case by (auto simp: delivered_def in_order_def start_sending_def start_receiving_def)
next
  case (4 s s')
  then show ?case using send_step_history by blast
next
  case (5 s s')
  then show ?case using send_step_error(1) by blast
next
  case (6 s s' r)
  have "\<not> mux_transportError (mux s)" using 6 send_step_error(1) by blast
  moreover note run = sending_reach [OF 6(1)]
  ultimately show ?case
    using send_step_history [OF 6(2)] reachable_inv(4) [OF assms(1-3) run]
      reachable_inv(4) [OF assms(1-3) sending.step [OF run 6(2)] 6(3)]
    by (intro delivered_more [OF 6(4)]) (auto simp: prefix_def)
next
  case (7 r r')
  then show ?case using receive_step_taken by blast
next
  case (8 r p)
  then have "receive_inv pending (pending v0) r"
    using byte_reader.receiving_inv [OF byte_reader.intro [OF assms(4)] receiving_reach] by blast
  with 8(2) show ?case by (fastforce simp: receive_inv_def receivable_def)
next
  case (9 s t)
  then show ?case using reachable_inv(2) [OF assms(1-3) sending_reach] by (auto simp: queues_inv_def)
next
  case (10 s r)
  obtain junk where junk: "pending v0 = concat (map wire (rs_taken r)) @ junk @ pending (rs_world r)"
    using byte_reader.receiving_inv [OF byte_reader.intro [OF assms(4)] receiving_reach [OF 10(2)]]
    by (auto simp: receive_inv_def)
  have "sent (world s) @ [] = sent w0 @ concat (map wire (transmitted s))"
    using reachable_inv(4) [OF assms(1-3) sending_reach [OF 10(1)] 10(3)] by simp
  with 10(4) junk show ?case by (rule delivered_prefix)
qed (simp_all add: start_sending_def start_receiving_def)

lemma fine_step_sent:
  assumes "writer_contract W sent" "fine_send_step hs W s s'" "fine_inv sent out0 s" "no_error s'"
  shows "prefix (sent (world s)) (sent (world s'))"
  using assms(2-4)
proof (induction rule: fine_send_step.induct)
  case (outside s s')
  have "world s' = world s \<or> world s' = wr_setBlocking W False (world s)"
    using outside.hyps(1) by (induction rule: muxer_step.induct) simp_all
  then show ?case using byte_writer.setBlocking_sent [OF byte_writer.intro [OF assms(1)]] by auto
next
  case (inside s ps ps' m' w' new)
  have "no_error s"
    using byte_writer.fine_send_step_error [OF byte_writer.intro [OF assms(1)] fine_send_step.inside [OF inside.hyps] inside.prems(1)]
      inside.prems(2) by blast
  then show ?case
    using byte_writer.pass_step_sent [OF byte_writer.intro [OF assms(1)] inside.hyps(2)] inside.prems(2)
    by (auto split: option.splits pass_state.splits)
qed simp_all

lemma queue_front:
  assumes "queues_inv m ps ts"
  shows "\<exists>rest. txQueue m t = of_type t (take (Suc 0) (txQueue m t')) @ rest"
proof (cases "txQueue m t'")
  case (Cons p q)
  then have "m_type p = t'" using queue_type(1) [OF assms, of p t'] by simp
  with Cons show ?thesis by (auto simp: of_type_def)
qed (simp add: of_type_def)

lemma fine_connected_link:
  fixes d0 :: "'cb demuxer"
  assumes "writer_contract W sent" "PacketMuxer_ctor names = Inr m0" "length names + 2 \<le> 2 ^ 32"
    and "reader_contract R pending"
  shows "packet_link (fine_send_step hs W) (fine_receive_step hr R reenters) (delivered sent w0 pending v0)
    (between_passes (start_sending m0 w0)) (start_receiver d0 v0) (\<lambda>s. \<not> no_error s) posted
    (\<lambda>s. transmitted s @ in_hand s) rs_taken"
proof -
  note writer = byte_writer.intro [OF assms(1)] and reader = byte_reader.intro [OF assms(4)]
  have inv: "fine_inv sent (sent w0) s"
    if "(fine_send_step hs W)\<^sup>*\<^sup>* (between_passes (start_sending m0 w0)) s" for s
    using byte_writer.fine_sending_inv [OF writer fine_sending_reach [OF that] assms(2,3)] .
  have taken: "stream_inv hr pending (pending v0) r"
    if "(fine_receive_step hr R reenters)\<^sup>*\<^sup>* (start_receiver d0 v0) r" for r
    using byte_reader.fine_receiving_inv [OF reader fine_receiving_reach [OF that]] .
  show ?thesis
  proof (unfold_locales, goal_cases)
    case 3
    show ?case by (auto simp: delivered_def in_order_def start_sending_def)
  next
    case (4 s s')
    then show ?case using fine_send_step_history by blast
  next
    case (5 s s')
    then show ?case using byte_writer.fine_send_step_error [OF writer 5(2) inv [OF 5(1)]] by blast
  next
    case (6 s s' r)
    then show ?case by (intro delivered_more [OF 6(4)] fine_step_sent [OF assms(1) 6(2) inv [OF 6(1)]]) simp
  next
    case (7 r r')
    then show ?case using fine_receive_step_taken by blast
  next
    case (8 r p)
    then show ?case using taken [OF 8(1)] by (fastforce simp: stream_inv_def receivable_def)
  next
    case (9 s t)
    have q: "queues_inv (mux s) (posted s) (transmitted s)" using inv [OF 9] by (simp add: fine_inv_def)
    then have "of_type t (posted s) = of_type t (transmitted s) @ txQueue (mux s) t" by (simp add: queues_inv_def)
    moreover have "\<exists>rest. txQueue (mux s) t = of_type t (in_hand s) @ rest"
      using queue_front [OF q, of t] by (auto split: option.split pass_state.split)
    ultimately show ?case by auto
  next
    case (10 s r)
    obtain junk where junk: "pending v0 = concat (map wire (rs_taken r)) @ junk @ pending (rs_world r)"
      using taken [OF 10(2)] by (auto simp: stream_inv_def)
    have "sent (world s) @ unwritten s = sent w0 @ concat (map wire (transmitted s @ in_hand s))"
      using inv [OF 10(1)] 10(3) by (simp add: fine_inv_def del: in_hand.simps no_error.simps unwritten.simps)
    with 10(4) junk show ?case by (rule delivered_prefix)
  qed (simp_all add: start_sending_def)
qed

lemma connected_refines:
  assumes "writer_contract W sent" "PacketMuxer_ctor names = Inr m0" "length names + 2 \<le> 2 ^ 32"
    and "reader_contract R pending"
    and "connected hs W sent m0 w0 hr R pending d0 v0 s r" "\<not> mux_transportError (mux s)"
    and "\<forall>p \<in> set (posted s). length (m_data p) < 2 ^ 32"
  shows "\<exists>es. channel_run es (\<lambda>_. []) = Some (in_flight s r) \<and> posted_in es = posted s \<and> taken_in es = rs_taken r"
  using packet_link.refines [OF connected_link [OF assms(1-4)] assms(5) [unfolded connected_def] assms(6,7)]
  by (simp only: in_flight_def)

lemma fine_connected_refines:
  assumes "writer_contract W sent" "PacketMuxer_ctor names = Inr m0" "length names + 2 \<le> 2 ^ 32"
    and "reader_contract R pending"
    and "fine_connected hs W sent m0 w0 hr R pending reenters d0 v0 s r" "no_error s"
    and "\<forall>p \<in> set (posted s). length (m_data p) < 2 ^ 32"
  shows "\<exists>es. channel_run es (\<lambda>_. []) = Some (in_flight s r) \<and> posted_in es = posted s \<and> taken_in es = rs_taken r"
  using packet_link.refines [OF fine_connected_link [OF assms(1-4)] assms(5) [unfolded fine_connected_def] _ assms(7)] assms(6)
  by (simp only: in_flight_def not_not)

text \<open>The sender runs first, then the receiver with what has been sent.\<close>

lemma fine_connected_steps:
  fixes s :: "'w sender" and r :: "('cb, 'v) receiver"
  assumes "reader_contract R pending"
    and "(fine_send_step hs W)\<^sup>*\<^sup>* (between_passes (start_sending m0 w0)) s"
    and "(fine_receive_step hr R reenters)\<^sup>*\<^sup>* (start_receiver d0 v0) r" "delivered sent w0 pending v0 s r"
  shows "fine_connected hs W sent m0 w0 hr R pending reenters d0 v0 s r"
  unfolding fine_connected_def
proof (rule linked_receiving_back [where receive = "fine_receive_step hr R reenters" and delivers = "delivered sent w0 pending v0",
    OF assms(3)
    linked_sending [OF assms(2)] assms(4)])
  fix r r' :: "('cb, 'v) receiver"
  assume r: "(fine_receive_step hr R reenters)\<^sup>*\<^sup>* (start_receiver d0 v0) r" "fine_receive_step hr R reenters r r'"
    and d: "delivered sent w0 pending v0 s r'"
  have inv: "stream_inv hr pending (pending v0) r"
    using byte_reader.fine_receiving_inv [OF byte_reader.intro [OF assms(1)] fine_receiving_reach [OF r(1)]] .
  obtain bs where bs: "pending (rs_world r) = bs @ pending (rs_world r')"
    using fine_receive_step_pending [OF assms(1) r(2) inv] by blast
  obtain junk where "pending v0 = (concat (map wire (rs_taken r)) @ junk) @ pending (rs_world r)"
    using inv by (auto simp: stream_inv_def)
  then show "delivered sent w0 pending v0 s r" by (rule delivered_before [OF d bs])
qed

text \<open>When the sender has sent the whole stream, the receiver may run on alone.\<close>

lemma connected_sending:
  "sending hs W m0 w0 s \<Longrightarrow> connected hs W sent m0 w0 hr R pending d0 v0 s (start_receiving d0 v0)"
  unfolding connected_def
  by (induction rule: sending.induct) (rule linked.opened, rule linked.sends)

lemma connected_receiving:
  assumes "reader_contract R pending"
    and "sent (world s) = sent w0 @ pending v0"
    and "(receive_step hr R)\<^sup>*\<^sup>* r r'" "connected hs W sent m0 w0 hr R pending d0 v0 s r"
  shows "connected hs W sent m0 w0 hr R pending d0 v0 s r'"
  unfolding connected_def
proof (rule linked_receiving [OF assms(3) assms(4) [unfolded connected_def]])
  fix r assume "(receive_step hr R)\<^sup>*\<^sup>* (start_receiving d0 v0) r"
  then have "receive_inv pending (pending v0) r"
    using byte_reader.receiving_inv [OF byte_reader.intro [OF assms(1)] receiving_reach] by blast
  then obtain junk where "pending v0 = concat (map wire (rs_taken r)) @ junk @ pending (rs_world r)"
    by (auto simp: receive_inv_def)
  then show "delivered sent w0 pending v0 s r"
    unfolding delivered_def in_order_def using assms(2)
    by (intro exI [of _ "concat (map wire (rs_taken r)) @ junk"] exI [of _ "pending v0"]) (simp add: prefix_def)
qed

end
