(* ===== verification/Decoder.thy ===== *)
theory Decoder
  imports ReceiveLoop
begin

text \<open>
  The receive thread against a reference: a decoder that is a function of the whole stream of
  bytes. On every stream of a connection that is then closed, well-formed or not, the thread
  behaves as the decoder says.
\<close>

section \<open>The reference decoder\<close>

text \<open>
  What a stream of bytes means, as a function of the whole stream: the packets it holds, and
  the error at the first header that ends the process, if there is one. An incomplete packet
  at the end is dropped. A size of \<open>2\<^sup>3\<^sup>1\<close> or more is fatal before the data has arrived, an
  invalid type only after it.
\<close>

function decode :: "byte list \<Rightarrow> com_packet list \<times> cxx_error option" where
  "decode bs =
     (let t = of_be32 (take 4 bs); n = unat (of_be32 (take 4 (drop 4 bs)))
      in if length bs < 8 then ([], None)
         else if 2 ^ 31 \<le> n then ([], Some LengthError)
         else if length bs < 8 + n then ([], None)
         else if t = InvalidPacket then ([], Some AssertionFailed)
         else let (ps, e) = decode (drop (8 + n) bs)
              in (\<lparr>m_type = t, m_data = take n (drop 8 bs)\<rparr> # ps, e))"
  by pat_completeness auto
termination
  by (relation "measure length") auto

declare decode.simps [simp del]

lemma decode_short: "length bs < 8 \<Longrightarrow> decode bs = ([], None)"
  by (simp add: decode.simps)

lemma decode_header:
  "decode (be32 t @ be32 n @ bs) =
    (if 2 ^ 31 \<le> unat n then ([], Some LengthError)
     else if length bs < unat n then ([], None)
     else if t = InvalidPacket then ([], Some AssertionFailed)
     else let (ps, e) = decode (drop (unat n) bs)
          in (\<lparr>m_type = t, m_data = take (unat n) bs\<rparr> # ps, e))"
  by (subst decode.simps) (simp add: Let_def)

lemma decode_wire:
  assumes "length (m_data p) < 2 ^ 31"
  shows "decode (wire p @ bs) =
    (if m_type p = InvalidPacket then ([], Some AssertionFailed)
     else (let (ps, e) = decode bs in (p # ps, e)))"
proof -
  have "unat (of_nat (length (m_data p)) :: u32) = length (m_data p)" using assms by simp
  with assms show ?thesis by (cases p) (simp add: wire_def decode_header)
qed

text \<open>The shapes a stream can have at its front.\<close>

lemma stream_cases:
  obtains (short) "length bs < 8"
    | (oversized) t n rest where "bs = be32 t @ be32 n @ rest" "2 ^ 31 \<le> unat n"
    | (truncated) t n rest where "bs = be32 t @ be32 n @ rest" "unat n < 2 ^ 31" "length rest < unat n"
    | (packet) p rest where "bs = wire p @ rest" "length (m_data p) < 2 ^ 31"
proof (cases "length bs < 8")
  case False
  define t n where "t = of_be32 (take 4 bs)" and "n = of_be32 (take 4 (drop 4 bs))"
  define rest where "rest = drop 8 bs"
  have bs: "bs = be32 t @ be32 n @ rest"
  proof -
    have "be32 t = take 4 bs" "be32 n = take 4 (drop 4 bs)"
      using False by (simp_all add: t_def n_def)
    moreover have "take 4 bs @ take 4 (drop 4 bs) @ drop 4 (drop 4 bs) = bs"
      by (simp only: append_take_drop_id)
    ultimately show ?thesis by (simp add: rest_def)
  qed
  consider "2 ^ 31 \<le> unat n" | "unat n < 2 ^ 31" "length rest < unat n"
    | "unat n < 2 ^ 31" "unat n \<le> length rest" by linarith
  then show thesis
  proof cases
    case 3
    let ?p = "\<lparr>m_type = t, m_data = take (unat n) rest\<rparr>"
    have "bs = wire ?p @ drop (unat n) rest"
      using 3 by (simp add: bs wire_def min_absorb2)
    with 3 packet show thesis by simp
  qed (use bs oversized truncated in auto)
qed (rule short)

context closing_source begin

text \<open>Reading more bytes than are left fails, with the error flag set.\<close>

lemma readBytes_truncated:
  assumes "closed w" "length (pending w) < k" "k < 2 ^ 64"
  shows "\<exists>rest bs w'. readBytes R (\<lambda>_. False) False (of_nat k) buf False w =
      Some (Inr (False, rest, bs, True, w'))"
  using assms
proof (induction "(k, lag w)" arbitrary: k buf w
    rule: wf_induct_rule [OF wf_lex_prod [OF wf_less_than wf_less_than]])
  case (1 k w buf)
  obtain n bytes w' where rd: "rd_read R (of_nat k) w = (n, bytes, w')"
    by (cases "rd_read R (of_nat k) w") auto
  have pos: "0 < (of_nat k :: usize)" using 1(3,4) by simp
  show ?case
  proof (cases "n < 0")
    case True
    with rd pos show ?thesis by (subst readBytes.simps) simp
  next
    case False
    then have n: "length bytes = nat n" "pending w = bytes @ pending w'" "nat n \<le> k"
      using read_ok [OF rd] read_le_nat [OF rd] 1(4) by auto
    have "n \<le> int k" using n(3) False by simp
    have sz: "of_nat k - word_of_int n = (of_nat (k - nat n) :: usize)"
      using usize_diff_of_int [OF n(3)] False by simp
    have "0 < n \<or> lag w' < lag w"
      using closed_read [OF rd 1(2) _ pos] read_progress [OF rd _ pos] False by force
    moreover have "closed w'" using keeps_read [OF closed_keeps rd 1(2)] .
    moreover have "length (pending w') < k - nat n" using n 1(3) by simp
    ultimately have "\<exists>rest bs w''. readBytes R (\<lambda>_. False) False (of_nat (k - nat n)) (buf @ bytes) False w' =
        Some (Inr (False, rest, bs, True, w''))"
      using 1(3,4) False by (intro 1(1)) auto
    moreover have "readBytes R (\<lambda>_. False) False (of_nat k) buf False w =
        readBytes R (\<lambda>_. False) False (of_nat (k - nat n)) (buf @ bytes) False w'"
      using rd False n(1) \<open>n \<le> int k\<close> pos 1(4) sz by (subst readBytes.simps) simp
    ultimately show ?thesis by simp
  qed
qed

lemma decode_Cons:
  assumes "decode bs = (p # ps, e)"
  obtains rest where "bs = wire p @ rest" "receivable p"
  using assms by (cases rule: stream_cases [of bs])
    (auto simp: decode_short decode_header decode_wire receivable_def split: if_splits prod.splits)

lemma readUint32_truncated:
  assumes "closed w" "length (pending w) < 4"
  shows "\<exists>v w'. readUint32 h R (\<lambda>_. False) False w = Some (Inr (False, v, True, w'))"
  using readBytes_truncated [of w 4 "[]"] assms by (fastforce simp: readUint32_def)

text \<open>A truncated packet at the end of the stream sets the error flag.\<close>

lemma receivePacket_truncated:
  assumes "closed w" "\<not> dmx_transportError d" "rd_readyForReading R ms w = (True, w0)"
    and "length (pending w) < 8 \<or>
      (\<exists>t n rest. pending w = be32 t @ be32 n @ rest \<and> unat n < 2 ^ 31 \<and> length rest < unat n)"
  shows "\<exists>w'. receivePacket h R (\<lambda>_. False) packet ms d w =
      Some (Inr (False, packet, signalTransportError d, w'))"
proof -
  have w0: "pending w0 = pending w" "closed w0"
    using ready_pending [OF assms(3)] keeps_ready [OF closed_keeps assms(3) assms(1)] by simp_all
  consider "length (pending w) < 4" | "4 \<le> length (pending w)" "length (pending w) < 8"
    | t n rest where "pending w = be32 t @ be32 n @ rest" "unat n < 2 ^ 31" "length rest < unat n"
    using assms(4) by fastforce
  then show ?thesis
  proof cases
    case 1
    with readUint32_truncated [of w0 h] w0 assms(2,3) show ?thesis
      by (auto simp: receivePacket_def signalTransportError_def)
  next
    case 2
    then have "pending w0 = be32 (of_be32 (take 4 (pending w))) @ drop 4 (pending w)"
      using w0(1) by simp
    from readUint32_total [OF this, of h] obtain x w1 where
      1: "readUint32 h R (\<lambda>_. False) False w0 = Some (Inr (True, x, False, w1))"
        "pending w1 = drop 4 (pending w)"
      by blast
    have "closed w1" by (rule readUint32_keeps [OF 1(1) closed_keeps w0(2)])
    moreover have "length (pending w1) < 4" using 1(2) 2 by simp
    ultimately obtain v w2 where "readUint32 h R (\<lambda>_. False) False w1 = Some (Inr (False, v, True, w2))"
      using readUint32_truncated [of w1 h] by blast
    with 1(1) assms(2,3) show ?thesis
      by (simp add: receivePacket_def signalTransportError_def)
  next
    case (3 t n rest)
    obtain w2 where go: "receivePacket h R (\<lambda>_. False) packet ms d w =
        receivePayload R (\<lambda>_. False) packet t n d w2" "pending w2 = rest" "closed w2"
      using receivePacket_header [OF 3(1) assms(2,3), of h packet] closed_keeps assms(1) by auto
    have "getDataSize \<lparr>m_type = t, m_data = replicate (unat n) 0\<rparr> = of_nat (unat n)"
      by (simp add: getDataSize_def)
    with readBytes_truncated [of w2 "unat n" "[]"] go 3 assms(2) show ?thesis
      by (auto simp: receivePayload_def header_packet signalTransportError_def)
  qed
qed

end

section \<open>The thread follows the decoder\<close>

text \<open>
  The result of a run that has made the calls \<open>calls\<close> before, as the decoder says: after all
  the callbacks for the packets the run has ended the process, or returned with the error
  flag set and the subscribers as they were.
\<close>

definition decoded_run ::
    "byte list \<Rightarrow> ('cb \<times> com_packet) list \<Rightarrow> 'cb demuxer \<Rightarrow>
      (('cb \<times> com_packet) list \<times> 'cb demuxer \<times> 'w) run \<Rightarrow> bool" where
  "decoded_run bs calls d r \<longleftrightarrow>
     (case decode bs of
        (ps, Some e) \<Rightarrow> r = Some (Inl e)
      | (ps, None) \<Rightarrow>
          (\<exists>d' w'. r = Some (Inr (calls @ concat (map (dispatched d) ps), d', w')) \<and>
            dmx_transportError d' \<and> subscribers d' = subscribers d))"

text \<open>
  The same for the whole thread, when the first packet is there in time: it has to be Hello;
  a control packet without data is read out of bounds, any other packet ends the thread.
\<close>

definition handshake_run ::
    "byte list \<Rightarrow> 'cb demuxer \<Rightarrow> (('cb \<times> com_packet) list \<times> 'cb demuxer \<times> 'w) run \<Rightarrow> bool" where
  "handshake_run bs d r \<longleftrightarrow>
     (case decode bs of
        ([], _) \<Rightarrow> decoded_run bs [] d r
      | (p # _, _) \<Rightarrow>
          if m_type p = ControlPacket \<and> getControlMessage p = Inr Hello then decoded_run bs [] d r
          else if m_type p = ControlPacket \<and> m_data p = [] then r = Some (Inl UndefinedBehaviour)
          else (\<exists>d' w'. r = Some (Inr ([], d', w')) \<and> dmx_transportError d' \<and> subscribers d' = subscribers d))"

lemma decoded_run_more:
  assumes "decoded_run bs (calls @ dispatched d p) d' r" "same_service d d'" "receivable p"
  shows "decoded_run (wire p @ bs) calls d r"
proof -
  have "length (m_data p) < 2 ^ 31" "m_type p \<noteq> InvalidPacket"
    using assms(3) by (simp_all add: receivable_def)
  moreover have "dispatched d' = dispatched d" "subscribers d' = subscribers d"
    using assms(2) dispatched_same by (auto simp: same_service_def)
  ultimately show ?thesis
    using assms(1) by (auto simp: decoded_run_def decode_wire split: prod.splits option.splits)
qed

context closing_source begin

lemma receivePacket_short:
  assumes "closed w" "\<not> dmx_transportError d" "rd_readyForReading R ms w = (True, w0)"
    and "decode (pending w) = ([], None)"
  shows "\<exists>w'. receivePacket h R (\<lambda>_. False) packet ms d w =
      Some (Inr (False, packet, signalTransportError d, w'))"
proof (rule receivePacket_truncated [OF assms(1-3)])
  show "length (pending w) < 8 \<or>
      (\<exists>t n rest. pending w = be32 t @ be32 n @ rest \<and> unat n < 2 ^ 31 \<and> length rest < unat n)"
  proof (cases rule: stream_cases [of "pending w"])
    case (packet p rest)
    then show ?thesis using assms(4) by (auto simp: decode_wire split: if_splits prod.splits)
  qed (use assms(4) in \<open>auto simp: decode_header\<close>)
qed

lemma receivePacket_fatal:
  assumes "\<not> dmx_transportError d" "rd_readyForReading R ms w = (True, w0)"
    and "decode (pending w) = ([], Some e)"
  shows "receivePacket h R (\<lambda>_. False) packet ms d w = Some (Inl e)"
proof (cases rule: stream_cases [of "pending w"])
  case (oversized t n rest)
  with receivePacket_oversized [OF oversized(1) assms(1,2)] assms(3) show ?thesis
    by (simp add: decode_header)
next
  case (packet p rest)
  with assms(3) have "m_type p = InvalidPacket" "e = AssertionFailed"
    by (auto simp: decode_wire split: if_splits prod.splits)
  with receivePacket_invalid [OF packet(1) assms(1,2) packet(2)] show ?thesis by simp
next
  case (truncated t n rest)
  with assms(3) show ?thesis by (simp add: decode_header)
qed (use assms(3) in \<open>simp_all add: decode_short\<close>)

text \<open>A wait that times out brings a closed transport nearer to its end.\<close>

lemma closed_wait:
  assumes "rd_readyForReading R ms w = (False, w0)" "closed w"
  shows "closed w0" and "pending w0 = pending w" and "lag w0 < lag w"
  using keeps_ready [OF closed_keeps assms] ready_pending [OF assms(1)]
    closed_ready [OF assms] ready_progress [OF assms(1)] by (simp_all, force)

lemma receiveWhile_stream_end:
  assumes "closed w" "\<not> dmx_transportError d" "rd_readyForReading R 1000 w = (True, w0)"
    and dec: "decode (pending w) = ([], e)"
  shows "decoded_run (pending w) calls d (receiveWhile h R (\<lambda>_. False) packet calls d w)"
proof (cases e)
  case None
  with dec obtain w' where "receivePacket h R (\<lambda>_. False) packet 1000 d w =
      Some (Inr (False, packet, signalTransportError d, w'))"
    using receivePacket_short [OF assms(1-3)] by blast
  from receiveTurn_not_received [OF this] have "receiveWhile h R (\<lambda>_. False) packet calls d w =
      Some (Inr (calls, (signalTransportError d)\<lparr>dmx_transportError := True\<rparr>, w'))"
    using assms(2) by (subst receiveWhile.simps) (simp add: receiveWhile_error)
  with dec None show ?thesis
    by (simp add: decoded_run_def signalTransportError_def subscribers_def fun_eq_iff)
next
  case (Some err)
  with dec have "receivePacket h R (\<lambda>_. False) packet 1000 d w = Some (Inl err)"
    using receivePacket_fatal [OF assms(2,3)] by blast
  then have "receiveWhile h R (\<lambda>_. False) packet calls d w = Some (Inl err)"
    using assms(2) by (subst receiveWhile.simps) (simp add: receiveTurn_def)
  with dec Some show ?thesis by (simp add: decoded_run_def)
qed

lemma receiveWhile_decodes:
  assumes "closed w" "\<not> dmx_transportError d"
  shows "decoded_run (pending w) calls d (receiveWhile h R (\<lambda>_. False) packet calls d w)"
  using assms
proof (induction "(length (pending w), lag w)" arbitrary: w packet calls d
    rule: wf_induct_rule [OF wf_lex_prod [OF wf_less_than wf_less_than]])
  case (1 w packet calls d)
  obtain ready w0 where rdy: "rd_readyForReading R 1000 w = (ready, w0)" by fastforce
  obtain ps e where dec: "decode (pending w) = (ps, e)" by fastforce
  consider (idle) "\<not> ready" | (over) "ready" "ps = []" | (packet) q qs where "ps = q # qs"
    by (cases ps) auto
  then show ?case
  proof cases
    case idle
    with rdy have "rd_readyForReading R 1000 w = (False, w0)" by simp
    note w0 = closed_wait [OF this 1(2)]
    have "receiveWhile h R (\<lambda>_. False) packet calls d w = receiveWhile h R (\<lambda>_. False) packet calls d w0"
      using rdy idle 1(3) by (subst receiveWhile.simps) (simp add: receiveTurn_def receivePacket_def)
    moreover have "decoded_run (pending w0) calls d (receiveWhile h R (\<lambda>_. False) packet calls d w0)"
      using w0 1(3) by (intro 1(1)) auto
    ultimately show ?thesis using w0(2) by simp
  next
    case over
    with rdy dec show ?thesis by (intro receiveWhile_stream_end [OF 1(2,3)]) simp_all
  next
    case (packet q qs)
    with dec obtain rest where p: "pending w = wire q @ rest" "receivable q"
      using decode_Cons by blast
    from receiveWhile_packet [OF this 1(3) closed_keeps 1(2), of h packet calls] obtain packet' d' w'
      where go: "receiveWhile h R (\<lambda>_. False) packet calls d w =
        receiveWhile h R (\<lambda>_. False) packet' (calls @ dispatched d q) d' w'"
        "pending w' = rest" "same_service d d'" "closed w'"
      by blast
    have "length (pending w') < length (pending w)"
      by (simp add: go(2) p(1) wire_def)
    moreover have "\<not> dmx_transportError d'" using go(3) 1(3) by (simp add: same_service_def)
    ultimately have "decoded_run (pending w') (calls @ dispatched d q) d'
        (receiveWhile h R (\<lambda>_. False) packet' (calls @ dispatched d q) d' w')"
      using go(4) by (intro 1(1)) auto
    from decoded_run_more [OF this go(3) p(2)] show ?thesis by (simp add: go(1,2) p(1))
  qed
qed

text \<open>
  The whole thread, when the first bytes arrive in time: the stream holds no packet, its first
  packet is a Hello, or it is something else.
\<close>

lemma receiveLoop_stream_end:
  assumes "closed w" "\<not> dmx_transportError d" "rd_readyForReading R 2000 w = (True, w0)"
    and dec: "decode (pending w) = ([], e)"
  shows "handshake_run (pending w) d (receiveLoop h R (\<lambda>_. False) d w)"
proof (cases e)
  case None
  with dec obtain w' where "receivePacket h R (\<lambda>_. False) ComPacket_default 2000 d w =
      Some (Inr (False, ComPacket_default, signalTransportError d, w'))"
    using receivePacket_short [OF assms(1-3)] by blast
  with dec None show ?thesis
    by (auto simp: handshake_run_def decoded_run_def receiveLoop_def
        receiveHelloMessage_def receiveWhile_error signalTransportError_def subscribers_def fun_eq_iff)
next
  case (Some err)
  with dec have "receivePacket h R (\<lambda>_. False) ComPacket_default 2000 d w = Some (Inl err)"
    using receivePacket_fatal [OF assms(2,3)] by blast
  with dec Some show ?thesis
    by (simp add: handshake_run_def decoded_run_def receiveLoop_def receiveHelloMessage_def)
qed

lemma receiveLoop_hello:
  assumes go: "receivePacket h R (\<lambda>_. False) ComPacket_default 2000 d w = Some (Inr (True, q, d, w'))"
    and "closed w'" "\<not> dmx_transportError d" "pending w = wire q @ pending w'" "receivable q"
    and hello: "m_type q = ControlPacket" "getControlMessage q = Inr Hello"
  shows "decoded_run (pending w) [] d (receiveLoop h R (\<lambda>_. False) d w)"
proof -
  have "receiveLoop h R (\<lambda>_. False) d w =
      receiveWhile h R (\<lambda>_. False) ComPacket_default ([] @ dispatched d q) d w'"
    using go hello by (simp add: receiveLoop_def receiveHelloMessage_def getType_def dispatched_def)
  moreover have "decoded_run (pending w') ([] @ dispatched d q) d
      (receiveWhile h R (\<lambda>_. False) ComPacket_default ([] @ dispatched d q) d w')"
    by (rule receiveWhile_decodes [OF assms(2,3)])
  from decoded_run_more [OF this same_service_refl assms(5)]
  have "decoded_run (pending w) [] d
      (receiveWhile h R (\<lambda>_. False) ComPacket_default ([] @ dispatched d q) d w')"
    by (simp only: assms(4))
  ultimately show ?thesis by simp
qed

lemma receiveLoop_no_hello:
  assumes go: "receivePacket h R (\<lambda>_. False) ComPacket_default 2000 d w = Some (Inr (True, q, d, w'))"
    and other: "\<not> (m_type q = ControlPacket \<and> getControlMessage q = Inr Hello)"
    "\<not> (m_type q = ControlPacket \<and> m_data q = [])"
  shows "receiveLoop h R (\<lambda>_. False) d w =
    Some (Inr ([], (signalTransportError d)\<lparr>dmx_transportError := True\<rparr>, w'))"
proof -
  have "m_type q = ControlPacket \<Longrightarrow> \<exists>msg. getControlMessage q = Inr msg \<and> msg \<noteq> Hello"
    using other by (cases "m_data q") (auto simp: getControlMessage_def)
  then obtain packet' where "receiveHelloMessage h R (\<lambda>_. False) ComPacket_default 2000 d w =
      Some (Inr (packet', signalTransportError d, w'))"
    using go by (cases "m_type q = ControlPacket") (auto simp: receiveHelloMessage_def getType_def)
  then show ?thesis by (simp add: receiveLoop_def receiveWhile_error)
qed

lemma receiveLoop_decodes:
  assumes "closed w" "\<not> dmx_transportError d" "rd_readyForReading R 2000 w = (True, w0)"
  shows "handshake_run (pending w) d (receiveLoop h R (\<lambda>_. False) d w)"
proof (cases "decode (pending w)")
  case dec: (Pair ps e)
  show ?thesis
  proof (cases ps)
    case Nil
    with dec show ?thesis by (intro receiveLoop_stream_end [OF assms]) simp
  next
    case (Cons q qs)
    with dec obtain rest where p: "pending w = wire q @ rest" "receivable q"
      using decode_Cons by blast
    then have "length (m_data q) < 2 ^ 31" "m_type q \<noteq> InvalidPacket"
      by (simp_all add: receivable_def)
    from receivePacket_ready [OF p(1) this assms(2,3), of h ComPacket_default]
    obtain w' where go: "receivePacket h R (\<lambda>_. False) ComPacket_default 2000 d w = Some (Inr (True, q, d, w'))"
      "pending w' = rest" by blast
    have closed: "closed w'" by (rule receivePacket_keeps [OF go(1) closed_keeps assms(1)])
    consider (hello) "m_type q = ControlPacket" "getControlMessage q = Inr Hello"
      | (nothing) "m_type q = ControlPacket" "m_data q = []"
      | (other) "\<not> (m_type q = ControlPacket \<and> getControlMessage q = Inr Hello)"
        "\<not> (m_type q = ControlPacket \<and> m_data q = [])"
      by blast
    then show ?thesis
    proof cases
      case hello
      have "pending w = wire q @ pending w'" using p(1) go(2) by simp
      from receiveLoop_hello [OF go(1) closed assms(2) this p(2) hello] hello show ?thesis
        by (simp add: handshake_run_def dec Cons)
    next
      case nothing
      with go(1) show ?thesis
        by (simp add: handshake_run_def dec Cons receiveLoop_def receiveHelloMessage_def getType_def
            getControlMessage_def)
    next
      case other
      with receiveLoop_no_hello [OF go(1) other] show ?thesis
        by (auto simp: handshake_run_def dec Cons signalTransportError_def subscribers_def fun_eq_iff)
    qed
  qed
qed

end

end
