(* ===== verification/Ipv4Address.thy ===== *)
theory Ipv4Address
  imports Byte_Order
begin

text \<open>
  IPv4 addresses (network/Ipv4Address.h, network/Ipv4Address.cpp), for the POSIX build.
  The address object is a \<open>sockaddr_storage\<close> that is read and written as a \<open>sockaddr_in\<close>:
  family, port and address, the last two in network byte order. The resolver calls
  \<open>gethostbyname\<close> and \<open>getnameinfo\<close> of the system are parameters.
\<close>

section \<open>The object\<close>

record ipv4_address =
  ss_family :: u16
  sin_port :: u16
  sin_addr :: u32

definition AF_INET :: u16 where "AF_INET = 2"

definition IsValid :: "ipv4_address \<Rightarrow> bool" where
  "IsValid a \<longleftrightarrow> ss_family a = AF_INET"

text \<open>The default constructor sets the family only; the rest is what the memory held.\<close>

definition Ipv4Address_default :: "ipv4_address \<Rightarrow> ipv4_address" where
  "Ipv4Address_default memory = memory\<lparr>ss_family := AF_INET - 1\<rparr>"

text \<open>
  \<open>gethostbyname\<close> gives the four bytes of an address, or nothing. The port number is an
  \<open>int\<close>, which \<open>htons\<close> takes modulo \<open>2\<^sup>1\<^sup>6\<close>. The object is zeroed first.
\<close>

definition GetHostByName ::
    "host_order \<Rightarrow> (string \<Rightarrow> byte list option) \<Rightarrow> string \<Rightarrow> int \<Rightarrow> ipv4_address" where
  "GetHostByName h gethostbyname hostname portNumber =
     (let zero = \<lparr>ss_family = 0, sin_port = 0, sin_addr = 0\<rparr>
      in (case gethostbyname hostname of
            None \<Rightarrow> zero\<lparr>ss_family := AF_INET - 1\<rparr>
          | Some bytes \<Rightarrow>
              zero\<lparr>ss_family := AF_INET, sin_addr := load32 h bytes,
                   sin_port := htons h (word_of_int portNumber)\<rparr>))"

definition Ipv4Address_ctor ::
    "host_order \<Rightarrow> (string \<Rightarrow> byte list option) \<Rightarrow> string \<Rightarrow> int \<Rightarrow> ipv4_address" where
  "Ipv4Address_ctor h gethostbyname hostname portNumber =
     GetHostByName h gethostbyname hostname portNumber"

definition Ipv4Address_copy :: "ipv4_address \<Rightarrow> ipv4_address" where
  "Ipv4Address_copy other =
     \<lparr>ss_family = ss_family other, sin_port = sin_port other, sin_addr = sin_addr other\<rparr>"

definition GetPort :: "host_order \<Rightarrow> ipv4_address \<Rightarrow> u16" where
  "GetPort h a = ntohs h (sin_port a)"

definition SetPort :: "host_order \<Rightarrow> u16 \<Rightarrow> ipv4_address \<Rightarrow> ipv4_address" where
  "SetPort h port a = a\<lparr>sin_port := htons h port\<rparr>"

section \<open>Host names\<close>

datatype gai_result = GaiOk | GaiOverflow | GaiOther

type_synonym getnameinfo = "ipv4_address \<Rightarrow> nat \<Rightarrow> bool \<Rightarrow> gai_result \<times> string"

text \<open>
  The loop that grows the buffer while the name does not fit in it. \<open>None\<close>: never returns.
\<close>

partial_function (option) growBuffer ::
    "(nat \<Rightarrow> gai_result \<times> string) \<Rightarrow> nat \<Rightarrow> (gai_result \<times> string) option" where
  [code]: "growBuffer lookup sz =
     (let (err, buffer) = lookup sz
      in if err = GaiOverflow \<and> sz < 512 then growBuffer lookup (sz * 2)
         else Some (err, buffer))"

definition GetHostNameInfo ::
    "getnameinfo \<Rightarrow> ipv4_address \<Rightarrow> bool \<Rightarrow> string \<Rightarrow> string option" where
  "GetHostNameInfo gni a numeric host =
     map_option (\<lambda>(err, buffer). if err = GaiOk then buffer else host)
       (growBuffer (\<lambda>sz. gni a sz numeric) 16)"

definition GetHostName :: "getnameinfo \<Rightarrow> ipv4_address \<Rightarrow> string \<Rightarrow> string option" where
  "GetHostName gni a host = GetHostNameInfo gni a False host"

definition GetHostAddress :: "getnameinfo \<Rightarrow> ipv4_address \<Rightarrow> string \<Rightarrow> string option" where
  "GetHostAddress gni a host = GetHostNameInfo gni a True host"

section \<open>Properties of the operations\<close>

lemma Ipv4Address_default_invalid [simp]: "\<not> IsValid (Ipv4Address_default memory)"
  by (simp add: IsValid_def Ipv4Address_default_def AF_INET_def)

lemma GetHostByName_valid:
  "IsValid (GetHostByName h res hostname port) \<longleftrightarrow> res hostname \<noteq> None"
  by (simp add: IsValid_def GetHostByName_def AF_INET_def Let_def split: option.split)

lemma GetPort_SetPort [simp]: "GetPort h (SetPort h p a) = p"
  by (simp add: GetPort_def SetPort_def)

lemma IsValid_SetPort [simp]: "IsValid (SetPort h p a) = IsValid a"
  by (simp add: IsValid_def SetPort_def)

lemma Ipv4Address_copy_id [simp]: "Ipv4Address_copy a = a"
  by (simp add: Ipv4Address_copy_def)

lemma GetPort_GetHostByName:
  "res hostname \<noteq> None \<Longrightarrow>
    GetPort h (GetHostByName h res hostname port) = word_of_int port"
  by (auto simp: GetPort_def GetHostByName_def Let_def)

text \<open>
  The call returns whatever \<open>getnameinfo\<close> does: the loop doubles a positive size.
\<close>

lemma growBuffer_returns: "0 < sz \<Longrightarrow> growBuffer lookup sz \<noteq> None"
proof (induction "512 - sz" arbitrary: sz rule: less_induct)
  case less
  show ?case
  proof (cases "lookup sz")
    case (Pair err buffer)
    with less show ?thesis
      by (subst growBuffer.simps) auto
  qed
qed

text \<open>
  With the documented behaviour of \<open>getnameinfo\<close> on a name (overflow exactly when the
  buffer cannot hold the name and its terminating zero) a name of up to 511 characters
  is found.
\<close>

definition finds_name :: "(nat \<Rightarrow> gai_result \<times> string) \<Rightarrow> string \<Rightarrow> bool" where
  "finds_name lookup name \<longleftrightarrow>
     (\<forall>sz. lookup sz = (if length name < sz then (GaiOk, name) else (GaiOverflow, [])))"

lemma growBuffer_finds:
  assumes "finds_name lookup name" "sz = 16 * 2 ^ k" "k \<le> 5"
  shows "growBuffer lookup sz =
    Some (if length name < 512 then (GaiOk, name) else (GaiOverflow, []))"
  using assms(2,3)
proof (induction "5 - k" arbitrary: k sz)
  case 0
  then show ?case
    using assms(1) by (subst growBuffer.simps) (auto simp: finds_name_def)
next
  case (Suc d)
  then have "sz < 512"
    using power_strict_increasing [of k 5 "2 :: nat"] by simp
  moreover have "growBuffer lookup (sz * 2) =
    Some (if length name < 512 then (GaiOk, name) else (GaiOverflow, []))"
    using Suc.hyps(2) Suc.prems by (intro Suc.hyps(1) [of "Suc k"]) auto
  ultimately show ?case
    using assms(1) by (subst growBuffer.simps) (auto simp: finds_name_def)
qed

lemma GetHostNameInfo_finds:
  "finds_name (\<lambda>sz. gni a sz numeric) name \<Longrightarrow>
    GetHostNameInfo gni a numeric host = Some (if length name < 512 then name else host)"
  by (simp add: GetHostNameInfo_def growBuffer_finds [where k = 0])

end
