(* ===== verification/Socket.thy ===== *)
theory Socket
  imports AbstractSocket Ipv4Address
begin

text \<open>
  The socket classes (network/Socket.h, network/Socket.cpp, network/TcpSocket.cpp,
  network/UdpSocket.cpp) in their POSIX build. The system calls are parameters: a record of
  functions over the state \<open>'k\<close> of the kernel and of what is connected to it. Each call
  returns what the C function returns; \<open>sys_errno\<close> reads \<open>errno\<close> afterwards.
\<close>

section \<open>System calls\<close>

datatype errno = EAGAIN | EWOULDBLOCK | EOther int

datatype status_flag = O_ASYNC | O_NONBLOCK

datatype socket_kind = SOCK_STREAM | SOCK_DGRAM

datatype socket_option = SO_REUSEADDR | TCP_NODELAY

text \<open>The \<open>revents\<close> of \<open>poll\<close>, as the set of events it reports.\<close>

datatype poll_event = POLLIN | POLLOUT | POLLERR | POLLHUP | POLLNVAL

record 'k kernel =
  sys_errno :: "'k \<Rightarrow> errno"
  sys_socket :: "socket_kind \<Rightarrow> 'k \<Rightarrow> int \<times> 'k"
  sys_close :: "int \<Rightarrow> 'k \<Rightarrow> 'k"
  sys_bind :: "int \<Rightarrow> ipv4_address \<Rightarrow> 'k \<Rightarrow> int \<times> 'k"
  sys_shutdown :: "int \<Rightarrow> 'k \<Rightarrow> int \<times> 'k"
  sys_connect :: "int \<Rightarrow> ipv4_address \<Rightarrow> 'k \<Rightarrow> int \<times> 'k"
  sys_recv :: "int \<Rightarrow> usize \<Rightarrow> 'k \<Rightarrow> int \<times> byte list \<times> 'k"
  sys_send :: "int \<Rightarrow> byte list \<Rightarrow> 'k \<Rightarrow> int \<times> 'k"
  sys_sendto :: "int \<Rightarrow> byte list \<Rightarrow> ipv4_address \<Rightarrow> 'k \<Rightarrow> int \<times> 'k"
  sys_recvfrom :: "int \<Rightarrow> usize \<Rightarrow> 'k \<Rightarrow> int \<times> byte list \<times> ipv4_address \<times> 'k"
  sys_setfl :: "int \<Rightarrow> status_flag \<Rightarrow> 'k \<Rightarrow> 'k"
  sys_getpeername :: "int \<Rightarrow> 'k \<Rightarrow> int \<times> ipv4_address \<times> nat \<times> 'k"
  sys_poll :: "int \<Rightarrow> poll_event \<Rightarrow> int \<Rightarrow> 'k \<Rightarrow> int \<times> poll_event list \<times> 'k"
  sys_listen :: "int \<Rightarrow> int \<Rightarrow> 'k \<Rightarrow> int \<times> 'k"
  sys_accept :: "int \<Rightarrow> 'k \<Rightarrow> int \<times> 'k"
  sys_setsockopt :: "int \<Rightarrow> socket_option \<Rightarrow> int \<Rightarrow> 'k \<Rightarrow> int \<times> 'k"

section \<open>Socket\<close>

record socket =
  m_socket :: int

definition Socket_ctor :: socket where "Socket_ctor = \<lparr>m_socket = -1\<rparr>"

definition Socket_dtor :: "'k kernel \<Rightarrow> socket \<Rightarrow> 'k \<Rightarrow> 'k" where
  "Socket_dtor K s k = (if m_socket s \<noteq> -1 then sys_close K (m_socket s) k else k)"

definition Socket_IsValid :: "socket \<Rightarrow> bool" where
  "Socket_IsValid s \<longleftrightarrow> 0 \<le> m_socket s"

definition INADDR_ANY :: u32 where "INADDR_ANY = 0"

definition Socket_Bind ::
    "host_order \<Rightarrow> 'k kernel \<Rightarrow> socket \<Rightarrow> int \<Rightarrow> 'k \<Rightarrow> bool \<times> 'k" where
  "Socket_Bind h K s portNumber k =
     (let addr = \<lparr>ss_family = AF_INET, sin_port = htons h (word_of_int portNumber),
                  sin_addr = htonl h INADDR_ANY\<rparr>;
          (err, k') = sys_bind K (m_socket s) addr k
      in (err \<noteq> -1, k'))"

definition Socket_Shutdown :: "'k kernel \<Rightarrow> socket \<Rightarrow> 'k \<Rightarrow> 'k" where
  "Socket_Shutdown K s k = snd (sys_shutdown K (m_socket s) k)"

definition Socket_Connect ::
    "'k kernel \<Rightarrow> socket \<Rightarrow> ipv4_address \<Rightarrow> 'k \<Rightarrow> bool \<times> 'k" where
  "Socket_Connect K s addr k =
     (if \<not> IsValid addr then (False, k)
      else let (err, k') = sys_connect K (m_socket s) addr k in (err \<noteq> -1, k'))"

definition Socket_ConnectHost ::
    "host_order \<Rightarrow> (string \<Rightarrow> byte list option) \<Rightarrow> 'k kernel \<Rightarrow> socket \<Rightarrow> string \<Rightarrow> int \<Rightarrow> 'k \<Rightarrow>
      bool \<times> 'k" where
  "Socket_ConnectHost h gethostbyname K s hostname portNumber k =
     Socket_Connect K s (Ipv4Address_ctor h gethostbyname hostname portNumber) k"

definition would_block :: "errno \<Rightarrow> bool" where
  "would_block e \<longleftrightarrow> e = EAGAIN \<or> e = EWOULDBLOCK"

definition Socket_read ::
    "'k kernel \<Rightarrow> socket \<Rightarrow> usize \<Rightarrow> 'k \<Rightarrow> int \<times> byte list \<times> 'k" where
  "Socket_read K s maxBytes k =
     (let (r, bytes, k') = sys_recv K (m_socket s) maxBytes k;
          n = to_int32 r
      in (if n = -1 \<and> would_block (sys_errno K k') then 0 else n, bytes, k'))"

definition Socket_write :: "'k kernel \<Rightarrow> socket \<Rightarrow> byte list \<Rightarrow> 'k \<Rightarrow> int \<times> 'k" where
  "Socket_write K s message k =
     (let (r, k') = sys_send K (m_socket s) message k;
          n = to_int32 r
      in (if n = -1 \<and> would_block (sys_errno K k') then 0 else n, k'))"

definition Socket_setBlocking :: "'k kernel \<Rightarrow> socket \<Rightarrow> bool \<Rightarrow> 'k \<Rightarrow> 'k" where
  "Socket_setBlocking K s block k =
     (if block then sys_setfl K (m_socket s) O_ASYNC k
      else sys_setfl K (m_socket s) O_NONBLOCK k)"

definition sizeof_sockaddr_storage :: nat where "sizeof_sockaddr_storage = 128"

text \<open>The address object is overwritten even when the call then returns false.\<close>

definition Socket_GetPeerAddress ::
    "'k kernel \<Rightarrow> socket \<Rightarrow> ipv4_address \<Rightarrow> 'k \<Rightarrow> bool \<times> ipv4_address \<times> 'k" where
  "Socket_GetPeerAddress K s address k =
     (let (err, addr, len, k') = sys_getpeername K (m_socket s) k
      in (err = 0 \<and> len \<le> sizeof_sockaddr_storage \<and> ss_family addr = AF_INET,
          if err = 0 then addr else address, k'))"

definition WaitForSingleEvent ::
    "'k kernel \<Rightarrow> socket \<Rightarrow> poll_event \<Rightarrow> int \<Rightarrow> 'k \<Rightarrow> bool \<times> 'k" where
  "WaitForSingleEvent K s pollEvent timeoutInMilliseconds k =
     (let (val, revents, k') = sys_poll K (m_socket s) pollEvent timeoutInMilliseconds k
      in (val = 1 \<and> pollEvent \<in> set revents, k'))"

definition Socket_readyForReading :: "'k kernel \<Rightarrow> socket \<Rightarrow> int \<Rightarrow> 'k \<Rightarrow> bool \<times> 'k" where
  "Socket_readyForReading K s timeoutInMilliseconds k =
     WaitForSingleEvent K s POLLIN timeoutInMilliseconds k"

definition Socket_ReadyForWriting :: "'k kernel \<Rightarrow> socket \<Rightarrow> int \<Rightarrow> 'k \<Rightarrow> bool \<times> 'k" where
  "Socket_ReadyForWriting K s timeoutInMilliseconds k =
     WaitForSingleEvent K s POLLOUT timeoutInMilliseconds k"

section \<open>TcpSocket\<close>

definition TcpSocket_ctor :: "'k kernel \<Rightarrow> 'k \<Rightarrow> socket outcome \<times> 'k" where
  "TcpSocket_ctor K k =
     (let (fd, k') = sys_socket K SOCK_STREAM k
      in (if fd = -1 then Inl AssertionFailed else Inr (Socket_ctor\<lparr>m_socket := fd\<rparr>), k'))"

definition TcpSocket_of_fd :: "int \<Rightarrow> socket" where
  "TcpSocket_of_fd fd = Socket_ctor\<lparr>m_socket := fd\<rparr>"

definition TcpSocket_Listen :: "'k kernel \<Rightarrow> socket \<Rightarrow> int \<Rightarrow> 'k \<Rightarrow> bool \<times> 'k" where
  "TcpSocket_Listen K s queueSize k =
     (let (err, k') = sys_listen K (m_socket s) queueSize k in (err = 0, k'))"

definition TcpSocket_Accept :: "'k kernel \<Rightarrow> socket \<Rightarrow> 'k \<Rightarrow> socket option \<times> 'k" where
  "TcpSocket_Accept K s k =
     (let (_, k1) = sys_setsockopt K (m_socket s) SO_REUSEADDR 1 k;
          (fd, k2) = sys_accept K (m_socket s) k1
      in (if fd \<noteq> -1 then Some (TcpSocket_of_fd fd) else None, k2))"

definition SetNagleBufferingOn :: "'k kernel \<Rightarrow> socket \<Rightarrow> 'k \<Rightarrow> 'k" where
  "SetNagleBufferingOn K s k = snd (sys_setsockopt K (m_socket s) TCP_NODELAY 0 k)"

definition SetNagleBufferingOff :: "'k kernel \<Rightarrow> socket \<Rightarrow> 'k \<Rightarrow> 'k" where
  "SetNagleBufferingOff K s k = snd (sys_setsockopt K (m_socket s) TCP_NODELAY 1 k)"

section \<open>UdpSocket\<close>

definition UdpSocket_ctor :: "'k kernel \<Rightarrow> 'k \<Rightarrow> socket outcome \<times> 'k" where
  "UdpSocket_ctor K k =
     (let (fd, k') = sys_socket K SOCK_DGRAM k
      in (if fd = -1 then Inl AssertionFailed else Inr (Socket_ctor\<lparr>m_socket := fd\<rparr>), k'))"

definition UdpSocket_SendTo ::
    "'k kernel \<Rightarrow> socket \<Rightarrow> ipv4_address \<Rightarrow> byte list \<Rightarrow> 'k \<Rightarrow> int \<times> 'k" where
  "UdpSocket_SendTo K s addr message k =
     (if \<not> IsValid addr then (-1, k)
      else let (r, k') = sys_sendto K (m_socket s) message addr k;
               n = to_int32 r
           in (if n = -1 \<and> would_block (sys_errno K k') then 0 else n, k'))"

text \<open>
  The address argument may be null. A given one is overwritten by the kernel with the
  address of the sender.
\<close>

definition UdpSocket_ReceiveFrom ::
    "'k kernel \<Rightarrow> socket \<Rightarrow> usize \<Rightarrow> ipv4_address option \<Rightarrow> 'k \<Rightarrow>
      int \<times> byte list \<times> ipv4_address option \<times> 'k" where
  "UdpSocket_ReceiveFrom K s sz addr k =
     (if \<exists>a. addr = Some a \<and> \<not> IsValid a then (-1, [], addr, k)
      else let (r, bytes, source, k') = sys_recvfrom K (m_socket s) sz k;
               n = to_int32 r
           in (if n = -1 \<and> would_block (sys_errno K k') then 0 else n, bytes,
               if 0 \<le> n then map_option (\<lambda>_. source) addr else addr, k'))"

section \<open>A socket as the transport of a muxer and a demuxer\<close>

definition socket_writer :: "'k kernel \<Rightarrow> socket \<Rightarrow> 'k abstract_writer" where
  "socket_writer K s =
     \<lparr>wr_setBlocking = Socket_setBlocking K s, wr_write = Socket_write K s\<rparr>"

definition socket_reader :: "'k kernel \<Rightarrow> socket \<Rightarrow> 'k abstract_reader" where
  "socket_reader K s =
     \<lparr>rd_setBlocking = Socket_setBlocking K s, rd_read = Socket_read K s,
      rd_readyForReading = Socket_readyForReading K s\<rparr>"

text \<open>
  The documented behaviour of \<open>send\<close>, \<open>recv\<close> and \<open>poll\<close> on a connected, non-blocking
  stream socket whose connection does not fail while there is data to move: a call moves a
  prefix of the data (never more than an \<open>int\<close> can count) or reports that it would block,
  and it does not do so forever.
\<close>

definition kernel_sends ::
    "'k kernel \<Rightarrow> int \<Rightarrow> ('k \<Rightarrow> byte list) \<Rightarrow> ('k \<Rightarrow> nat) \<Rightarrow> bool" where
  "kernel_sends K fd sent lag \<longleftrightarrow> (\<forall>flag k. sent (sys_setfl K fd flag k) = sent k) \<and>
     (\<forall>data k r k'. sys_send K fd data k = (r, k') \<longrightarrow>
        (r = -1 \<and> would_block (sys_errno K k') \<and> sent k' = sent k \<and> lag k' < lag k) \<or>
        (0 \<le> r \<and> r \<le> int (length data) \<and> r < 2 ^ 31 \<and> sent k' = sent k @ take (nat r) data \<and>
         (r = 0 \<longrightarrow> data \<noteq> [] \<longrightarrow> lag k' < lag k)))"

definition kernel_receives ::
    "'k kernel \<Rightarrow> int \<Rightarrow> ('k \<Rightarrow> byte list) \<Rightarrow> ('k \<Rightarrow> nat) \<Rightarrow> bool" where
  "kernel_receives K fd pending lag \<longleftrightarrow> (\<forall>flag k. pending (sys_setfl K fd flag k) = pending k) \<and>
     (\<forall>n k r bytes k'. sys_recv K fd n k = (r, bytes, k') \<longrightarrow>
        (r = -1 \<and> would_block (sys_errno K k') \<and> bytes = [] \<and> pending k' = pending k \<and>
         (pending k \<noteq> [] \<longrightarrow> lag k' < lag k)) \<or>
        (r = -1 \<and> \<not> would_block (sys_errno K k') \<and> pending k = [] \<and> pending k' = []) \<or>
        (0 \<le> r \<and> r \<le> int (unat n) \<and> r < 2 ^ 31 \<and> r = int (length bytes) \<and>
         pending k = bytes @ pending k' \<and>
         (r = 0 \<longrightarrow> 0 < n \<longrightarrow> pending k \<noteq> [] \<longrightarrow> lag k' < lag k))) \<and>
     (\<forall>e t k v revents k'. sys_poll K fd e t k = (v, revents, k') \<longrightarrow> pending k' = pending k \<and>
        (pending k \<noteq> [] \<longrightarrow> lag k' \<le> lag k \<and>
          (\<not> (v = 1 \<and> e \<in> set revents) \<longrightarrow> lag k' < lag k)))"

theorem socket_sink:
  assumes "kernel_sends K (m_socket s) sent lag"
  shows "sink_contract (socket_writer K s) sent lag"
  using assms
  by (fastforce simp: sink_contract_def writer_contract_def socket_writer_def Socket_write_def
      Socket_setBlocking_def
      kernel_sends_def Let_def split: prod.splits if_splits)

text \<open>One read, in the cases of the kernel's behaviour.\<close>

lemma Socket_read_cases:
  assumes "kernel_receives K (m_socket s) pending lag" "Socket_read K s n k = (r, bytes, k')"
  obtains (blocked) "r = 0" "bytes = []" "pending k' = pending k"
      "pending k \<noteq> [] \<longrightarrow> lag k' < lag k"
    | (failed) "r = -1" "pending k = []" "pending k' = []"
    | (got) "0 \<le> r" "r \<le> int (unat n)" "r = int (length bytes)" "pending k = bytes @ pending k'"
      "r = 0 \<longrightarrow> 0 < n \<longrightarrow> pending k \<noteq> [] \<longrightarrow> lag k' < lag k"
proof -
  obtain r0 where r0: "sys_recv K (m_socket s) n k = (r0, bytes, k')"
    and r: "r = (if to_int32 r0 = -1 \<and> would_block (sys_errno K k') then 0 else to_int32 r0)"
    using assms(2) by (auto simp: Socket_read_def Let_def split: prod.splits)
  have "(r0 = -1 \<and> would_block (sys_errno K k') \<and> bytes = [] \<and> pending k' = pending k \<and>
         (pending k \<noteq> [] \<longrightarrow> lag k' < lag k)) \<or>
        (r0 = -1 \<and> \<not> would_block (sys_errno K k') \<and> pending k = [] \<and> pending k' = []) \<or>
        (0 \<le> r0 \<and> r0 \<le> int (unat n) \<and> r0 < 2 ^ 31 \<and> r0 = int (length bytes) \<and>
         pending k = bytes @ pending k' \<and>
         (r0 = 0 \<longrightarrow> 0 < n \<longrightarrow> pending k \<noteq> [] \<longrightarrow> lag k' < lag k))"
    using assms(1) r0 unfolding kernel_receives_def by blast
  then show ?thesis
    using r blocked failed got by (elim disjE conjE) auto
qed

theorem socket_source:
  assumes "kernel_receives K (m_socket s) pending lag"
  shows "source_contract (socket_reader K s) pending lag"
proof -
  have read: "if r < 0 then pending k = [] \<and> pending k' = []
      else r \<le> int (unat n) \<and> length bytes = nat r \<and> pending k = bytes @ pending k'"
    and progress: "pending k \<noteq> [] \<Longrightarrow> 0 < n \<Longrightarrow> r = 0 \<Longrightarrow> lag k' < lag k"
    if "Socket_read K s n k = (r, bytes, k')" for n k r bytes k'
    using assms that by (cases rule: Socket_read_cases; auto)+
  have poll: "pending k' = pending k \<and>
      (pending k \<noteq> [] \<longrightarrow> lag k' \<le> lag k \<and> (\<not> b \<longrightarrow> lag k' < lag k))"
    if "Socket_readyForReading K s t k = (b, k')" for t k b k'
    using assms that unfolding kernel_receives_def Socket_readyForReading_def WaitForSingleEvent_def
    by (auto simp: Let_def split: prod.splits)
  have mode: "pending (Socket_setBlocking K s b k) = pending k" for b k
    using assms by (simp add: kernel_receives_def Socket_setBlocking_def)
  show ?thesis
    unfolding source_contract_def reader_contract_def socket_reader_def
      abstract_reader.select_convs
    using read progress poll mode by blast
qed

text \<open>
  A connection that the peer has aborted: once the bytes already sent are read, \<open>recv\<close>
  fails, and \<open>poll\<close> reports that it would return at once.
\<close>

definition kernel_fails ::
    "'k kernel \<Rightarrow> int \<Rightarrow> ('k \<Rightarrow> byte list) \<Rightarrow> ('k \<Rightarrow> nat) \<Rightarrow> ('k \<Rightarrow> bool) \<Rightarrow> bool" where
  "kernel_fails K fd pending lag closed \<longleftrightarrow>
     (\<forall>n k r bytes k'. sys_recv K fd n k = (r, bytes, k') \<longrightarrow> closed k \<longrightarrow> closed k' \<and>
        (pending k = [] \<longrightarrow> 0 < n \<longrightarrow> (r = -1 \<and> \<not> would_block (sys_errno K k')) \<or> lag k' < lag k)) \<and>
     (\<forall>e t k v revents k'. sys_poll K fd e t k = (v, revents, k') \<longrightarrow> closed k \<longrightarrow> closed k' \<and>
        (pending k = [] \<longrightarrow> (v = 1 \<and> e \<in> set revents) \<or> lag k' < lag k))"

theorem socket_closing:
  assumes "kernel_receives K (m_socket s) pending lag" "kernel_fails K (m_socket s) pending lag closed"
  shows "closing_contract (socket_reader K s) pending lag closed"
proof -
  have read: "closed k' \<and> (pending k = [] \<longrightarrow> 0 < n \<longrightarrow> r < 0 \<or> lag k' < lag k)"
    if "Socket_read K s n k = (r, bytes, k')" "closed k" for n k r bytes k'
  proof -
    note rd = that(1)
    obtain r0 where r0: "sys_recv K (m_socket s) n k = (r0, bytes, k')"
      and r: "r = (if to_int32 r0 = -1 \<and> would_block (sys_errno K k') then 0 else to_int32 r0)"
      using rd by (auto simp: Socket_read_def Let_def split: prod.splits)
    have "closed k' \<and> (pending k = [] \<longrightarrow> 0 < n \<longrightarrow>
        (r0 = -1 \<and> \<not> would_block (sys_errno K k')) \<or> lag k' < lag k)"
      using assms(2) r0 that(2) unfolding kernel_fails_def by blast
    with r show ?thesis by auto
  qed
  have poll: "closed k' \<and> (pending k = [] \<longrightarrow> b \<or> lag k' < lag k)"
    if "Socket_readyForReading K s t k = (b, k')" "closed k" for t k b k'
  proof -
    note rdy = that(1)
    obtain v revents where v: "sys_poll K (m_socket s) POLLIN t k = (v, revents, k')"
      and b: "b \<longleftrightarrow> v = 1 \<and> POLLIN \<in> set revents"
      using rdy by (auto simp: Socket_readyForReading_def WaitForSingleEvent_def split: prod.splits)
    have "closed k' \<and> (pending k = [] \<longrightarrow> (v = 1 \<and> POLLIN \<in> set revents) \<or> lag k' < lag k)"
      using conjunct2 [OF assms(2) [unfolded kernel_fails_def], rule_format, OF v that(2)] by simp
    with b show ?thesis by simp
  qed
  show ?thesis
    unfolding closing_contract_def reader_keeps_def
    using socket_source [OF assms(1)] read poll by (simp add: socket_reader_def)
qed

text \<open>
  Connecting by name: no connection is tried for a name that does not resolve; otherwise the
  result is that of \<open>connect\<close> for the resolved address and the port, in network byte order
  and modulo \<open>2\<^sup>1\<^sup>6\<close>.
\<close>

lemma connect_by_name:
  "Socket_ConnectHost h gethostbyname K s hostname portNumber k =
     (case gethostbyname hostname of
        None \<Rightarrow> (False, k)
      | Some bytes \<Rightarrow>
          (fst (sys_connect K (m_socket s) \<lparr>ss_family = AF_INET, sin_port = htons h (word_of_int portNumber),
             sin_addr = load32 h bytes\<rparr> k) \<noteq> -1,
           snd (sys_connect K (m_socket s) \<lparr>ss_family = AF_INET, sin_port = htons h (word_of_int portNumber),
             sin_addr = load32 h bytes\<rparr> k)))"
  by (auto simp: Socket_ConnectHost_def Socket_Connect_def Ipv4Address_ctor_def GetHostByName_def IsValid_def
      AF_INET_def Let_def split: option.split prod.split)

section \<open>A kernel in memory\<close>

text \<open>
  A concrete kernel with the documented behaviour, on which the parameters of the model
  can be evaluated: one connection, whose peer has sent (or will send) the bytes \<open>incoming\<close>
  and receives those in \<open>outgoing\<close>. The entries of \<open>script\<close> say how many bytes the next
  calls may move, 0 standing for a call that would block and for a wait that times out; after
  them a call moves all it can. When nothing is left to receive, \<open>recv\<close> would block, or fails if \<open>reset\<close> is set.
\<close>

record memory_kernel =
  outgoing :: "byte list"
  incoming :: "byte list"
  script :: "nat list"
  reset :: bool
  last_errno :: errno

definition move_limit :: "memory_kernel \<Rightarrow> nat" where
  "move_limit k = (case script k of [] \<Rightarrow> 2 ^ 31 - 1 | m # _ \<Rightarrow> min m (2 ^ 31 - 1))"

definition memory_send :: "byte list \<Rightarrow> memory_kernel \<Rightarrow> int \<times> memory_kernel" where
  "memory_send data k =
     (let m = min (move_limit k) (length data); k' = k\<lparr>script := tl (script k)\<rparr>
      in if m = 0 \<and> script k \<noteq> [] then (-1, k'\<lparr>last_errno := EAGAIN\<rparr>)
         else (int m, k'\<lparr>outgoing := outgoing k @ take m data\<rparr>))"

definition memory_recv :: "usize \<Rightarrow> memory_kernel \<Rightarrow> int \<times> byte list \<times> memory_kernel" where
  "memory_recv n k =
     (let m = min (min (move_limit k) (unat n)) (length (incoming k));
          k' = k\<lparr>script := tl (script k)\<rparr>
      in if incoming k = [] then
           (-1, [], k'\<lparr>last_errno := (if reset k then EOther 104 else EAGAIN)\<rparr>)
         else if m = 0 \<and> script k \<noteq> [] then (-1, [], k'\<lparr>last_errno := EAGAIN\<rparr>)
         else (int m, take m (incoming k), k'\<lparr>incoming := drop m (incoming k)\<rparr>))"

definition memory_poll ::
    "poll_event \<Rightarrow> memory_kernel \<Rightarrow> int \<times> poll_event list \<times> memory_kernel" where
  "memory_poll e k =
     (if incoming k \<noteq> [] \<and> script k \<noteq> [] \<and> hd (script k) = 0
      then (0, [], k\<lparr>script := tl (script k)\<rparr>)
      else if incoming k \<noteq> [] \<or> reset k then (1, [e], k) else (0, [], k))"

definition memory_calls :: "memory_kernel kernel" where
  "memory_calls =
     \<lparr>sys_errno = last_errno, sys_socket = \<lambda>_ k. (3, k), sys_close = \<lambda>_ k. k,
      sys_bind = \<lambda>_ _ k. (0, k), sys_shutdown = \<lambda>_ k. (0, k), sys_connect = \<lambda>_ _ k. (0, k),
      sys_recv = \<lambda>_. memory_recv, sys_send = \<lambda>_. memory_send,
      sys_sendto = \<lambda>_ data _. memory_send data,
      sys_recvfrom = \<lambda>_ n k. (let (r, bytes, k') = memory_recv n k in
        (r, bytes, \<lparr>ss_family = AF_INET, sin_port = 0, sin_addr = 0\<rparr>, k')),
      sys_setfl = \<lambda>_ _ k. k,
      sys_getpeername = \<lambda>_ k. (0, \<lparr>ss_family = AF_INET, sin_port = 0, sin_addr = 0\<rparr>, 16, k),
      sys_poll = \<lambda>_ e _. memory_poll e, sys_listen = \<lambda>_ _ k. (0, k),
      sys_accept = \<lambda>_ k. (4, k), sys_setsockopt = \<lambda>_ _ _ k. (0, k)\<rparr>"

lemma memory_kernel_sends: "kernel_sends memory_calls fd outgoing (length \<circ> script)"
  unfolding kernel_sends_def
proof (intro conjI allI impI)
  show "outgoing (sys_setfl memory_calls fd flag k) = outgoing k" for flag k
    by (simp add: memory_calls_def)
next
  fix data k r k'
  assume "sys_send memory_calls fd data k = (r, k')"
  then show "(r = -1 \<and> would_block (sys_errno memory_calls k') \<and> outgoing k' = outgoing k \<and>
      (length \<circ> script) k' < (length \<circ> script) k) \<or>
    (0 \<le> r \<and> r \<le> int (length data) \<and> r < 2 ^ 31 \<and> outgoing k' = outgoing k @ take (nat r) data \<and>
      (r = 0 \<longrightarrow> data \<noteq> [] \<longrightarrow> (length \<circ> script) k' < (length \<circ> script) k))"
    by (cases "script k") (auto simp: memory_calls_def memory_send_def move_limit_def
        would_block_def Let_def min_def split: if_splits)
qed

lemma memory_recv_cases:
  assumes "memory_recv n k = (r, bytes, k')"
  shows "(r = -1 \<and> would_block (last_errno k') \<and> bytes = [] \<and> incoming k' = incoming k \<and>
       (incoming k \<noteq> [] \<longrightarrow> length (script k') < length (script k))) \<or>
    (r = -1 \<and> \<not> would_block (last_errno k') \<and> incoming k = [] \<and> incoming k' = []) \<or>
    (0 \<le> r \<and> r \<le> int (unat n) \<and> r < 2 ^ 31 \<and> r = int (length bytes) \<and>
       incoming k = bytes @ incoming k' \<and>
       (r = 0 \<longrightarrow> 0 < n \<longrightarrow> incoming k \<noteq> [] \<longrightarrow> length (script k') < length (script k)))"
proof -
  define m where "m = min (min (move_limit k) (unat n)) (length (incoming k))"
  have m: "m \<le> unat n" "m \<le> length (incoming k)" "m < 2 ^ 31"
    by (auto simp: m_def move_limit_def min_def split: list.splits)
  have pos: "0 < m" if "script k = []" "0 < n" "incoming k \<noteq> []"
    using that by (simp add: m_def move_limit_def word_less_nat_alt)
  show ?thesis
  proof (cases "incoming k = [] \<or> m = 0 \<and> script k \<noteq> []")
    case True
    with assms show ?thesis
      by (auto simp: memory_recv_def Let_def would_block_def simp flip: m_def split: if_splits)
  next
    case False
    then have "r = int m" "bytes = take m (incoming k)"
      "k' = k\<lparr>script := tl (script k), incoming := drop m (incoming k)\<rparr>"
      using assms by (auto simp: memory_recv_def Let_def simp flip: m_def)
    moreover have "int m \<le> uint n"
      using m(1) by (simp only: uint_nat of_nat_le_iff)
    ultimately show ?thesis
      using False m pos by (cases "script k") (auto simp: min_absorb2)
  qed
qed

lemma memory_kernel_receives: "kernel_receives memory_calls fd incoming (length \<circ> script)"
proof -
  have "(\<forall>e k v revents k'. memory_poll e k = (v, revents, k') \<longrightarrow> incoming k' = incoming k \<and>
      (incoming k \<noteq> [] \<longrightarrow> length (script k') \<le> length (script k) \<and>
        (\<not> (v = 1 \<and> e \<in> set revents) \<longrightarrow> length (script k') < length (script k))))"
    by (auto simp: memory_poll_def split: if_splits)
  then show ?thesis
    unfolding kernel_receives_def memory_calls_def kernel.select_convs comp_apply
    using memory_recv_cases by blast
qed

interpretation memory_sink: byte_sink "socket_writer memory_calls s" outgoing "length \<circ> script"
  for s :: socket
  by (intro byte_sinkI socket_sink memory_kernel_sends)

interpretation memory_source: byte_source "socket_reader memory_calls s" incoming "length \<circ> script"
  for s :: socket
  by (intro byte_sourceI socket_source memory_kernel_receives)

lemma memory_kernel_fails: "kernel_fails memory_calls fd incoming (length \<circ> script) reset"
  unfolding kernel_fails_def memory_calls_def kernel.select_convs
  by (auto simp: memory_recv_def memory_poll_def would_block_def Let_def split: if_splits)

interpretation memory_closing:
  closing_source "socket_reader memory_calls s" incoming "length \<circ> script" reset
  for s :: socket
  by (intro closing_sourceI socket_closing memory_kernel_receives memory_kernel_fails)

end
