(* ===== verification/Sync.thy ===== *)
theory Sync
  imports Prelude
begin

text \<open>
  Synchronising the two ends of a pair of connections (Sync.cpp): \<open>syncWithClient\<close> runs in the
  server, \<open>syncWithServer\<close> in the client. Both subscribe to the ready message; the server
  sends ready messages until it gets one, the client waits for one and answers it. A ready
  message that reaches a demuxer without a subscriber is dropped. The messages under way in
  each direction all are the same packet, so they are counted.
\<close>

section \<open>The two functions and the messages between them\<close>

text \<open>Where a function is: about to subscribe, at the head of its loop, after it, returned.\<close>

datatype server_pc = S_Subscribe | S_Check | S_Return

datatype client_pc = C_Subscribe | C_Check | C_Acknowledge | C_Return

record sync_system =
  srv_pc :: server_pc
  clientReady :: bool
  srv_subs :: bool
  cli_pc :: client_pc
  serverReady :: bool
  cli_subs :: bool
  to_client :: nat
  to_server :: nat

definition sync_start :: sync_system where
  "sync_start = \<lparr>srv_pc = S_Subscribe, clientReady = False, srv_subs = False,
     cli_pc = C_Subscribe, serverReady = False, cli_subs = False, to_client = 0, to_server = 0\<rparr>"

text \<open>One step of \<open>syncWithClient\<close>; its local subscription ends when it returns.\<close>

fun syncWithClient_step :: "sync_system \<Rightarrow> sync_system" where
  "syncWithClient_step s =
     (case srv_pc s of
        S_Subscribe \<Rightarrow> s\<lparr>srv_subs := True, srv_pc := S_Check\<rparr>
      | S_Check \<Rightarrow>
          if clientReady s then s\<lparr>srv_subs := False, srv_pc := S_Return\<rparr>
          else s\<lparr>to_client := to_client s + 1\<rparr>
      | S_Return \<Rightarrow> s)"

text \<open>One step of \<open>syncWithServer\<close>.\<close>

fun syncWithServer_step :: "sync_system \<Rightarrow> sync_system" where
  "syncWithServer_step s =
     (case cli_pc s of
        C_Subscribe \<Rightarrow> s\<lparr>cli_subs := True, cli_pc := C_Check\<rparr>
      | C_Check \<Rightarrow> if serverReady s then s\<lparr>cli_pc := C_Acknowledge\<rparr> else s
      | C_Acknowledge \<Rightarrow> s\<lparr>to_server := to_server s + 1, cli_subs := False, cli_pc := C_Return\<rparr>
      | C_Return \<Rightarrow> s)"

text \<open>
  The receive threads: a ready message arrives, and the callback of the subscription, if there
  is one, sets the flag.
\<close>

definition server_receives :: "sync_system \<Rightarrow> sync_system" where
  "server_receives s = s\<lparr>to_server := to_server s - 1, clientReady := clientReady s \<or> srv_subs s\<rparr>"

definition client_receives :: "sync_system \<Rightarrow> sync_system" where
  "client_receives s = s\<lparr>to_client := to_client s - 1, serverReady := serverReady s \<or> cli_subs s\<rparr>"

inductive sync_step :: "sync_system \<Rightarrow> sync_system \<Rightarrow> bool" where
  server: "sync_step s (syncWithClient_step s)"
| client: "sync_step s (syncWithServer_step s)"
| to_server: "0 < to_server s \<Longrightarrow> sync_step s (server_receives s)"
| to_client: "0 < to_client s \<Longrightarrow> sync_step s (client_receives s)"

inductive sync_reachable :: "sync_system \<Rightarrow> bool" where
  start: "sync_reachable sync_start"
| step: "sync_reachable s \<Longrightarrow> sync_step s s' \<Longrightarrow> sync_reachable s'"

inductive_cases sync_stepE: "sync_step s s'"

section \<open>The invariant\<close>

text \<open>
  The server is subscribed until it returns; nothing is sent before. An acknowledgement is
  under way or received exactly when the client has returned: it cannot be dropped.
\<close>

definition sync_inv :: "sync_system \<Rightarrow> bool" where
  "sync_inv s \<longleftrightarrow>
     (srv_subs s \<longleftrightarrow> srv_pc s = S_Check) \<and>
     (cli_subs s \<longleftrightarrow> cli_pc s = C_Check \<or> cli_pc s = C_Acknowledge) \<and>
     (srv_pc s = S_Subscribe \<longrightarrow> to_client s = 0 \<and> \<not> serverReady s) \<and>
     (cli_pc s \<in> {C_Acknowledge, C_Return} \<longrightarrow> serverReady s) \<and>
     (cli_pc s \<noteq> C_Return \<longrightarrow> to_server s = 0 \<and> \<not> clientReady s) \<and>
     (cli_pc s = C_Return \<longrightarrow> (if clientReady s then to_server s = 0 else to_server s = 1)) \<and>
     (srv_pc s = S_Return \<longrightarrow> clientReady s)"

lemma sync_step_inv:
  assumes "sync_step s s'" "sync_inv s"
  shows "sync_inv s'"
  using assms
proof (induction rule: sync_step.induct)
  case (server s)
  then show ?case by (cases "srv_pc s") (auto simp: sync_inv_def split: if_splits)
next
  case (client s)
  then show ?case by (cases "cli_pc s") (auto simp: sync_inv_def split: if_splits)
next
  case (to_server s)
  then show ?case by (cases "srv_pc s"; cases "cli_pc s") (auto simp: sync_inv_def server_receives_def split: if_splits)
next
  case (to_client s)
  then show ?case by (cases "srv_pc s"; cases "cli_pc s") (auto simp: sync_inv_def client_receives_def)
qed

lemma sync_reachable_inv: "sync_reachable s \<Longrightarrow> sync_inv s"
proof (induction rule: sync_reachable.induct)
  case start
  show ?case by (simp add: sync_inv_def sync_start_def)
qed (rule sync_step_inv)

section \<open>Completion\<close>

text \<open>How far both functions are from returning.\<close>

fun server_rank :: "sync_system \<Rightarrow> nat" where
  "server_rank s =
     (case srv_pc s of S_Subscribe \<Rightarrow> 2 | S_Check \<Rightarrow> 1 | S_Return \<Rightarrow> 0) + (if clientReady s then 0 else 1)"

fun client_rank :: "sync_system \<Rightarrow> nat" where
  "client_rank s =
     (case cli_pc s of C_Subscribe \<Rightarrow> 5 | C_Check \<Rightarrow> 3 | C_Acknowledge \<Rightarrow> 2 | C_Return \<Rightarrow> 0) +
     (if serverReady s then 0 else 2)"

definition sync_rank :: "sync_system \<Rightarrow> nat" where
  "sync_rank s = 2 * server_rank s + 2 * client_rank s +
     (if cli_pc s = C_Check \<and> \<not> serverReady s \<and> to_client s = 0 then 1 else 0)"

text \<open>Some sequence of one or two steps always brings both nearer to returning.\<close>

lemma sync_progress:
  assumes "sync_inv s" "srv_pc s \<noteq> S_Return \<or> cli_pc s \<noteq> C_Return"
  shows "\<exists>s'. sync_step s s' \<and> sync_rank s' < sync_rank s"
proof -
  have via: "\<exists>s'. sync_step s s' \<and> sync_rank s' < sync_rank s"
    if "sync_step s s'" "sync_rank s' < sync_rank s" for s' using that by blast
  consider (server_subscribes) "srv_pc s = S_Subscribe"
    | (client_goes_on) "cli_pc s \<noteq> C_Return" "cli_pc s = C_Check \<longrightarrow> serverReady s"
    | (client_receives) "cli_pc s = C_Check" "\<not> serverReady s" "0 < to_client s"
    | (server_repeats) "srv_pc s \<noteq> S_Subscribe" "cli_pc s = C_Check" "\<not> serverReady s" "to_client s = 0"
    | (server_returns) "cli_pc s = C_Return" "srv_pc s = S_Check" "clientReady s"
    | (server_receives) "cli_pc s = C_Return" "srv_pc s = S_Check" "\<not> clientReady s"
    using assms(2) by (cases "srv_pc s") auto
  then show ?thesis
  proof cases
    case server_subscribes
    with assms(1) show ?thesis
      by (intro via [OF server]) (auto simp: sync_rank_def sync_inv_def)
  next
    case client_goes_on
    then show ?thesis
      by (intro via [OF client]) (cases "cli_pc s"; auto simp: sync_rank_def)+
  next
    case client_receives
    with assms(1) show ?thesis
      by (intro via [OF to_client]) (auto simp: sync_rank_def client_receives_def sync_inv_def)
  next
    case server_repeats
    then have "srv_pc s = S_Check" "\<not> clientReady s"
      using assms(1) by (cases "srv_pc s"; auto simp: sync_inv_def)+
    with server_repeats show ?thesis
      by (intro via [OF server]) (auto simp: sync_rank_def)
  next
    case server_returns
    then show ?thesis by (intro via [OF server]) (auto simp: sync_rank_def)
  next
    case server_receives
    with assms(1) show ?thesis
      by (intro via [OF to_server]) (auto simp: sync_rank_def server_receives_def sync_inv_def)
  qed
qed

lemma sync_completes:
  "sync_inv s \<Longrightarrow> \<exists>s'. sync_step\<^sup>*\<^sup>* s s' \<and> srv_pc s' = S_Return \<and> cli_pc s' = C_Return"
proof (induction "sync_rank s" arbitrary: s rule: less_induct)
  case less
  show ?case
  proof (cases "srv_pc s = S_Return \<and> cli_pc s = C_Return")
    case False
    then obtain s1 where s1: "sync_step s s1" "sync_rank s1 < sync_rank s"
      using sync_progress [OF less.prems] by blast
    from less.hyps [OF s1(2) sync_step_inv [OF s1(1) less.prems]] s1(1) show ?thesis
      by (meson converse_rtranclp_into_rtranclp)
  qed blast
qed

end
