(* ===== verification/Example_Run.thy ===== *)
theory Example_Run
  imports Connection Decoder Socket Sync
begin

text \<open>
  A concrete connection over the kernel in memory, on which the hypotheses of the general
  theorems hold: a muxer and a demuxer of one packet type, a short message, and sockets
  whose calls move a few bytes at a time and sometimes would block.
\<close>

section \<open>The sending side\<close>

definition example_socket :: socket where
  "example_socket = TcpSocket_of_fd 3"

definition example_writer :: "memory_kernel abstract_writer" where
  "example_writer = socket_writer memory_calls example_socket"

definition example_reader :: "memory_kernel abstract_reader" where
  "example_reader = socket_reader memory_calls example_socket"

definition example_kernel :: memory_kernel where
  "example_kernel = \<lparr>outgoing = [], incoming = [], script = [3, 0, 2], reset = False, last_errno = EAGAIN\<rparr>"

definition example_packet :: com_packet where
  "example_packet = \<lparr>m_type = 2, m_data = [10, 20, 30]\<rparr>"

definition example_stream :: "byte list" where
  "example_stream = concat (map wire [control_packet Hello, example_packet])"

definition example_ids :: id_manager where
  "example_ids = \<lparr>m_map = index_map [InvalidString, ControlString, ''A''],
     m_reverse = [InvalidString, ControlString, ''A'']\<rparr>"

definition example_muxer :: muxer where
  "example_muxer =
     \<lparr>mux_packetIds = example_ids, mux_numPosted = 0, mux_numSent = 0, mux_txQueues = Map.empty,
      mux_transportError = False\<rparr>"

lemma example_ids_ctor: "IdManager_ctor [''A''] = Inr example_ids"
  by (simp add: IdManager_ctor_spec example_ids_def InvalidString_def ControlString_def)

lemma example_ctor: "PacketMuxer_ctor [''A''] = Inr example_muxer"
  by (simp add: PacketMuxer_ctor_def example_ids_ctor example_muxer_def)

lemma example_names_fit: "length [''A''] + 2 \<le> 2 ^ 32"
  by simp

lemma example_toId [simp]:
  "toId example_ids ''A'' = Inr 2" "toId example_ids ControlString = Inr ControlPacket"
  by (simp_all add: example_ids_def toId_def index_map_def InvalidString_def ControlString_def
      ControlPacket_def)

lemma example_kernel_contract: "kernel_sends memory_calls (m_socket s) outgoing (length \<circ> script)"
  by (rule memory_kernel_sends)

lemma example_sink: "sink_contract example_writer outgoing (length \<circ> script)"
  unfolding example_writer_def by (intro socket_sink memory_kernel_sends)

lemma example_writes: "writer_contract example_writer outgoing"
  using example_sink by (simp add: sink_contract_def)

lemma example_setBlocking [simp]: "wr_setBlocking example_writer b w = w"
  by (simp add: example_writer_def socket_writer_def Socket_setBlocking_def memory_calls_def)

definition example_queues :: "u32 \<rightharpoonup> com_packet list" where
  "example_queues = [ControlPacket \<mapsto> [control_packet Hello], 2 \<mapsto> [example_packet]]"

text \<open>The state in which the send thread has the lock and both packets are queued.\<close>

definition example_posted :: "memory_kernel send_system" where
  "example_posted =
     \<lparr>mux = example_muxer\<lparr>mux_numPosted := 2, mux_txQueues := example_queues\<rparr>,
      world = example_kernel, pc = Locked, constructed = True,
      posted = [control_packet Hello, example_packet], transmitted = []\<rparr>"

text \<open>The two before it: only Hello is queued, and the lock is free or taken.\<close>

definition example_hello :: "send_pc \<Rightarrow> memory_kernel send_system" where
  "example_hello l =
     \<lparr>mux = example_muxer\<lparr>mux_numPosted := 1, mux_txQueues := [ControlPacket \<mapsto> [control_packet Hello]]\<rparr>,
      world = example_kernel, pc = l, constructed = True, posted = [control_packet Hello], transmitted = []\<rparr>"

lemma example_sendHello:
  "sendControlMessage Hello example_muxer =
     (Inr (), example_muxer\<lparr>mux_numPosted := 1, mux_txQueues := [ControlPacket \<mapsto> [control_packet Hello]]\<rparr>)"
  by (simp add: sendControlMessage_def emplacePacket_def example_muxer_def Let_def txQueue_def
      set_txQueue_def signalPacketPosted_def ComPacket_buffer_def control_packet_def)

lemma example_hello_sending:
  "sending h example_writer example_muxer example_kernel (example_hello HelloPosted)"
proof -
  let ?s0 = "start_sending example_muxer example_kernel"
  let ?s1 = "?s0\<lparr>constructed := True\<rparr>"
  have "send_step h example_writer ?s0 ?s1"
    using send_step.threads [OF muxer_step.construction, of ?s0 h example_writer] by (simp add: start_sending_def)
  with sending.start have s1: "sending h example_writer example_muxer example_kernel ?s1"
    by (rule sending.step)
  have "pc ?s1 = Entered" "sendControlMessage Hello (mux ?s1) = (Inr (), mux (example_hello HelloPosted))"
    by (simp_all add: start_sending_def example_sendHello example_hello_def)
  from send_thread_step(1) [OF this] have "send_step h example_writer ?s1 (example_hello HelloPosted)"
    by (simp add: start_sending_def example_hello_def)
  with s1 show ?thesis by (rule sending.step)
qed

lemma example_hello_locked:
  "sending h example_writer example_muxer example_kernel (example_hello Locked)"
  using sending.step [OF example_hello_sending send_thread_step(2), of h] by (simp add: example_hello_def)

lemma example_emplace:
  "emplacePacket ''A'' (construct (MoveArgs [10, 20, 30])) (mux (example_hello l)) =
     (Inr (), mux example_posted)"
  by (simp add: example_hello_def example_posted_def emplacePacket_def example_muxer_def Let_def
      txQueue_def set_txQueue_def signalPacketPosted_def ComPacket_move_buffer_def
      example_packet_def example_queues_def ControlPacket_def)

lemma example_posted_sending:
  "sending h example_writer example_muxer example_kernel example_posted"
proof -
  let ?s = "example_hello HelloPosted"
  let ?s' = "?s\<lparr>mux := mux example_posted, posted := posted ?s @ [example_packet]\<rparr>"
  have "send_step h example_writer ?s ?s'"
    by (rule send_step.threads [OF muxer_step.post [OF _ _ _ _ _ _ example_emplace [of HelloPosted]]])
      (simp_all add: example_hello_def lock_free_def InvalidString_def vector_max_size_def
        example_muxer_def ComPacket_move_buffer_def example_packet_def)
  with example_hello_sending have s': "sending h example_writer example_muxer example_kernel ?s'"
    by (rule sending.step)
  from sending.step [OF this send_thread_step(2)] show ?thesis
    by (simp add: example_hello_def example_posted_def)
qed

lemma example_order:
  "iteration_order (mux example_posted) [ControlPacket, 2]"
  "iteration_order (mux example_posted) [2, ControlPacket]"
  by (auto simp: iteration_order_def example_posted_def example_queues_def ControlPacket_def)

lemma example_begins: "begins_pass (mux example_posted) (pc example_posted) (mux example_posted) []"
  by (simp add: begins_pass_iff example_posted_def example_muxer_def)

text \<open>The states after a pass over the queues, in either order of the types.\<close>

lemma example_passes:
  assumes "iteration_order (mux example_posted) ts"
  shows "\<exists>s. send_step h example_writer example_posted s \<and>
     sending h example_writer example_muxer example_kernel s \<and> pc s = Locked \<and>
     posted s = [control_packet Hello, example_packet] \<and>
     transmitted s = concat (map (txQueue (mux example_posted)) ts) \<and>
     \<not> mux_transportError (mux s) \<and> outgoing (world s) = concat (map wire (transmitted s))"
proof -
  note inv = reachable_inv [OF example_writes example_ctor _ example_posted_sending, simplified]
  obtain m' w' where run: "sendQueues h example_writer ts (mux example_posted) (world example_posted) =
      Some (Inr (m', w'))" "\<not> mux_transportError m'" "\<forall>t. txQueue m' t = []"
    using byte_sink.pass_flushes [OF byte_sinkI [OF example_sink] inv(1) example_begins assms, of h]
    by (auto simp: example_posted_def example_muxer_def)
  let ?s = "example_posted\<lparr>mux := m', world := w', pc := Locked, posted := posted example_posted @ [],
      transmitted := transmitted example_posted @ pass_log (mux example_posted) m' ts\<rparr>"
  have step: "send_step h example_writer example_posted ?s"
    by (rule pass [OF example_begins assms run(1)])
  then have s: "sending h example_writer example_muxer example_kernel ?s"
    using sending.step [OF example_posted_sending] by blast
  have "popped (mux example_posted) m' = txQueue (mux example_posted)"
    using run(3) by (simp add: popped_def fun_eq_iff)
  then have "pass_log (mux example_posted) m' ts = concat (map (txQueue (mux example_posted)) ts)"
    by (simp add: pass_log_def)
  then show ?thesis
    using step s run(2) reachable_inv(4) [OF example_writes example_ctor _ s]
    by (intro exI [of _ ?s]) (simp add: example_posted_def example_kernel_def)
qed

lemma example_sent:
  "\<exists>s. sending h example_writer example_muxer example_kernel s \<and> pc s = Locked \<and>
     posted s = [control_packet Hello, example_packet] \<and>
     transmitted s = [control_packet Hello, example_packet] \<and> \<not> mux_transportError (mux s) \<and>
     outgoing (world s) = example_stream"
  using example_passes [OF example_order(1), of h]
  by (auto simp: example_stream_def example_posted_def example_queues_def txQueue_def ControlPacket_def)

text \<open>The state after a failed write, or after the destructor has set the error flag.\<close>

definition example_failed :: "memory_kernel send_system" where
  "example_failed = example_posted\<lparr>mux := (mux example_posted)\<lparr>mux_transportError := True\<rparr>\<rparr>"

section \<open>The receiving side\<close>

lemma example_source: "source_contract example_reader incoming (length \<circ> script)"
  unfolding example_reader_def by (intro socket_source memory_kernel_receives)

lemma example_reads: "reader_contract example_reader incoming"
  using example_source by (simp add: source_contract_def)

lemma example_closing: "closing_contract example_reader incoming (length \<circ> script) reset"
  unfolding example_reader_def
  by (intro socket_closing memory_kernel_receives memory_kernel_fails)

definition example_subscriber :: "string packet_subscriber" where
  "example_subscriber = \<lparr>sub_addr = 100, sub_type = 2, sub_callback = ''log''\<rparr>"

definition example_demuxer :: "string demuxer" where
  "example_demuxer = \<lparr>dmx_packetIds = example_ids, dmx_subscribers = [2 \<mapsto> [example_subscriber]],
     dmx_transportError = False\<rparr>"

text \<open>
  A peer that has sent some bytes, of which reads get a few at a time, and then has aborted
  the connection.
\<close>

definition arriving :: "byte list \<Rightarrow> memory_kernel" where
  "arriving bytes = \<lparr>outgoing = [], incoming = bytes, script = [2, 1, 0, 3], reset = True,
     last_errno = EAGAIN\<rparr>"

lemma arriving_simps [simp]: "incoming (arriving bs) = bs" "reset (arriving bs)" "length (script (arriving bs)) = 4"
  by (simp_all add: arriving_def)

lemma example_demuxer_ok [simp]: "\<not> dmx_transportError example_demuxer"
  by (simp add: example_demuxer_def)

lemma example_packet_receivable [simp]: "receivable example_packet"
  by (simp add: receivable_def example_packet_def InvalidPacket_def)

lemma example_ready [simp]:
  "rd_readyForReading example_reader ms (arriving bs) = (True, arriving bs)"
  by (simp add: example_reader_def socket_reader_def Socket_readyForReading_def
      WaitForSingleEvent_def memory_calls_def memory_poll_def arriving_def)

lemma example_dispatched [simp]: "dispatched example_demuxer example_packet = [(''log'', example_packet)]"
  by (simp add: dispatched_def example_demuxer_def example_packet_def subscribers_def
      example_subscriber_def ControlPacket_def)

lemma example_received:
  "\<exists>d' v'. receiveLoop h example_reader (\<lambda>_. False) example_demuxer (arriving example_stream) =
      Some (Inr ([(''log'', example_packet)], d', v')) \<and> dmx_transportError d'"
  using closing_source.receiveLoop_delivers [OF closing_sourceI [OF example_closing],
      of "arriving example_stream" "[example_packet]" example_demuxer h]
  by (auto simp: example_stream_def)

text \<open>A transport whose first write fails.\<close>

definition failing_once :: "(bool \<times> byte list) abstract_writer" where
  "failing_once = \<lparr>wr_setBlocking = \<lambda>_ w. w,
     wr_write = \<lambda>data (failed, out). if failed then (int (length data), (failed, out @ data)) else (-1, (True, out))\<rparr>"

section \<open>A program with a subscription\<close>

definition example_empty_demuxer :: "string demuxer" where
  "example_empty_demuxer =
     \<lparr>dmx_packetIds = example_ids, dmx_subscribers = Map.empty, dmx_transportError = False\<rparr>"

lemma example_demuxer_ctor: "PacketDemuxer_ctor [''A''] = Inr example_empty_demuxer"
  by (simp add: PacketDemuxer_ctor_def example_ids_ctor example_empty_demuxer_def)

definition example_client :: "string client" where
  "example_client = \<lparr>cl_demuxer = example_demuxer, cl_handles = [(7, Some example_subscriber)]\<rparr>"

text \<open>A receive system with this client, before the handshake.\<close>

definition example_subscribed :: "memory_kernel \<Rightarrow> (string, memory_kernel) receive_system" where
  "example_subscribed v =
     (start_receiving example_empty_demuxer v)\<lparr>rs_constructed := True, rs_client := example_client\<rparr>"

lemma example_subscribed_simps [simp]:
  "rs_pc (example_subscribed v) = R_Handshake" "rs_packet (example_subscribed v) = ComPacket_default"
  "rs_world (example_subscribed v) = v" "rs_client (example_subscribed v) = example_client"
  "rs_demuxer (example_subscribed v) = example_demuxer" "rs_constructed (example_subscribed v)"
  "rs_taken (example_subscribed v) = []" "rs_calls (example_subscribed v) = []"
  "may_stop (example_subscribed v) (\<lambda>_. False)"
  by (simp_all add: example_subscribed_def start_receiving_def rs_demuxer_def example_client_def may_stop_def)

lemma example_subscribes: "client_step \<lparr>cl_demuxer = example_empty_demuxer, cl_handles = []\<rparr> (Inr example_client)"
proof -
  let ?c = "\<lparr>cl_demuxer = example_empty_demuxer, cl_handles = []\<rparr>"
  have "subscribe 100 ''A'' ''log'' (cl_demuxer ?c) = Inr (example_subscriber, example_demuxer)"
    by (simp add: subscribe_def example_empty_demuxer_def example_subscriber_def
        example_demuxer_def set_subscribers_def subscribers_def Let_def)
  from subscribes [OF _ _ this, of 7] show ?thesis
    by (simp add: example_client_def PacketSubscription_ctor_def)
qed

lemma example_setBlocking_reader [simp]: "rd_setBlocking example_reader b w = w"
  by (simp add: example_reader_def socket_reader_def Socket_setBlocking_def memory_calls_def)

lemma example_subscribed_steps:
  "(receive_step h example_reader)\<^sup>*\<^sup>* (start_receiving example_empty_demuxer v) (example_subscribed v)"
proof -
  let ?s = "start_receiving example_empty_demuxer v :: (string, memory_kernel) receive_system"
  let ?s1 = "?s\<lparr>rs_constructed := True\<rparr>"
  have built: "receive_step h example_reader ?s ?s1"
    using receive_step.construction [of ?s h example_reader] by (simp add: start_receiving_def)
  have "receive_step h example_reader ?s1 (?s1\<lparr>rs_client := example_client\<rparr>)"
    using example_subscribes by (intro receive_step.uses) (simp_all add: start_receiving_def)
  with built show ?thesis
    unfolding example_subscribed_def by (meson converse_rtranclp_into_rtranclp r_into_rtranclp)
qed

lemma example_subscribed_receiving:
  "receiving h example_reader example_empty_demuxer v (example_subscribed v)"
  by (rule receiving_steps [OF example_subscribed_steps receiving.start])

text \<open>A peer whose bytes have all arrived: each read gets all that it asks for.\<close>

definition arrived :: "byte list \<Rightarrow> memory_kernel" where
  "arrived bytes = (arriving bytes)\<lparr>script := []\<rparr>"

definition prompt :: "memory_kernel \<Rightarrow> bool" where
  "prompt k \<longleftrightarrow> script k = [] \<and> reset k"

lemma prompt_keeps: "reader_keeps example_reader prompt"
  by (auto simp: reader_keeps_def prompt_def example_reader_def socket_reader_def Socket_read_def
      Socket_readyForReading_def WaitForSingleEvent_def memory_calls_def memory_recv_def memory_poll_def
      Let_def split: if_splits prod.splits)

lemma prompt_ready: "prompt k \<Longrightarrow> rd_readyForReading example_reader ms k = (True, k)"
  by (simp add: prompt_def example_reader_def socket_reader_def Socket_readyForReading_def
      WaitForSingleEvent_def memory_calls_def memory_poll_def)

lemma prompt_receives:
  assumes "prompt k" "incoming k = wire p @ rest" "receivable p" "\<not> dmx_transportError d"
  obtains k' where "receivePacket h example_reader (\<lambda>_. False) packet ms d k = Some (Inr (True, p, d, k'))"
    "incoming k' = rest" "prompt k'"
proof -
  have "length (m_data p) < 2 ^ 31" "m_type p \<noteq> InvalidPacket"
    using assms(3) by (simp_all add: receivable_def)
  from byte_source.receivePacket_ready [OF byte_sourceI [OF example_source] assms(2) this assms(4)
      prompt_ready [OF assms(1)], of h packet]
  obtain k' where k': "receivePacket h example_reader (\<lambda>_. False) packet ms d k = Some (Inr (True, p, d, k'))"
    "incoming k' = rest" by blast
  then show thesis
    using that [OF k'] receivePacket_keeps [OF k'(1) prompt_keeps assms(1)] by blast
qed

lemma example_hello_received:
  obtains k where "receivePacket h example_reader (\<lambda>_. False) ComPacket_default 2000 example_demuxer
      (arrived example_stream) = Some (Inr (True, control_packet Hello, example_demuxer, k))"
    "receiveHelloMessage h example_reader (\<lambda>_. False) ComPacket_default 2000 example_demuxer
      (arrived example_stream) = Some (Inr (ComPacket_default, example_demuxer, k))"
    "incoming k = wire example_packet" "prompt k"
proof -
  have "prompt (arrived example_stream)" by (simp add: prompt_def arrived_def arriving_def)
  moreover have "incoming (arrived example_stream) = wire (control_packet Hello) @ wire example_packet"
    by (simp add: arrived_def arriving_def example_stream_def)
  ultimately obtain k where k: "receivePacket h example_reader (\<lambda>_. False) ComPacket_default 2000 example_demuxer
      (arrived example_stream) = Some (Inr (True, control_packet Hello, example_demuxer, k))"
    "incoming k = wire example_packet" "prompt k"
    using receivable_hello example_demuxer_ok by (rule prompt_receives)
  from k(1) have "receiveHelloMessage h example_reader (\<lambda>_. False) ComPacket_default 2000 example_demuxer
      (arrived example_stream) = Some (Inr (ComPacket_default, example_demuxer, k))"
    by (simp add: receiveHelloMessage_def getType_def control_of_def getControlMessage_def control_packet_def
        ComPacket_default_def)
  with k show thesis by (intro that)
qed

lemma example_packet_received:
  assumes "incoming k = wire example_packet" "prompt k"
  obtains k' where "receivePacket h example_reader (\<lambda>_. False) ComPacket_default 1000 example_demuxer k =
      Some (Inr (True, example_packet, example_demuxer, k'))"
  using prompt_receives [of k example_packet "[]" example_demuxer h ComPacket_default 1000] assms by auto

lemma example_dispatching:
  "\<exists>r. (receive_step h example_reader)\<^sup>*\<^sup>* (example_subscribed (arrived example_stream)) r \<and>
     rs_pc r = R_Dispatch \<and> rs_packet r = example_packet \<and> rs_client r = example_client \<and> rs_constructed r \<and>
     rs_taken r = [control_packet Hello, example_packet] \<and> rs_calls r = []"
proof -
  let ?s = "example_subscribed (arrived example_stream)"
  obtain k1 where k1: "receivePacket h example_reader (\<lambda>_. False) ComPacket_default 2000 example_demuxer
      (arrived example_stream) = Some (Inr (True, control_packet Hello, example_demuxer, k1))"
    and hello: "receiveHelloMessage h example_reader (\<lambda>_. False) ComPacket_default 2000 example_demuxer
      (arrived example_stream) = Some (Inr (ComPacket_default, example_demuxer, k1))"
    and rest: "incoming k1 = wire example_packet" "prompt k1"
    by (rule example_hello_received)
  let ?s1 = "with_demuxer example_demuxer (?s\<lparr>rs_pc := R_Loop, rs_packet := ComPacket_default, rs_world := k1,
      rs_taken := rs_taken ?s @ (if True then [control_packet Hello] else [])\<rparr>)"
  have 1: "receive_step h example_reader ?s ?s1"
    by (rule receive_step.handshake [where stop = "\<lambda>_. False"]) (use k1 hello in simp_all)
  obtain k2 where k2: "receivePacket h example_reader (\<lambda>_. False) ComPacket_default 1000 example_demuxer k1 =
      Some (Inr (True, example_packet, example_demuxer, k2))"
    using rest by (rule example_packet_received)
  let ?s2 = "with_demuxer example_demuxer (?s1\<lparr>rs_pc := R_Dispatch, rs_packet := example_packet, rs_world := k2,
      rs_taken := rs_taken ?s1 @ [example_packet]\<rparr>)"
  have "may_stop ?s1 (\<lambda>_. False)" by (simp add: may_stop_def)
  then have "receive_step h example_reader ?s1 ?s2"
    by (intro receive_step.receive [where stop = "\<lambda>_. False"]) (use k2 in simp_all)
  with 1 have "(receive_step h example_reader)\<^sup>*\<^sup>* ?s ?s2"
    by (meson converse_rtranclp_into_rtranclp r_into_rtranclp)
  then show ?thesis by (rule reached) (simp add: example_client_def)
qed

lemma example_client_destroys:
  "client_step example_client (Inr \<lparr>cl_demuxer = set_subscribers 2 [] example_demuxer, cl_handles = []\<rparr>)"
proof -
  have "PacketSubscription_dtor (cl_handles example_client) (Some example_subscriber) (cl_demuxer example_client) =
      Inr (set_subscribers 2 [] example_demuxer)"
    by (simp add: example_client_def PacketSubscription_dtor_def use_count_def unsubscribe_def
        example_subscriber_def example_demuxer_def subscribers_def example_ids_def toString_def Let_def)
  from destroys [OF _ this, of 7] show ?thesis by (simp add: example_client_def)
qed

lemma example_posts:
  assumes "rs_pc s = R_Dispatch" "rs_packet s = example_packet" "rs_client s = example_client" "rs_calls s = []"
  shows "\<exists>s'. receive_step h R s s' \<and> rs_calls s' = [(''log'', example_packet)]"
proof -
  have d: "rs_demuxer s = example_demuxer" using assms(3) by (simp add: rs_demuxer_def example_client_def)
  obtain calls d' where post: "postPacket example_packet (rs_demuxer s) = (calls, d')" by fastforce
  have "m_type example_packet \<noteq> ControlPacket" by (simp add: example_packet_def ControlPacket_def)
  with postPacket_service(2) [OF post] have "calls = [(''log'', example_packet)]" by (simp add: d)
  with receive_step.posts [OF assms(1) _ _ post] assms(2,4) show ?thesis
    by (fastforce simp: getType_def ComPacket_move_def example_packet_def ControlPacket_def)
qed

text \<open>A demuxer that is destroyed before any use of it.\<close>

definition example_destroyed :: "dtor_pc \<Rightarrow> (string, memory_kernel) receive_system" where
  "example_destroyed q = (start_receiving (if q = D_Entered then example_empty_demuxer
     else signalTransportError example_empty_demuxer) example_kernel)\<lparr>rs_constructed := True, rs_dtor := q\<rparr>"

lemma example_closing_demuxer:
  "receiving h example_reader example_empty_demuxer example_kernel (example_destroyed D_Signalled)"
proof -
  let ?s = "start_receiving example_empty_demuxer example_kernel :: (string, memory_kernel) receive_system"
  let ?s1 = "?s\<lparr>rs_constructed := True\<rparr>"
  have "receive_step h example_reader ?s ?s1"
    using receive_step.construction [of ?s h example_reader] by (simp add: start_receiving_def)
  with receiving.start have 1: "receiving h example_reader example_empty_demuxer example_kernel ?s1"
    by (rule receiving.step)
  have "receive_step h example_reader ?s1 (example_destroyed D_Entered)"
    using receive_step.enters_dtor [of ?s1 h example_reader] by (simp add: start_receiving_def example_destroyed_def)
  with 1 have 2: "receiving h example_reader example_empty_demuxer example_kernel (example_destroyed D_Entered)"
    by (rule receiving.step)
  have "dtor_step (example_destroyed D_Entered) (example_destroyed D_Signalled)"
    using signals [of "example_destroyed D_Entered"]
    by (simp add: start_receiving_def example_destroyed_def with_demuxer_def rs_demuxer_def)
  then have "receive_step h example_reader (example_destroyed D_Entered) (example_destroyed D_Signalled)"
    by (rule receive_step.destruction)
  with 2 show ?thesis by (rule receiving.step)
qed

definition example_address :: ipv4_address where
  "example_address = \<lparr>ss_family = AF_INET, sin_port = 80, sin_addr = 1\<rparr>"

section \<open>A synchronisation\<close>

text \<open>
  A run in which the first two ready messages of the server arrive before the client has
  subscribed, and a third one does not.
\<close>

definition example_synced :: sync_system where
  "example_synced = (syncWithClient_step \<circ> server_receives \<circ> syncWithServer_step \<circ> syncWithServer_step \<circ> client_receives \<circ>
     syncWithClient_step \<circ> syncWithServer_step \<circ> client_receives \<circ> client_receives \<circ> syncWithClient_step \<circ> syncWithClient_step \<circ> syncWithClient_step) sync_start"

lemma example_synced_reachable: "sync_reachable example_synced"
  unfolding example_synced_def comp_apply
  by (intro sync_reachable.step [OF _ server] sync_reachable.step [OF _ client]
      sync_reachable.step [OF _ to_server] sync_reachable.step [OF _ to_client] sync_reachable.start)
    (simp_all add: sync_start_def client_receives_def server_receives_def)

lemma example_synced_returned: "srv_pc example_synced = S_Return"
  by code_simp

end
