(* ===== verification/ReceiveRuns.thy ===== *)
theory ReceiveRuns
  imports ReceiveSteps
begin

text \<open>
  The functions of the receive thread are runs of the steps of \<open>fine_receive_step\<close>:
  \<open>receivePacket\<close>, \<open>receiveHelloMessage\<close>, a turn of the loop, and \<open>receiveLoop\<close>.
\<close>

section \<open>The reading loops\<close>

text \<open>The turns of the reading loops alone, for a packet and a value of the error flag.\<close>

type_synonym 'w read_config = "read_part \<times> usize \<times> byte list \<times> 'w"

fun read_at ::
    "host_order \<Rightarrow> 'w abstract_reader \<Rightarrow> com_packet \<Rightarrow> bool \<Rightarrow> 'w read_config \<Rightarrow> (read_result \<times> bool \<times> 'w) outcome" where
  "read_at h R packet err (part, sz, buf, w) = read_step h R part sz buf packet err w"

inductive read_next ::
    "host_order \<Rightarrow> 'w abstract_reader \<Rightarrow> com_packet \<Rightarrow> bool \<Rightarrow> 'w read_config \<Rightarrow> 'w read_config \<Rightarrow> bool"
  for h :: host_order and R :: "'w abstract_reader" and packet :: com_packet and err :: bool where
  "read_at h R packet err c = Inr (Continues part sz buf, err', w) \<Longrightarrow>
    read_next h R packet err c (part, sz, buf, w)"

lemma read_next_steps:
  assumes "(read_next h R (rs_packet s) (dmx_transportError (rs_demuxer s)))\<^sup>*\<^sup>* (part, sz, buf, w) (part', sz', buf', w')"
    "rs_at s = Reading part sz buf" "rs_world s = w"
  shows "(fine_receive_step h R reenters)\<^sup>*\<^sup>* s (s\<lparr>rs_world := w', rs_at := Reading part' sz' buf'\<rparr>)"
  using assms(1)
proof (induction "(part', sz', buf', w')" arbitrary: part' sz' buf' w' rule: rtranclp_induct)
  case base
  have "s\<lparr>rs_world := w, rs_at := Reading part sz buf\<rparr> = s" using assms(2,3) by (cases s) simp
  then show ?case by simp
next
  case (step c)
  obtain part1 sz1 buf1 w1 where c: "c = (part1, sz1, buf1, w1)" by (cases c)
  let ?s1 = "s\<lparr>rs_world := w1, rs_at := Reading part1 sz1 buf1\<rparr>"
  have "\<exists>err'. read_step h R part1 sz1 buf1 (rs_packet ?s1) (dmx_transportError (rs_demuxer ?s1)) (rs_world ?s1) =
      Inr (Continues part' sz' buf', err', w')"
    using step.hyps(2) by (auto simp: c elim!: read_next.cases)
  then obtain err' where "read_step h R part1 sz1 buf1 (rs_packet ?s1) (dmx_transportError (rs_demuxer ?s1))
      (rs_world ?s1) = Inr (Continues part' sz' buf', err', w')" ..
  from reads [OF _ this, of reenters] have "fine_receive_step h R reenters ?s1
      (s\<lparr>rs_world := w', rs_at := Reading part' sz' buf'\<rparr>)"
    by simp
  with step.hyps(3) [OF c] show ?case by simp
qed

lemma readBytes_next:
  assumes "readBytes R (\<lambda>_. False) False sz buf err w = Some r"
  shows "case r of
      Inl e \<Rightarrow> \<exists>c. (read_next h R packet err)\<^sup>*\<^sup>* (part, sz, buf, w) c \<and> read_at h R packet err c = Inl e
    | Inr (ok, sz', buf', err', w') \<Rightarrow>
        if ok then \<not> err \<and> \<not> err' \<and> (read_next h R packet err)\<^sup>*\<^sup>* (part, sz, buf, w) (part, 0, buf', w')
        else err' \<and> (\<exists>c. (read_next h R packet err)\<^sup>*\<^sup>* (part, sz, buf, w) c \<and>
          read_at h R packet err c = Inr (ReturnsFalse, True, w'))"
  using assms
proof (induction sz buf err w r rule: readBytes_induct)
  case (stops sz buf err w)
  then show ?case
    by (cases err) (auto simp: read_step_def word_gt_0 intro!: exI [of _ "(part, sz, buf, w)"])
next
  case (fails sz buf w n bs w')
  then have "read_step h R part sz buf packet False w = Inr (ReturnsFalse, True, w')"
    by (auto simp: read_step_def)
  then show ?case by (auto intro!: exI [of _ "(part, sz, buf, w)"])
next
  case (overruns sz buf w n bs w')
  moreover from this have "\<not> n < 0" by linarith
  ultimately have "read_step h R part sz buf packet False w = Inl UndefinedBehaviour"
    by (simp add: read_step_def)
  then show ?case by (auto intro!: exI [of _ "(part, sz, buf, w)"])
next
  case (more sz buf w n bs w' r)
  then have "read_next h R packet False (part, sz, buf, w) (part, sz - word_of_int n, buf @ take (nat n) bs, w')"
    by (intro read_next.intros [where err' = False]) (simp add: read_step_def not_less)
  note first = converse_rtranclp_into_rtranclp [where r = "read_next h R packet False", OF this]
  show ?case
    using more.IH by (auto simp del: split_paired_Ex read_at.simps split: sum.splits if_splits intro: first)
qed

text \<open>What a call of \<open>receivePacket\<close> returns when the last turn of its loops gives \<open>x\<close>.\<close>

definition returned ::
    "com_packet \<Rightarrow> 'cb demuxer \<Rightarrow> (read_result \<times> bool \<times> 'w) outcome \<Rightarrow>
      (bool \<times> com_packet \<times> 'cb demuxer \<times> 'w) outcome \<Rightarrow> bool" where
  "returned packet d x r \<longleftrightarrow>
     (case r of
        Inl e \<Rightarrow> x = Inl e
      | Inr (ok, p, d', w') \<Rightarrow>
          if ok then x = Inr (ReturnsTrue p, False, w') \<and> d' = d \<and> \<not> dmx_transportError d
          else x = Inr (ReturnsFalse, True, w') \<and> p = packet \<and> d' = signalTransportError d)"

definition reads_from ::
    "host_order \<Rightarrow> 'w abstract_reader \<Rightarrow> com_packet \<Rightarrow> 'cb demuxer \<Rightarrow> 'w read_config \<Rightarrow>
      (bool \<times> com_packet \<times> 'cb demuxer \<times> 'w) outcome \<Rightarrow> bool" where
  "reads_from h R packet d c r \<longleftrightarrow>
     (\<exists>c'. (read_next h R packet (dmx_transportError d))\<^sup>*\<^sup>* c c' \<and>
        returned packet d (read_at h R packet (dmx_transportError d) c') r)"

lemma reads_from_trans:
  "(read_next h R packet (dmx_transportError d))\<^sup>*\<^sup>* c c' \<Longrightarrow> reads_from h R packet d c' r \<Longrightarrow>
    reads_from h R packet d c r"
  unfolding reads_from_def by (meson rtranclp_trans)

lemma reads_from_next:
  "read_next h R packet (dmx_transportError d) c c' \<Longrightarrow> reads_from h R packet d c' r \<Longrightarrow> reads_from h R packet d c r"
  unfolding reads_from_def by (meson converse_rtranclp_into_rtranclp)

lemma receivePayload_reads:
  assumes "receivePayload R (\<lambda>_. False) packet (ntohl h type) (ntohl h (load32 h buf)) d w = Some r"
    "\<not> dmx_transportError d"
  shows "reads_from h R packet d (ReadSize type, 0, buf, w) r"
proof (cases "ComPacket_sized (ntohl h type) (to_int32 (uint (ntohl h (load32 h buf))))")
  case (Inl e)
  with assms have "r = Inl e" by (simp add: receivePayload_def)
  with Inl assms(2) show ?thesis
    unfolding reads_from_def returned_def
    by (intro exI [of _ "(ReadSize type, 0, buf, w)"]) (simp add: read_step_def)
next
  case (Inr p)
  have next1: "read_next h R packet (dmx_transportError d) (ReadSize type, 0, buf, w) (ReadData p, getDataSize p, [], w)"
    by (intro read_next.intros [where err' = False]) (use Inr assms(2) in \<open>simp add: read_step_def\<close>)
  obtain x where x: "readBytes R (\<lambda>_. False) False (getDataSize p) [] (dmx_transportError d) w = Some x"
    using assms(1) Inr
    by (cases "readBytes R (\<lambda>_. False) False (getDataSize p) [] (dmx_transportError d) w") (auto simp: receivePayload_def)
  note run = readBytes_next [OF x, of h packet "ReadData p"]
  have "reads_from h R packet d (ReadData p, getDataSize p, [], w) r"
  proof (cases x)
    case (Inl e)
    with assms(1) Inr x have "r = Inl e" by (simp add: receivePayload_def)
    with run Inl show ?thesis by (auto simp: reads_from_def returned_def)
  next
    fix y assume y: "x = Inr y"
    obtain ok sz data err' w' where x': "x = Inr (ok, sz, data, err', w')" by (cases y) (simp add: y)
    show ?thesis
    proof (cases ok)
      case False
      with assms(1) Inr x x' run have "r = Inr (False, packet, signalTransportError d, w')"
        by (auto simp: receivePayload_def signalTransportError_def)
      with run x' False show ?thesis by (auto simp: reads_from_def returned_def)
    next
      case True
      obtain p0 packet' where swap: "ComPacket_swap (p\<lparr>m_data := data @ drop (length data) (m_data p)\<rparr>) packet = (p0, packet')"
        by fastforce
      have "d\<lparr>dmx_transportError := False\<rparr> = d" using assms(2) by simp
      then have "r = (if getType packet' = InvalidPacket then Inl AssertionFailed else Inr (True, packet', d, w'))"
        using assms(1) Inr x x' True run swap by (auto simp: receivePayload_def Let_def)
      moreover have "read_at h R packet (dmx_transportError d) (ReadData p, 0, data, w') =
          (if getType packet' = InvalidPacket then Inl AssertionFailed else Inr (ReturnsTrue packet', False, w'))"
        using assms(2) swap by (simp add: read_step_def)
      ultimately have "returned packet d (read_at h R packet (dmx_transportError d) (ReadData p, 0, data, w')) r"
        using assms(2) by (simp add: returned_def)
      moreover from True have "(read_next h R packet (dmx_transportError d))\<^sup>*\<^sup>*
          (ReadData p, getDataSize p, [], w) (ReadData p, 0, data, w')"
        using run unfolding x' prod.case sum.case if_P [OF True] by blast
      ultimately show ?thesis unfolding reads_from_def by blast
    qed
  qed
  with next1 show ?thesis by (rule reads_from_next)
qed

lemma readUint32_reads:
  assumes "and_then (readUint32 h R (\<lambda>_. False) err w) (\<lambda>(ok, v, err', w').
      if \<not> ok then Some (Inr (False, packet, d\<lparr>dmx_transportError := err'\<rparr>, w')) else f v err' w') = Some r"
    and err: "err = dmx_transportError d"
    and "\<And>buf w'. \<not> dmx_transportError d \<Longrightarrow> f (load32 h buf) False w' = Some r \<Longrightarrow>
      reads_from h R packet d (part, 0, buf, w') r"
  shows "reads_from h R packet d (part, 4, [], w) r"
proof -
  obtain x where x: "readBytes R (\<lambda>_. False) False 4 [] (dmx_transportError d) w = Some x"
    using assms(1) unfolding err
    by (cases "readBytes R (\<lambda>_. False) False 4 [] (dmx_transportError d) w") (auto simp: readUint32_def)
  note run = readBytes_next [OF x, of h packet part]
  show ?thesis
  proof (cases x)
    case (Inl e)
    with assms(1) x have "r = Inl e" by (simp add: err readUint32_def)
    with run Inl show ?thesis by (auto simp: reads_from_def returned_def)
  next
    case (Inr y)
    obtain ok sz bytes err' w' where x': "x = Inr (ok, sz, bytes, err', w')" by (cases y) (simp add: Inr)
    show ?thesis
    proof (cases ok)
      case False
      with assms(1) [unfolded err] x x' run have "r = Inr (False, packet, signalTransportError d, w')"
        by (auto simp: readUint32_def signalTransportError_def)
      with run x' False show ?thesis by (auto simp: reads_from_def returned_def)
    next
      case True
      then have "\<not> dmx_transportError d \<and> \<not> err' \<and>
          (read_next h R packet (dmx_transportError d))\<^sup>*\<^sup>* (part, 4, [], w) (part, 0, bytes, w')"
        using run unfolding x' prod.case sum.case if_P [OF True] by blast
      then have ok: "\<not> dmx_transportError d" "\<not> err'" and
        steps: "(read_next h R packet (dmx_transportError d))\<^sup>*\<^sup>* (part, 4, [], w) (part, 0, bytes, w')" by blast+
      have "f (load32 h bytes) False w' = Some r" using assms(1) x x' True ok by (simp add: readUint32_def err)
      from reads_from_trans [OF steps assms(3) [OF ok(1) this]] show ?thesis .
    qed
  qed
qed

lemma receivePacket_reads:
  assumes "receivePacket h R (\<lambda>_. False) packet ms d w = Some r" "rd_readyForReading R ms w = (True, w0)"
  shows "reads_from h R packet d (ReadType, 4, [], w0) r"
proof -
  have go: "and_then (readUint32 h R (\<lambda>_. False) (dmx_transportError d) w0) (\<lambda>(ok, type, err1, w1).
      if \<not> ok then Some (Inr (False, packet, d\<lparr>dmx_transportError := err1\<rparr>, w1))
      else and_then (readUint32 h R (\<lambda>_. False) err1 w1) (\<lambda>(ok, size', err2, w2).
        if \<not> ok then Some (Inr (False, packet, d\<lparr>dmx_transportError := err2\<rparr>, w2))
        else receivePayload R (\<lambda>_. False) packet (ntohl h type) (ntohl h size')
          (d\<lparr>dmx_transportError := err2\<rparr>) w2)) = Some r"
    using assms by (simp add: receivePacket_def)
  show ?thesis
  proof (rule readUint32_reads [OF go refl])
    fix buf w1
    assume ok: "\<not> dmx_transportError d" and rest: "and_then (readUint32 h R (\<lambda>_. False) False w1) (\<lambda>(ok, size', err2, w2).
        if \<not> ok then Some (Inr (False, packet, d\<lparr>dmx_transportError := err2\<rparr>, w2))
        else receivePayload R (\<lambda>_. False) packet (ntohl h (load32 h buf)) (ntohl h size')
          (d\<lparr>dmx_transportError := err2\<rparr>) w2) = Some r"
    have d: "dmx_transportError d = False" "d\<lparr>dmx_transportError := False\<rparr> = d" using ok by simp_all
    have "read_next h R packet (dmx_transportError d) (ReadType, 0, buf, w1) (ReadSize (load32 h buf), 4, [], w1)"
      by (intro read_next.intros [where err' = False]) (use ok in \<open>simp add: read_step_def\<close>)
    moreover have "reads_from h R packet d (ReadSize (load32 h buf), 4, [], w1) r"
    proof (rule readUint32_reads [OF rest])
      show "False = dmx_transportError d" using ok by simp
    next
      fix buf' w2
      assume "receivePayload R (\<lambda>_. False) packet (ntohl h (load32 h buf)) (ntohl h (load32 h buf'))
        (d\<lparr>dmx_transportError := False\<rparr>) w2 = Some r"
      from receivePayload_reads [OF this [unfolded d(2)] ok]
      show "reads_from h R packet d (ReadSize (load32 h buf), 0, buf', w2) r" .
    qed
    ultimately show "reads_from h R packet d (ReadType, 0, buf, w1) r"
      by (rule reads_from_next)
  qed
qed

section \<open>A call of receivePacket and the handshake\<close>

text \<open>What the steps of a call of \<open>receivePacket\<close> lead to: a time-out, or the last turn of its loops.\<close>

lemma receivePacket_steps:
  assumes "receivePacket h R (\<lambda>_. False) (rs_packet s) ms (rs_demuxer s) (rs_world s) = Some r" "rs_at s = Outside"
    "rs_pc s = R_Handshake \<and> ms = 2000 \<or> rs_pc s = R_Loop \<and> \<not> dmx_transportError (rs_demuxer s) \<and> ms = 1000"
  obtains (timeout) w' where "r = Inr (False, rs_packet s, rs_demuxer s, w')"
      "(fine_receive_step h R reenters)\<^sup>*\<^sup>* s (s\<lparr>rs_world := w', rs_pc := R_Loop\<rparr>)"
  | (call) part sz buf w' where
      "(fine_receive_step h R reenters)\<^sup>*\<^sup>* s (s\<lparr>rs_world := w', rs_at := Reading part sz buf\<rparr>)"
      "returned (rs_packet s) (rs_demuxer s)
        (read_step h R part sz buf (rs_packet s) (dmx_transportError (rs_demuxer s)) w') r"
proof -
  obtain ready w0 where rdy: "rd_readyForReading R ms (rs_world s) = (ready, w0)" by fastforce
  note wait = waits [OF assms(2,3) rdy, of h reenters]
  show thesis
  proof (cases ready)
    case False
    with assms(1) rdy have "r = Inr (False, rs_packet s, rs_demuxer s, w0)" by (simp add: receivePacket_def)
    with wait False show thesis by (intro timeout) auto
  next
    case True
    let ?s1 = "s\<lparr>rs_world := w0, rs_at := Reading ReadType 4 []\<rparr>"
    from True rdy have "rd_readyForReading R ms (rs_world s) = (True, w0)" by simp
    then have "reads_from h R (rs_packet s) (rs_demuxer s) (ReadType, 4, [], w0) r"
      by (rule receivePacket_reads [OF assms(1)])
    then obtain part sz buf w' where run: "(read_next h R (rs_packet s) (dmx_transportError (rs_demuxer s)))\<^sup>*\<^sup>*
        (ReadType, 4, [], w0) (part, sz, buf, w')"
      and last: "returned (rs_packet s) (rs_demuxer s)
        (read_step h R part sz buf (rs_packet s) (dmx_transportError (rs_demuxer s)) w') r"
      by (auto simp: reads_from_def)
    have "(fine_receive_step h R reenters)\<^sup>*\<^sup>* ?s1 (?s1\<lparr>rs_world := w', rs_at := Reading part sz buf\<rparr>)"
      by (rule read_next_steps) (use run in simp_all)
    moreover have "fine_receive_step h R reenters s ?s1" using wait True by simp
    ultimately have "(fine_receive_step h R reenters)\<^sup>*\<^sup>* s (s\<lparr>rs_world := w', rs_at := Reading part sz buf\<rparr>)"
      by (simp add: converse_rtranclp_into_rtranclp)
    then show thesis using last by (rule call)
  qed
qed

lemma receiveHelloMessage_check:
  "receiveHelloMessage h R stop packet ms d w =
    and_then (receivePacket h R stop packet ms d w) (\<lambda>(received, p, d', w').
      if \<not> received then Some (Inr (p, d', w'))
      else (case check_hello p d' of Inl e \<Rightarrow> Some (Inl e) | Inr (packet', d'') \<Rightarrow> Some (Inr (packet', d'', w'))))"
  unfolding receiveHelloMessage_def check_hello_def
  by (rule and_then_cong [OF refl])
    (auto simp: Let_def ComPacket_move_def split: prod.splits sum.splits)

text \<open>Where the thread is after a part of \<open>receiveLoop\<close>: at the head of the loop, or the process has ended.\<close>

definition goes_on :: "('cb, 'w) receiver \<Rightarrow> ('cb, 'w) receiver \<Rightarrow>
    (com_packet \<times> ('cb \<times> com_packet) list \<times> 'cb demuxer \<times> 'w) outcome \<Rightarrow> bool" where
  "goes_on s s' r \<longleftrightarrow>
     (case r of
        Inl e \<Rightarrow> rs_pc s' = R_Aborted
      | Inr (packet', new, d', w') \<Rightarrow> rs_pc s' = R_Loop \<and> rs_at s' = Outside \<and> rs_packet s' = packet' \<and>
          rs_demuxer s' = d' \<and> rs_world s' = w' \<and> rs_calls s' = rs_calls s @ new)"

lemma receiveHello_fine:
  assumes "receiveHelloMessage h R (\<lambda>_. False) (rs_packet s) 2000 (rs_demuxer s) (rs_world s) = Some r"
    "rs_at s = Outside" "rs_pc s = R_Handshake"
  shows "\<exists>s'. (fine_receive_step h R reenters)\<^sup>*\<^sup>* s s' \<and>
    goes_on s s' (case r of Inl e \<Rightarrow> Inl e | Inr (packet', d', w') \<Rightarrow> Inr (packet', [], d', w'))"
proof -
  obtain x where x: "receivePacket h R (\<lambda>_. False) (rs_packet s) 2000 (rs_demuxer s) (rs_world s) = Some x"
    using assms(1) by (auto simp: receiveHelloMessage_def outcome_eqs)
  have pc: "rs_pc s = R_Handshake \<and> 2000 = (2000 :: int) \<or>
    rs_pc s = R_Loop \<and> \<not> dmx_transportError (rs_demuxer s) \<and> 2000 = (1000 :: int)" using assms(3) by simp
  from x assms(2) pc show ?thesis
  proof (cases rule: receivePacket_steps [where reenters = reenters])
    case (timeout w')
    with assms(1) x have "r = Inr (rs_packet s, rs_demuxer s, w')" by (simp add: receiveHelloMessage_def)
    with timeout(2) assms(2) show ?thesis
      by (intro exI [of _ "s\<lparr>rs_world := w', rs_pc := R_Loop\<rparr>"]) (simp add: goes_on_def)
  next
    case (call part sz buf w')
    let ?s1 = "s\<lparr>rs_world := w', rs_at := Reading part sz buf\<rparr>"
    have s1: "rs_at ?s1 = Reading part sz buf" "rs_pc ?s1 = R_Handshake" "rs_pc ?s1 \<noteq> R_Aborted"
      using assms(3) by simp_all
    have "\<exists>s'. fine_receive_step h R reenters ?s1 s' \<and>
        goes_on s s' (case r of Inl e \<Rightarrow> Inl e | Inr (packet', d', w') \<Rightarrow> Inr (packet', [], d', w'))"
    proof (cases x)
      case (Inl e)
      with assms(1) x have "r = Inl e" by (simp add: receiveHelloMessage_def)
      with fails [OF s1(1), of h R e reenters] call(2) Inl show ?thesis
        by (auto simp: returned_def goes_on_def)
    next
      case (Inr y)
      obtain got p d' w1 where x': "x = Inr (got, p, d', w1)" by (cases y) (simp add: Inr)
      show ?thesis
      proof (cases got)
        case False
        with assms(1) x x' have "r = Inr (p, d', w1)" by (simp add: receiveHelloMessage_def)
        with gives_up [OF s1(1,3), of h R True w1 reenters] call(2) x' False show ?thesis
          by (auto simp: returned_def goes_on_def)
      next
        case True
        note got = this
        show ?thesis
        proof (cases "check_hello p (rs_demuxer s)")
          case (Inl e)
          with assms(1) x x' got call(2) have "r = Inl e"
            by (auto simp: receiveHelloMessage_check returned_def)
          moreover have "fine_receive_step h R reenters ?s1 (?s1\<lparr>rs_pc := R_Aborted, rs_at := Outside\<rparr>)"
            by (rule fails [OF s1(1), where e = e])
              (use call(2) x' got Inl s1(2) in \<open>auto simp: returned_def\<close>)
          ultimately show ?thesis by (auto simp: goes_on_def)
        next
          fix z assume z: "check_hello p (rs_demuxer s) = Inr z"
          obtain packet' d'' where c: "check_hello p (rs_demuxer s) = Inr (packet', d'')" by (cases z) (simp add: z)
          with assms(1) x x' got call(2) have "r = Inr (packet', d'', w1)"
            by (auto simp: receiveHelloMessage_check returned_def)
          with greets [OF s1(1,2), of h R p False w1 packet' d'' reenters] c call(2) x' got show ?thesis
            by (auto simp: returned_def goes_on_def)
        qed
      qed
    qed
    with call(1) show ?thesis by (meson rtranclp.rtrancl_into_rtrancl)
  qed
qed

section \<open>The loop of the thread\<close>

lemma dispatch_fine:
  assumes "rs_at s = Outside" "rs_pc s = R_Dispatch" "ComPacket_move (rs_packet s) = (sptr, moved)" "\<forall>cb. \<not> reenters cb"
    and "(if getType (rs_packet s) = ControlPacket then ([], handleControlMessage sptr (rs_demuxer s))
      else postPacket sptr (rs_demuxer s)) = (new, d')"
  shows "\<exists>s'. (fine_receive_step h R reenters)\<^sup>*\<^sup>* s s' \<and> goes_on s s' (Inr (moved, new, d', rs_world s))"
proof (cases "getType (rs_packet s) = ControlPacket")
  case True
  with assms(5) have "new = []" "d' = handleControlMessage sptr (rs_demuxer s)" by simp_all
  with handles [OF assms(1,2) True assms(3), of h R reenters] assms(1) show ?thesis
    by (intro exI [of _ "with_demuxer d' (s\<lparr>rs_pc := R_Loop, rs_packet := moved\<rparr>)"]) (simp add: goes_on_def)
next
  case False
  let ?q = "subscribers (rs_demuxer s) (getType (rs_packet s))"
  have sptr: "sptr = rs_packet s" using assms(3) by (simp add: ComPacket_move_def)
  have new: "new = map (\<lambda>x. (sub_callback x, sptr)) ?q"
    "d' = set_subscribers (getType (rs_packet s)) ?q (rs_demuxer s)"
    using assms(5) False sptr by (auto simp: postPacket_def Let_def)
  let ?s1 = "with_demuxer d' (s\<lparr>rs_packet := moved, rs_at := Calling sptr ?q\<rparr>)"
  have "fine_receive_step h R reenters s ?s1"
    using locks [OF assms(1,2) False assms(3) refl, of h R reenters] new(2) by simp
  moreover have "(fine_receive_step h R reenters)\<^sup>*\<^sup>* ?s1
      (?s1\<lparr>rs_calls := rs_calls ?s1 @ new, rs_at := Outside, rs_pc := R_Loop\<rparr>)"
    unfolding new(1) by (rule calling_ends) (use assms(2,4) in simp_all)
  ultimately have "(fine_receive_step h R reenters)\<^sup>*\<^sup>* s
      (?s1\<lparr>rs_calls := rs_calls ?s1 @ new, rs_at := Outside, rs_pc := R_Loop\<rparr>)"
    by (rule converse_rtranclp_into_rtranclp)
  moreover have "goes_on s (?s1\<lparr>rs_calls := rs_calls ?s1 @ new, rs_at := Outside, rs_pc := R_Loop\<rparr>)
      (Inr (moved, new, d', rs_world s))" by (simp add: goes_on_def)
  ultimately show ?thesis by blast
qed

lemma receiveTurn_fine:
  assumes "receiveTurn h R (\<lambda>_. False) (rs_packet s) (rs_demuxer s) (rs_world s) = Some r"
    "rs_at s = Outside" "rs_pc s = R_Loop" "\<not> dmx_transportError (rs_demuxer s)" "\<forall>cb. \<not> reenters cb"
  shows "\<exists>s'. (fine_receive_step h R reenters)\<^sup>*\<^sup>* s s' \<and> goes_on s s' r"
proof -
  obtain x where x: "receivePacket h R (\<lambda>_. False) (rs_packet s) 1000 (rs_demuxer s) (rs_world s) = Some x"
    using assms(1) by (auto simp: receiveTurn_def outcome_eqs)
  have pc: "rs_pc s = R_Handshake \<and> 1000 = (2000 :: int) \<or>
    rs_pc s = R_Loop \<and> \<not> dmx_transportError (rs_demuxer s) \<and> 1000 = (1000 :: int)" using assms(3,4) by simp
  from x assms(2) pc show ?thesis
  proof (cases rule: receivePacket_steps [where reenters = reenters])
    case (timeout w')
    with assms(1) x have "r = Inr (rs_packet s, [], rs_demuxer s, w')" by (simp add: receiveTurn_def)
    with timeout(2) assms(2) show ?thesis
      by (intro exI [of _ "s\<lparr>rs_world := w', rs_pc := R_Loop\<rparr>"]) (simp add: goes_on_def)
  next
    case (call part sz buf w')
    let ?s1 = "s\<lparr>rs_world := w', rs_at := Reading part sz buf\<rparr>"
    have s1: "rs_at ?s1 = Reading part sz buf" "rs_pc ?s1 = R_Loop" "rs_pc ?s1 \<noteq> R_Aborted"
      using assms(3) by simp_all
    have "\<exists>s'. (fine_receive_step h R reenters)\<^sup>*\<^sup>* ?s1 s' \<and> goes_on s s' r"
    proof (cases x)
      case (Inl e)
      with assms(1) x have "r = Inl e" by (simp add: receiveTurn_def)
      with fails [OF s1(1), of h R e reenters] call(2) Inl show ?thesis
        by (auto simp: returned_def goes_on_def)
    next
      case (Inr y)
      obtain got p d' w1 where x': "x = Inr (got, p, d', w1)" by (cases y) (simp add: Inr)
      show ?thesis
      proof (cases got)
        case False
        with assms(1) x x' have "r = Inr (p, [], d', w1)" by (simp add: receiveTurn_def)
        with gives_up [OF s1(1,3), of h R True w1 reenters] call(2) x' False show ?thesis
          by (auto simp: returned_def goes_on_def)
      next
        case True
        obtain sptr moved where mv: "ComPacket_move p = (sptr, moved)" by fastforce
        obtain new d'' where post: "(if getType p = ControlPacket then ([], handleControlMessage sptr d')
            else postPacket sptr d') = (new, d'')" by fastforce
        have r: "r = Inr (moved, new, d'', w1)"
          using assms(1) x x' True mv post by (auto simp: receiveTurn_def Let_def split: if_splits)
        let ?s2 = "?s1\<lparr>rs_world := w1, rs_at := Outside, rs_pc := R_Dispatch, rs_packet := p, rs_taken := rs_taken s @ [p]\<rparr>"
        have last: "read_step h R part sz buf (rs_packet s) (dmx_transportError (rs_demuxer s)) w' =
            Inr (ReturnsTrue p, False, w1)" "d' = rs_demuxer s"
          using call(2) x' True by (auto simp: returned_def)
        then have "fine_receive_step h R reenters ?s1 ?s2" using receives [OF s1(1,2), of h R p False w1 reenters] by simp
        moreover have "\<exists>s'. (fine_receive_step h R reenters)\<^sup>*\<^sup>* ?s2 s' \<and> goes_on ?s2 s' (Inr (moved, new, d'', rs_world ?s2))"
          by (rule dispatch_fine) (use mv post [unfolded last(2)] assms(5) in \<open>simp_all split: if_splits\<close>)
        moreover have "goes_on ?s2 s' (Inr (moved, new, d'', rs_world ?s2)) \<Longrightarrow> goes_on s s' r" for s'
          by (simp add: r goes_on_def)
        ultimately show ?thesis by (meson converse_rtranclp_into_rtranclp)
      qed
    qed
    with call(1) show ?thesis by (meson rtranclp_trans)
  qed
qed

lemma receiveWhile_fine:
  fixes R :: "'w abstract_reader"
  assumes "receiveWhile h R (\<lambda>_. False) packet calls d w = Some r"
    "rs_at s = Outside" "rs_pc s = R_Loop" "rs_packet s = packet" "rs_demuxer s = d" "rs_world s = w" "rs_calls s = calls"
    and "\<forall>cb. \<not> reenters cb"
  shows "\<exists>s'. (fine_receive_step h R reenters)\<^sup>*\<^sup>* s s' \<and> ends_as r s'"
  using assms(1-7)
proof (induction packet calls d w r arbitrary: s rule: receiveWhile_induct)
  case (ends packet calls d w)
  then have "fine_receive_step h R reenters s (s\<lparr>rs_pc := R_Exited\<rparr>)" "d\<lparr>dmx_transportError := True\<rparr> = d"
    using returns [OF ends(2,3)] by simp_all
  then show ?case
    using ends by (intro exI [of _ "s\<lparr>rs_pc := R_Exited\<rparr>"]) (simp add: ends_as_def)
next
  case (fails packet calls d w e)
  then show ?case
    using receiveTurn_fine [OF _ fails(4,5) _ assms(8), of h R "Inl e"] by (auto simp: goes_on_def ends_as_def)
next
  case (turn packet calls d w packet' new d' w' r)
  obtain s1 where s1: "(fine_receive_step h R reenters)\<^sup>*\<^sup>* s s1" "goes_on s s1 (Inr (packet', new, d', w'))"
    using receiveTurn_fine [OF _ turn(5,6) _ assms(8), of h R "Inr (packet', new, d', w')"] turn by blast
  with turn.IH [of s1] turn obtain s' where "(fine_receive_step h R reenters)\<^sup>*\<^sup>* s1 s'" "ends_as r s'"
    by (auto simp: goes_on_def)
  with s1(1) show ?case by (meson rtranclp_trans)
qed

text \<open>
  \<open>receiveLoop\<close>, on its own and with callbacks that do not re-enter the demuxer, is a run of the
  steps.
\<close>

lemma receiveLoop_fine:
  assumes "receiveLoop h R (\<lambda>_. False) d w = Some r" "\<forall>cb. \<not> reenters cb"
  shows "\<exists>s'. (fine_receive_step h R reenters)\<^sup>*\<^sup>* (start_receiver d w) s' \<and> ends_as r s'"
proof -
  let ?s = "start_receiver d w"
  obtain t where t: "receiveHelloMessage h R (\<lambda>_. False) ComPacket_default 2000 d w = Some t"
    using assms(1) by (auto simp: receiveLoop_def outcome_eqs)
  obtain s1 where s1: "(fine_receive_step h R reenters)\<^sup>*\<^sup>* ?s s1"
    "goes_on ?s s1 (case t of Inl e \<Rightarrow> Inl e | Inr (packet', d', w') \<Rightarrow> Inr (packet', [], d', w'))"
    using receiveHello_fine [of h R ?s t reenters] t by auto
  show ?thesis
  proof (cases t)
    case (Inl e)
    then have "r = Inl e" using assms(1) t by (simp add: receiveLoop_def)
    with s1 Inl show ?thesis by (auto simp: goes_on_def ends_as_def)
  next
    case (Inr y)
    obtain packet' d' w' where t': "t = Inr (packet', d', w')" by (cases y) (simp add: Inr)
    have "receiveWhile h R (\<lambda>_. False) packet' [] d' w' = Some r" using assms(1) t t' by (simp add: receiveLoop_def)
    from receiveWhile_fine [OF this _ _ _ _ _ _ assms(2), of s1] s1(2) t'
    have "\<exists>s'. (fine_receive_step h R reenters)\<^sup>*\<^sup>* s1 s' \<and> ends_as r s'" by (simp add: goes_on_def)
    with s1(1) show ?thesis by (rule fine_reached)
  qed
qed

end
