(* ===== verification/Example_Steps.thy ===== *)
theory Example_Steps
  imports Example_Run ReceiveRuns
begin

text \<open>
  The concrete connection of Example_Run, call by call: the receiver takes Hello while the
  sender is still writing the next packet.
\<close>

section \<open>The links\<close>

interpretation example_link: packet_link "send_step LittleEndian example_writer" "receive_step BigEndian example_reader"
  "delivered outgoing example_kernel incoming v" "start_sending example_muxer example_kernel"
  "start_receiving example_empty_demuxer v" "\<lambda>s. mux_transportError (mux s)" posted transmitted rs_taken
  by (rule connected_link [OF example_writes example_ctor _ example_reads]) simp

interpretation example_fine_link: packet_link "fine_send_step LittleEndian example_writer"
  "fine_receive_step BigEndian example_reader reenters" "delivered outgoing example_kernel incoming v"
  "between_passes (start_sending example_muxer example_kernel)" "start_receiver example_empty_demuxer v"
  "\<lambda>s. \<not> no_error s" posted "\<lambda>s. transmitted s @ in_hand s" rs_taken
  by (rule fine_connected_link [OF example_writes example_ctor _ example_reads]) simp

section \<open>The sending side\<close>

lemma example_first_queue:
  "\<exists>m1 w1. sendAll h example_writer [control_packet Hello] (mux example_posted) example_kernel =
      Some (Inr ([], m1, w1)) \<and> \<not> mux_transportError m1 \<and> mux_txQueues m1 = mux_txQueues (mux example_posted) \<and>
    outgoing w1 = wire (control_packet Hello)"
proof -
  note inv = reachable_inv [OF example_writes example_ctor _ example_posted_sending, simplified]
  have q: "txQueue (mux example_posted) ControlPacket = [control_packet Hello]"
    by (simp add: example_posted_def example_queues_def txQueue_def ControlPacket_def)
  obtain m' w' where run: "sendQueues h example_writer [ControlPacket, 2] (mux example_posted) (world example_posted) =
      Some (Inr (m', w'))" "\<not> mux_transportError m'"
    using byte_sink.pass_flushes [OF byte_sinkI [OF example_sink] inv(1) example_begins example_order(1), of h]
    by (auto simp: example_posted_def example_muxer_def)
  then obtain rest m1 w1 where hd: "sendAll h example_writer [control_packet Hello] (mux example_posted) example_kernel =
      Some (Inr (rest, m1, w1))"
    and tl: "sendQueues h example_writer [2] (set_txQueue ControlPacket rest m1) w1 = Some (Inr (m', w'))"
    using run(1) unfolding sendQueues.simps(2) [of h example_writer ControlPacket] and_then_eq_Some q
    by (auto simp del: sendQueues.simps sendAll.simps) (simp add: example_posted_def)
  have ok: "\<not> mux_transportError m1"
    using sendQueues_error [of "set_txQueue ControlPacket rest m1" h example_writer "[2]" w1] tl run(2) by auto
  have "\<forall>p \<in> set [control_packet Hello]. sendable p"
    using queue_type(2) [OF inv(2), of _ ControlPacket] q by simp
  from byte_writer.sendAll_spec [OF byte_writer.intro [OF example_writes] hd this] ok
  have "rest = []" "\<exists>n e. m1 = (mux example_posted)\<lparr>mux_numSent := n, mux_transportError := e\<rparr>"
    "outgoing w1 = wire (control_packet Hello)" by (auto simp: example_kernel_def)
  then show ?thesis using hd ok by auto
qed

text \<open>Hello has been written; the next packet is in hand.\<close>

lemma example_writing:
  "\<exists>s. (fine_send_step h example_writer)\<^sup>*\<^sup>* (between_passes (start_sending example_muxer example_kernel)) s \<and>
     posted s = [control_packet Hello, example_packet] \<and> transmitted s = [control_packet Hello] \<and>
     in_hand s = [example_packet] \<and> no_error s \<and> outgoing (world s) = wire (control_packet Hello)"
proof -
  note writer = byte_writer.intro [OF example_writes]
  obtain m1 w1 where run: "sendAll h example_writer [control_packet Hello] (mux example_posted) example_kernel =
      Some (Inr ([], m1, w1))" "\<not> mux_transportError m1" "mux_txQueues m1 = mux_txQueues (mux example_posted)"
      "outgoing w1 = wire (control_packet Hello)"
    using example_first_queue by blast
  let ?m = "mux example_posted" and ?m1 = "set_txQueue ControlPacket [] m1"
  have q: "txQueue ?m ControlPacket = [control_packet Hello]" "txQueue ?m1 2 = [example_packet]"
    and e: "\<not> mux_transportError ?m1"
    using run(2,3)
    by (simp_all add: example_posted_def example_queues_def txQueue_def ControlPacket_def set_txQueue_def)
  let ?s1 = "(between_passes example_posted)\<lparr>mux := ?m, pc := Locked, posted := posted (between_passes example_posted) @ [],
    in_pass := Some (Between [ControlPacket, 2])\<rparr>"
  have start: "(fine_send_step h example_writer)\<^sup>*\<^sup>* (between_passes (start_sending example_muxer example_kernel)) ?s1"
  proof (rule rtranclp.rtrancl_into_rtrancl)
    show "(fine_send_step h example_writer)\<^sup>*\<^sup>* (between_passes (start_sending example_muxer example_kernel))
        (between_passes example_posted)"
      by (rule byte_writer.sending_fine [OF writer example_posted_sending example_ctor]) simp
    show "fine_send_step h example_writer (between_passes example_posted) ?s1"
      by (rule fine_send_step.begins [OF _ _ example_order(1)]) (simp_all add: example_begins)
  qed
  have "pass_step h example_writer (Between [ControlPacket, 2]) ?m example_kernel =
      Inr (Some (AtQueue ControlPacket [2]), ?m, example_kernel, [])" by simp
  then have "(pass_next h example_writer)\<^sup>*\<^sup>* (Some (Between [ControlPacket, 2]), ?m, example_kernel, [])
      (Some (AtQueue ControlPacket [2]), ?m, example_kernel, [])" by (rule pass_next_silent)
  also have "(pass_next h example_writer)\<^sup>*\<^sup>* \<dots> (Some (Between [2]), ?m1, w1, [control_packet Hello])"
  proof -
    have "sendable (control_packet Hello)" by (simp add: sendable_def ControlPacket_def InvalidPacket_def)
    then obtain taken where "[control_packet Hello] = taken @ []" "(pass_next h example_writer)\<^sup>*\<^sup>*
        (Some (AtQueue ControlPacket [2]), set_txQueue ControlPacket [control_packet Hello] ?m, example_kernel, [])
        (Some (Between [2]), ?m1, w1, [] @ taken)"
      using byte_writer.sendAll_steps [OF writer run(1), of ControlPacket "[2]" "[]"] by auto
    moreover have "mux_txQueues ?m ControlPacket \<noteq> None"
      by (simp add: example_posted_def example_queues_def ControlPacket_def)
    from set_txQueue_simps(2) [OF this] have "set_txQueue ControlPacket [control_packet Hello] ?m = ?m"
      by (simp only: q(1))
    ultimately show ?thesis by simp
  qed
  also have "(pass_next h example_writer)\<^sup>*\<^sup>* \<dots> (Some (AtQueue 2 []), ?m1, w1, [control_packet Hello])"
    by (rule pass_next_silent) simp
  also have "(pass_next h example_writer)\<^sup>*\<^sup>* \<dots> (Some (Writing 2 [] (be32 2) [be32 3, [10, 20, 30]] True), ?m1, w1, [control_packet Hello])"
    by (rule pass_next_silent)
      (use q(2) e in \<open>simp add: example_packet_def getType_def getDataSize_def InvalidPacket_def\<close>)
  finally have "(pass_next h example_writer)\<^sup>*\<^sup>* (Some (Between [ControlPacket, 2]), ?m, example_kernel, [])
      (Some (Writing 2 [] (be32 2) [be32 3, [10, 20, 30]] True), ?m1, w1, [control_packet Hello])" .
  from pass_next_steps [OF this, of ?s1]
  have "(fine_send_step h example_writer)\<^sup>*\<^sup>* ?s1 (?s1\<lparr>mux := ?m1, world := w1, transmitted := [control_packet Hello],
      in_pass := Some (Writing 2 [] (be32 2) [be32 3, [10, 20, 30]] True)\<rparr>)"
    by (simp add: example_posted_def between_passes_def send_system.defs sender.defs)
  from rtranclp_trans [OF start this] show ?thesis
    using run(4) e q(2) by (intro exI conjI) (assumption, simp_all add: example_posted_def)
qed

section \<open>The receiving side\<close>

text \<open>The receive thread has taken Hello, the first packet of the stream.\<close>

lemma example_greeted:
  "\<exists>r. (fine_receive_step h example_reader reenters)\<^sup>*\<^sup>* (start_receiver example_empty_demuxer (arrived example_stream)) r \<and>
     rs_taken r = [control_packet Hello] \<and> incoming (rs_world r) = wire example_packet"
proof -
  let ?s = "start_receiver example_empty_demuxer (arrived example_stream)"
  have pc: "rs_pc ?s = R_Handshake \<and> 2000 = (2000 :: int) \<or>
      rs_pc ?s = R_Loop \<and> \<not> dmx_transportError (rs_demuxer ?s) \<and> 2000 = (1000 :: int)" by simp
  have "prompt (arrived example_stream)" by (simp add: prompt_def arrived_def arriving_def)
  moreover have "incoming (arrived example_stream) = wire (control_packet Hello) @ wire example_packet"
    by (simp add: arrived_def arriving_def example_stream_def)
  moreover have quiet: "\<not> dmx_transportError example_empty_demuxer" by (simp add: example_empty_demuxer_def)
  ultimately obtain k where k: "receivePacket h example_reader (\<lambda>_. False) ComPacket_default 2000 example_empty_demuxer
      (arrived example_stream) = Some (Inr (True, control_packet Hello, example_empty_demuxer, k))"
    "incoming k = wire example_packet"
    using receivable_hello by (metis prompt_receives)
  then have "receivePacket h example_reader (\<lambda>_. False) (rs_packet ?s) 2000 (rs_demuxer ?s) (rs_world ?s) =
      Some (Inr (True, control_packet Hello, example_empty_demuxer, k))" by simp
  from this _ pc show ?thesis
  proof (rule receivePacket_steps [where reenters = reenters])
    fix part sz buf w'
    assume call: "(fine_receive_step h example_reader reenters)\<^sup>*\<^sup>* ?s (?s\<lparr>rs_world := w', rs_at := Reading part sz buf\<rparr>)"
      "returned (rs_packet ?s) (rs_demuxer ?s) (read_step h example_reader part sz buf (rs_packet ?s)
        (dmx_transportError (rs_demuxer ?s)) w') (Inr (True, control_packet Hello, example_empty_demuxer, k))"
    let ?s1 = "?s\<lparr>rs_world := w', rs_at := Reading part sz buf\<rparr>"
    let ?s2 = "with_demuxer example_empty_demuxer (?s1\<lparr>rs_world := k, rs_at := Outside, rs_pc := R_Loop,
      rs_packet := ComPacket_default, rs_taken := rs_taken ?s1 @ [control_packet Hello]\<rparr>)"
    have "check_hello (control_packet Hello) example_empty_demuxer = Inr (ComPacket_default, example_empty_demuxer)"
      by (simp add: check_hello_def getType_def ComPacket_move_def control_of_def ComPacket_default_def)
    then have "fine_receive_step h example_reader reenters ?s1 ?s2"
      using call(2) quiet by (intro greets [where part = part and sz = sz and buf = buf and err = False])
        (simp_all add: returned_def)
    with call(1) have "(fine_receive_step h example_reader reenters)\<^sup>*\<^sup>* ?s ?s2" by simp
    then show ?thesis using k(2) by (intro exI conjI) (assumption, simp_all)
  qed simp_all
qed

text \<open>So the two ends are connected in the middle of a pass.\<close>

lemma example_fine_connected:
  "\<exists>s r. fine_connected LittleEndian example_writer outgoing example_muxer example_kernel BigEndian example_reader incoming
      reenters example_empty_demuxer (arrived example_stream) s r \<and>
     no_error s \<and> in_hand s = [example_packet] \<and> posted s = [control_packet Hello, example_packet] \<and>
     rs_taken r = [control_packet Hello]"
proof -
  obtain s where s: "(fine_send_step LittleEndian example_writer)\<^sup>*\<^sup>* (between_passes (start_sending example_muxer example_kernel)) s"
    "posted s = [control_packet Hello, example_packet]" "in_hand s = [example_packet]" "no_error s"
    "outgoing (world s) = wire (control_packet Hello)"
    using example_writing by blast
  obtain r where r: "(fine_receive_step BigEndian example_reader reenters)\<^sup>*\<^sup>*
      (start_receiver example_empty_demuxer (arrived example_stream)) r"
    "rs_taken r = [control_packet Hello]" "incoming (rs_world r) = wire example_packet"
    using example_greeted by blast
  have "delivered outgoing example_kernel incoming (arrived example_stream) s r"
    using s(5) r(3)
    by (simp add: delivered_def in_order_def example_kernel_def arrived_def arriving_def example_stream_def)
  from fine_connected_steps [OF example_reads s(1) r(1) this] s r show ?thesis by blast
qed

section \<open>A callback\<close>

text \<open>The receiver with a subscription, up to the moment at which it calls the callback.\<close>

lemma example_subscribed_fine:
  "(fine_receive_step h example_reader reenters)\<^sup>*\<^sup>* (start_receiver example_empty_demuxer v)
    ((start_receiver example_empty_demuxer v)\<lparr>rs_constructed := True, rs_client := example_client\<rparr>)"
proof -
  let ?s = "start_receiver example_empty_demuxer v :: (string, memory_kernel) receiver"
  let ?s1 = "?s\<lparr>rs_constructed := True\<rparr>"
  have s1: "?s\<lparr>rs_world := v, rs_constructed := True\<rparr> = ?s1"
    by (simp add: start_receiver_def start_receiving_def receive_system.defs receiver.defs)
  have "fine_receive_step h example_reader reenters ?s (?s\<lparr>rs_world := v, rs_constructed := True\<rparr>)"
    using fine_receive_step.construction [of ?s h example_reader reenters] by simp
  then have "fine_receive_step h example_reader reenters ?s ?s1" unfolding s1 .
  moreover have "fine_receive_step h example_reader reenters ?s1 (?s1\<lparr>rs_client := example_client\<rparr>)"
    using example_subscribes by (intro fine_receive_step.uses) (simp_all add: lock_held_def)
  ultimately show ?thesis by (meson converse_rtranclp_into_rtranclp r_into_rtranclp)
qed

lemma example_calling:
  "\<exists>s s'. fine_receiving h example_reader reenters example_empty_demuxer (arrived example_stream) s \<and>
     fine_receive_step h example_reader reenters s s' \<and> rs_calls s = [] \<and>
     rs_calls s' = rs_calls s @ [(''log'', example_packet)]"
proof -
  let ?step = "fine_receive_step h example_reader reenters"
  let ?s = "(start_receiver example_empty_demuxer (arrived example_stream))\<lparr>rs_constructed := True, rs_client := example_client\<rparr>"
  have client: "rs_demuxer ?s = example_demuxer" by (simp add: example_client_def)
  obtain k where k: "receiveHelloMessage h example_reader (\<lambda>_. False) ComPacket_default 2000 example_demuxer
      (arrived example_stream) = Some (Inr (ComPacket_default, example_demuxer, k))"
    "incoming k = wire example_packet" "prompt k"
    by (rule example_hello_received)
  then obtain s1 where s1: "?step\<^sup>*\<^sup>* ?s s1" "goes_on ?s s1 (Inr (ComPacket_default, [], example_demuxer, k))"
    using receiveHello_fine [of h example_reader ?s "Inr (ComPacket_default, example_demuxer, k)" reenters] client by auto
  then have at: "rs_pc s1 = R_Loop" "rs_at s1 = Outside" "rs_packet s1 = ComPacket_default"
    "rs_demuxer s1 = example_demuxer" "rs_world s1 = k" "rs_calls s1 = []"
    by (simp_all add: goes_on_def)
  obtain k' where "receivePacket h example_reader (\<lambda>_. False) ComPacket_default 1000 example_demuxer k =
      Some (Inr (True, example_packet, example_demuxer, k'))"
    using k(2,3) by (rule example_packet_received)
  then have "receivePacket h example_reader (\<lambda>_. False) (rs_packet s1) 1000 (rs_demuxer s1) (rs_world s1) =
      Some (Inr (True, example_packet, example_demuxer, k'))" by (simp add: at)
  note received = this
  have "rs_pc s1 = R_Handshake \<and> 1000 = (2000 :: int) \<or>
      rs_pc s1 = R_Loop \<and> \<not> dmx_transportError (rs_demuxer s1) \<and> 1000 = (1000 :: int)" by (simp add: at)
  from received at(2) this obtain part sz buf w' where read: "?step\<^sup>*\<^sup>* s1 (s1\<lparr>rs_world := w', rs_at := Reading part sz buf\<rparr>)"
    "returned (rs_packet s1) (rs_demuxer s1) (read_step h example_reader part sz buf (rs_packet s1)
      (dmx_transportError (rs_demuxer s1)) w') (Inr (True, example_packet, example_demuxer, k'))"
    by (rule receivePacket_steps [where reenters = reenters]) auto
  let ?s2 = "s1\<lparr>rs_world := w', rs_at := Reading part sz buf\<rparr>"
  let ?s3 = "?s2\<lparr>rs_world := k', rs_at := Outside, rs_pc := R_Dispatch, rs_packet := example_packet,
    rs_taken := rs_taken ?s2 @ [example_packet]\<rparr>"
  have 3: "?step ?s2 ?s3"
    by (rule fine_receive_step.receives [where part = part and sz = sz and buf = buf and err = False])
      (use read(2) at in \<open>simp_all add: returned_def\<close>)
  have other: "getType example_packet \<noteq> ControlPacket" and queue: "subscribers example_demuxer 2 = [example_subscriber]"
    by (simp_all add: getType_def example_packet_def ControlPacket_def example_demuxer_def subscribers_def)
  let ?s4 = "with_demuxer (set_subscribers (getType example_packet) [example_subscriber] example_demuxer)
    (?s3\<lparr>rs_packet := ComPacket_default, rs_at := Calling example_packet [example_subscriber]\<rparr>)"
  have 4: "?step ?s3 ?s4"
    using fine_receive_step.locks [of ?s3 example_packet ComPacket_default "[example_subscriber]" h example_reader reenters]
      at other queue
    by (simp add: ComPacket_move_def ComPacket_default_def getType_def example_packet_def)
  let ?s5 = "?s4\<lparr>rs_calls := rs_calls ?s4 @ [(sub_callback example_subscriber, example_packet)],
    rs_at := if reenters (sub_callback example_subscriber) then Stuck else Calling example_packet []\<rparr>"
  have 5: "?step ?s4 ?s5" by (rule fine_receive_step.calls) simp
  have "?step\<^sup>*\<^sup>* (start_receiver example_empty_demuxer (arrived example_stream)) ?s4"
    using rtranclp_trans [OF example_subscribed_fine rtranclp_trans [OF s1(1) read(1)]] 3 4
    by (meson rtranclp.rtrancl_into_rtrancl)
  then have "fine_receiving h example_reader reenters example_empty_demuxer (arrived example_stream) ?s4"
    by (rule fine_receiving_reach)
  moreover have "rs_calls ?s4 = []" "sub_callback example_subscriber = ''log''" by (simp_all add: at example_subscriber_def)
  ultimately show ?thesis using 5 by (intro exI [of _ ?s4] exI [of _ ?s5]) simp
qed

section \<open>A subscription that outlives its demuxer\<close>

text \<open>The destructor runs, with a warning, while the subscription object is alive.\<close>

lemma example_outlived:
  "\<exists>s. fine_receiving h example_reader reenters example_empty_demuxer example_kernel s \<and> rs_dtor s = D_Joined \<and>
     cl_handles (rs_client s) = cl_handles example_client \<and> rs_warnings s = [(1, ''A'')]"
proof -
  let ?step = "fine_receive_step h example_reader reenters"
  let ?s1 = "(start_receiver example_empty_demuxer example_kernel)\<lparr>rs_constructed := True, rs_client := example_client\<rparr>"
  let ?s2 = "?s1\<lparr>rs_dtor := D_Entered\<rparr>"
  let ?s3 = "with_demuxer (signalTransportError (rs_demuxer ?s2)) (?s2\<lparr>rs_dtor := D_Signalled\<rparr>)"
  let ?s4 = "?s3\<lparr>rs_dtor := D_Warned, rs_warnings := [(1, ''A'')]\<rparr>"
  let ?s5 = "?s4\<lparr>rs_world := example_kernel, rs_pc := R_Loop\<rparr>"
  let ?s6 = "?s5\<lparr>rs_pc := R_Exited\<rparr>"
  let ?s7 = "?s6\<lparr>rs_dtor := D_Joined\<rparr>"
  have 2: "?step ?s1 ?s2" by (rule fine_receive_step.enters_dtor) simp_all
  have 3: "?step ?s2 ?s3" by (rule fine_receive_step.destruction [OF signals]) simp_all
  have warned: "warnAboutSubscribers [2] (rs_demuxer ?s3) = Inr [(1, ''A'')]"
    by (simp add: example_client_def example_demuxer_def signalTransportError_def subscribers_def toString_def
        example_ids_def)
  have 4: "?step ?s3 ?s4"
    by (rule fine_receive_step.destruction [OF warns [OF _ _ _ warned]])
      (simp_all add: example_client_def example_demuxer_def signalTransportError_def lock_held_def)
  have "rd_readyForReading example_reader 2000 (rs_world ?s4) = (False, example_kernel)"
    by (simp add: example_reader_def socket_reader_def Socket_readyForReading_def WaitForSingleEvent_def
        memory_calls_def memory_poll_def example_kernel_def)
  then have 5: "?step ?s4 ?s5"
    using fine_receive_step.waits [of ?s4 2000 example_reader False example_kernel h reenters] by simp
  have 6: "?step ?s5 ?s6"
    by (rule fine_receive_step.returns) (simp_all add: signalTransportError_def)
  have 7: "?step ?s6 ?s7" by (rule fine_receive_step.destruction [OF joins]) simp_all
  have "?step\<^sup>*\<^sup>* (start_receiver example_empty_demuxer example_kernel) ?s7"
    using example_subscribed_fine 2 3 4 5 6 7 by (meson rtranclp.rtrancl_into_rtrancl)
  from fine_receiving_reach [OF this] show ?thesis by (intro exI [of _ ?s7]) simp
qed

end
