(* ===== verification/SocketLifetime.thy ===== *)
theory SocketLifetime
  imports Socket
begin

text \<open>
  The descriptors that sockets own (constructors and destructors of the socket classes,
  \<open>TcpSocket::Accept\<close>): every open descriptor belongs to exactly one live socket object. Copies of
  socket objects, which the classes do not forbid and the library does not make, are left out.
\<close>

section \<open>The calls of a socket object\<close>

text \<open>The member functions other than constructors, destructor and \<open>Accept\<close>.\<close>

datatype socket_call =
    Call_Bind int | Call_Shutdown | Call_Connect ipv4_address | Call_Read usize | Call_Write "byte list"
  | Call_setBlocking bool | Call_GetPeerAddress ipv4_address | Call_readyForReading int
  | Call_ReadyForWriting int | Call_Listen int | Call_NagleOn | Call_NagleOff
  | Call_SendTo ipv4_address "byte list" | Call_ReceiveFrom usize "ipv4_address option"

text \<open>The kernel after a call; the results do not matter here.\<close>

fun after_call :: "host_order \<Rightarrow> 'k kernel \<Rightarrow> socket \<Rightarrow> socket_call \<Rightarrow> 'k \<Rightarrow> 'k" where
  "after_call h K s (Call_Bind port) k = snd (Socket_Bind h K s port k)"
| "after_call h K s Call_Shutdown k = Socket_Shutdown K s k"
| "after_call h K s (Call_Connect addr) k = snd (Socket_Connect K s addr k)"
| "after_call h K s (Call_Read n) k = snd (snd (Socket_read K s n k))"
| "after_call h K s (Call_Write data) k = snd (Socket_write K s data k)"
| "after_call h K s (Call_setBlocking b) k = Socket_setBlocking K s b k"
| "after_call h K s (Call_GetPeerAddress addr) k = snd (snd (Socket_GetPeerAddress K s addr k))"
| "after_call h K s (Call_readyForReading ms) k = snd (Socket_readyForReading K s ms k)"
| "after_call h K s (Call_ReadyForWriting ms) k = snd (Socket_ReadyForWriting K s ms k)"
| "after_call h K s (Call_Listen n) k = snd (TcpSocket_Listen K s n k)"
| "after_call h K s Call_NagleOn k = SetNagleBufferingOn K s k"
| "after_call h K s Call_NagleOff k = SetNagleBufferingOff K s k"
| "after_call h K s (Call_SendTo addr data) k = snd (UdpSocket_SendTo K s addr data k)"
| "after_call h K s (Call_ReceiveFrom n addr) k = snd (snd (snd (UdpSocket_ReceiveFrom K s n addr k)))"

section \<open>A program with sockets\<close>

text \<open>The live socket objects by name, and the kernel. A constructor whose \<open>socket\<close> fails asserts.\<close>

type_synonym sockets = "(nat \<times> socket) list"

inductive socket_step :: "host_order \<Rightarrow> 'k kernel \<Rightarrow> sockets \<times> 'k \<Rightarrow> sockets \<times> 'k \<Rightarrow> bool"
  for h :: host_order and K :: "'k kernel" where
  makes_tcp: "x \<notin> fst ` set ss \<Longrightarrow> TcpSocket_ctor K k = (Inr s, k') \<Longrightarrow> socket_step h K (ss, k) ((x, s) # ss, k')"
| makes_udp: "x \<notin> fst ` set ss \<Longrightarrow> UdpSocket_ctor K k = (Inr s, k') \<Longrightarrow> socket_step h K (ss, k) ((x, s) # ss, k')"
| accepts: "(y, s) \<in> set ss \<Longrightarrow> x \<notin> fst ` set ss \<Longrightarrow> TcpSocket_Accept K s k = (Some s', k') \<Longrightarrow>
    socket_step h K (ss, k) ((x, s') # ss, k')"
| accepts_none: "(y, s) \<in> set ss \<Longrightarrow> TcpSocket_Accept K s k = (None, k') \<Longrightarrow> socket_step h K (ss, k) (ss, k')"
| calls: "(y, s) \<in> set ss \<Longrightarrow> socket_step h K (ss, k) (ss, after_call h K s c k)"
| destroys: "ss = ss1 @ (x, s) # ss2 \<Longrightarrow> socket_step h K (ss, k) (ss1 @ ss2, Socket_dtor K s k)"

section \<open>What the kernel promises about descriptors\<close>

text \<open>
  \<open>opened\<close> are the open descriptors. Only \<open>socket\<close> and \<open>accept\<close> open one, which was not open, and
  only \<open>close\<close> closes one.
\<close>

definition opens :: "('k \<Rightarrow> int set) \<Rightarrow> 'k \<Rightarrow> int \<Rightarrow> 'k \<Rightarrow> bool" where
  "opens opened k fd k' \<longleftrightarrow>
     (if fd = -1 then opened k' = opened k else 0 \<le> fd \<and> fd \<notin> opened k \<and> opened k' = insert fd (opened k))"

definition kernel_descriptors :: "'k kernel \<Rightarrow> ('k \<Rightarrow> int set) \<Rightarrow> bool" where
  "kernel_descriptors K opened \<longleftrightarrow>
     (\<forall>kind k. opens opened k (fst (sys_socket K kind k)) (snd (sys_socket K kind k))) \<and>
     (\<forall>fd k. opens opened k (fst (sys_accept K fd k)) (snd (sys_accept K fd k))) \<and>
     (\<forall>fd k. opened (sys_close K fd k) = opened k - {fd}) \<and>
     (\<forall>fd opt v k. opened (snd (sys_setsockopt K fd opt v k)) = opened k) \<and>
     (\<forall>fd addr k. opened (snd (sys_bind K fd addr k)) = opened k) \<and>
     (\<forall>fd k. opened (snd (sys_shutdown K fd k)) = opened k) \<and>
     (\<forall>fd addr k. opened (snd (sys_connect K fd addr k)) = opened k) \<and>
     (\<forall>fd n k. opened (snd (snd (sys_recv K fd n k))) = opened k) \<and>
     (\<forall>fd data k. opened (snd (sys_send K fd data k)) = opened k) \<and>
     (\<forall>fd data addr k. opened (snd (sys_sendto K fd data addr k)) = opened k) \<and>
     (\<forall>fd n k. opened (snd (snd (snd (sys_recvfrom K fd n k)))) = opened k) \<and>
     (\<forall>fd flag k. opened (sys_setfl K fd flag k) = opened k) \<and>
     (\<forall>fd k. opened (snd (snd (snd (sys_getpeername K fd k)))) = opened k) \<and>
     (\<forall>fd e ms k. opened (snd (snd (sys_poll K fd e ms k))) = opened k) \<and>
     (\<forall>fd n k. opened (snd (sys_listen K fd n k)) = opened k)"

definition descriptors :: "sockets \<Rightarrow> int list" where
  "descriptors ss = filter (\<lambda>fd. fd \<noteq> -1) (map (m_socket \<circ> snd) ss)"

definition owned :: "('k \<Rightarrow> int set) \<Rightarrow> sockets \<times> 'k \<Rightarrow> bool" where
  "owned opened = (\<lambda>(ss, k). distinct (descriptors ss) \<and> opened k = set (descriptors ss))"

locale descriptor_kernel =
  fixes K :: "'k kernel" and opened :: "'k \<Rightarrow> int set"
  assumes descriptors_kept: "kernel_descriptors K opened"
begin

lemmas kept = descriptors_kept [unfolded kernel_descriptors_def]

lemma sys_opens:
  "sys_socket K kind k = (fd, k') \<Longrightarrow> opens opened k fd k'"
  "sys_accept K fd0 k = (fd, k') \<Longrightarrow> opens opened k fd k'"
  using kept [THEN conjunct1, rule_format, of k kind] kept [THEN conjunct2, THEN conjunct1, rule_format, of k fd0]
  by simp_all

lemma sys_close_opened: "opened (sys_close K fd k) = opened k - {fd}"
  by (rule kept [THEN conjunct2, THEN conjunct2, THEN conjunct1, rule_format])

lemma sys_setsockopt_opened: "opened (snd (sys_setsockopt K fd opt v k)) = opened k"
  by (rule kept [THEN conjunct2, THEN conjunct2, THEN conjunct2, THEN conjunct1, rule_format])

lemma after_call_opened: "opened (after_call h K s c k) = opened k"
  using descriptors_kept
  by (cases c) (auto simp: kernel_descriptors_def Socket_Bind_def Socket_Shutdown_def Socket_Connect_def
      Socket_read_def Socket_write_def Socket_setBlocking_def Socket_GetPeerAddress_def
      Socket_readyForReading_def Socket_ReadyForWriting_def WaitForSingleEvent_def TcpSocket_Listen_def
      SetNagleBufferingOn_def SetNagleBufferingOff_def UdpSocket_SendTo_def UdpSocket_ReceiveFrom_def
      Let_def split_def)

lemma owned_opens:
  assumes "owned opened (ss, k)" "opens opened k fd k'" "fd \<noteq> -1"
  shows "owned opened ((x, \<lparr>m_socket = fd\<rparr>) # ss, k')"
  using assms by (auto simp: owned_def opens_def descriptors_def)

lemma socket_step_owned:
  assumes "socket_step h K c c'" "owned opened c"
  shows "owned opened c'"
  using assms
proof (induction rule: socket_step.induct)
  case (makes_tcp x ss k s k')
  obtain fd k1 where fd: "sys_socket K SOCK_STREAM k = (fd, k1)" by fastforce
  with makes_tcp owned_opens [OF makes_tcp.prems sys_opens(1) [OF fd], of x] show ?case
    by (auto simp: TcpSocket_ctor_def Socket_ctor_def Let_def split: if_splits)
next
  case (makes_udp x ss k s k')
  obtain fd k1 where fd: "sys_socket K SOCK_DGRAM k = (fd, k1)" by fastforce
  with makes_udp owned_opens [OF makes_udp.prems sys_opens(1) [OF fd], of x] show ?case
    by (auto simp: UdpSocket_ctor_def Socket_ctor_def Let_def split: if_splits)
next
  case (accepts y s ss x k s' k')
  let ?k1 = "snd (sys_setsockopt K (m_socket s) SO_REUSEADDR 1 k)"
  obtain fd k2 where fd: "sys_accept K (m_socket s) ?k1 = (fd, k2)" by fastforce
  have "owned opened (ss, ?k1)" using accepts.prems by (simp add: owned_def sys_setsockopt_opened)
  from accepts owned_opens [OF this sys_opens(2) [OF fd], of x] fd show ?case
    by (auto simp: TcpSocket_Accept_def TcpSocket_of_fd_def Socket_ctor_def Let_def split_def split: if_splits)
next
  case (accepts_none y s ss k k')
  let ?k1 = "snd (sys_setsockopt K (m_socket s) SO_REUSEADDR 1 k)"
  obtain fd k2 where fd: "sys_accept K (m_socket s) ?k1 = (fd, k2)" by fastforce
  with accepts_none sys_opens(2) [OF fd] show ?case
    by (auto simp: TcpSocket_Accept_def owned_def opens_def sys_setsockopt_opened Let_def split_def split: if_splits)
next
  case (calls y s ss k c)
  then show ?case by (simp add: owned_def after_call_opened)
next
  case (destroys ss ss1 x s ss2 k)
  have d: "descriptors ss = descriptors ss1 @ descriptors [(x, s)] @ descriptors ss2"
    by (simp add: destroys.hyps descriptors_def)
  show ?case
  proof (cases "m_socket s = -1")
    case True
    then have "descriptors (ss1 @ ss2) = descriptors ss" by (simp add: destroys.hyps descriptors_def)
    with True destroys.prems show ?thesis by (simp add: owned_def Socket_dtor_def)
  next
    case False
    then have "descriptors [(x, s)] = [m_socket s]" by (simp add: descriptors_def)
    with d destroys.prems have "distinct (descriptors ss1 @ m_socket s # descriptors ss2)"
      "opened k = set (descriptors ss1 @ m_socket s # descriptors ss2)"
      by (simp_all add: owned_def)
    moreover have "descriptors (ss1 @ ss2) = descriptors ss1 @ descriptors ss2" by (simp add: descriptors_def)
    ultimately show ?thesis using False by (auto simp: owned_def Socket_dtor_def sys_close_opened)
  qed
qed

lemma socket_steps_owned: "(socket_step h K)\<^sup>*\<^sup>* c c' \<Longrightarrow> owned opened c \<Longrightarrow> owned opened c'"
  by (induction rule: rtranclp_induct) (auto intro: socket_step_owned)

end

section \<open>A kernel with a table of descriptors\<close>

text \<open>The kernel in memory, with a table: \<open>socket\<close> and \<open>accept\<close> give a descriptor above all open ones.\<close>

record table_kernel = memory_kernel +
  open_fds :: "int list"

definition open_fd :: "table_kernel \<Rightarrow> int \<times> table_kernel" where
  "open_fd k = (let fd = foldr max (open_fds k) 2 + 1 in (fd, k\<lparr>open_fds := fd # open_fds k\<rparr>))"

definition table_calls :: "table_kernel kernel" where
  "table_calls =
     \<lparr>sys_errno = last_errno, sys_socket = \<lambda>_. open_fd,
      sys_close = \<lambda>fd k. k\<lparr>open_fds := removeAll fd (open_fds k)\<rparr>,
      sys_bind = \<lambda>_ _ k. (0, k), sys_shutdown = \<lambda>_ k. (0, k), sys_connect = \<lambda>_ _ k. (0, k),
      sys_recv = \<lambda>_ n k. (0, [], k), sys_send = \<lambda>_ data k. (int (length data), k),
      sys_sendto = \<lambda>_ data _ k. (int (length data), k),
      sys_recvfrom = \<lambda>_ n k. (0, [], \<lparr>ss_family = AF_INET, sin_port = 0, sin_addr = 0\<rparr>, k),
      sys_setfl = \<lambda>_ _ k. k,
      sys_getpeername = \<lambda>_ k. (0, \<lparr>ss_family = AF_INET, sin_port = 0, sin_addr = 0\<rparr>, 16, k),
      sys_poll = \<lambda>_ e _ k. (1, [e], k), sys_listen = \<lambda>_ _ k. (0, k),
      sys_accept = \<lambda>_. open_fd, sys_setsockopt = \<lambda>_ _ _ k. (0, k)\<rparr>"

lemma foldr_max_ge: "(x :: int) \<in> set xs \<Longrightarrow> x \<le> foldr max xs b"
  by (induction xs) auto

lemma foldr_max_base: "b \<le> foldr max xs (b :: int)"
  by (induction xs) auto

lemma open_fd_opens: "opens (set \<circ> open_fds) k (fst (open_fd k)) (snd (open_fd k))"
  using foldr_max_ge [of "foldr max (open_fds k) 2 + 1" "open_fds k" 2] foldr_max_base [of 2 "open_fds k"]
  by (auto simp: opens_def open_fd_def Let_def)

lemma table_calls_descriptors: "kernel_descriptors table_calls (set \<circ> open_fds)"
  using open_fd_opens by (simp add: kernel_descriptors_def table_calls_def)

interpretation fd_table: descriptor_kernel table_calls "set \<circ> open_fds"
  by unfold_locales (rule table_calls_descriptors)

text \<open>A program that makes a socket, accepts a connection and destroys the first one.\<close>

definition example_table :: table_kernel where
  "example_table = \<lparr>outgoing = [], incoming = [], script = [], reset = False, last_errno = EAGAIN, open_fds = []\<rparr>"

lemma example_table_steps:
  "(socket_step h table_calls)\<^sup>*\<^sup>* ([], example_table) ([(1, TcpSocket_of_fd 4)], example_table\<lparr>open_fds := [4]\<rparr>)"
proof -
  let ?k1 = "example_table\<lparr>open_fds := [3]\<rparr>" and ?k2 = "example_table\<lparr>open_fds := [4, 3]\<rparr>"
  have 1: "socket_step h table_calls ([], example_table) ([(0, TcpSocket_of_fd 3)], ?k1)"
    by (rule makes_tcp) (simp_all add: TcpSocket_ctor_def table_calls_def open_fd_def example_table_def
        TcpSocket_of_fd_def Let_def)
  have 2: "socket_step h table_calls ([(0, TcpSocket_of_fd 3)], ?k1)
      ([(1, TcpSocket_of_fd 4), (0, TcpSocket_of_fd 3)], ?k2)"
    by (rule accepts [where y = 0 and s = "TcpSocket_of_fd 3"])
      (simp_all add: TcpSocket_Accept_def table_calls_def open_fd_def example_table_def Let_def)
  have "socket_step h table_calls ([(1, TcpSocket_of_fd 4), (0, TcpSocket_of_fd 3)], ?k2)
      ([(1, TcpSocket_of_fd 4)] @ [], Socket_dtor table_calls (TcpSocket_of_fd 3) ?k2)"
    by (rule socket_step.destroys [where x = 0]) simp
  then have 3: "socket_step h table_calls ([(1, TcpSocket_of_fd 4), (0, TcpSocket_of_fd 3)], ?k2)
      ([(1, TcpSocket_of_fd 4)], example_table\<lparr>open_fds := [4]\<rparr>)"
    by (simp add: Socket_dtor_def table_calls_def TcpSocket_of_fd_def Socket_ctor_def example_table_def)
  have "(socket_step h table_calls)\<^sup>*\<^sup>* ([], example_table) ([(0, TcpSocket_of_fd 3)], ?k1)"
    using 1 by (rule r_into_rtranclp [where r = "socket_step h table_calls"])
  also have "(socket_step h table_calls)\<^sup>*\<^sup>* \<dots> ([(1, TcpSocket_of_fd 4), (0, TcpSocket_of_fd 3)], ?k2)"
    using 2 by (rule r_into_rtranclp [where r = "socket_step h table_calls"])
  also have "(socket_step h table_calls)\<^sup>*\<^sup>* \<dots> ([(1, TcpSocket_of_fd 4)], example_table\<lparr>open_fds := [4]\<rparr>)"
    using 3 by (rule r_into_rtranclp [where r = "socket_step h table_calls"])
  finally show ?thesis .
qed

end
