(* ===== verification/Winsock.thy ===== *)
theory Winsock
  imports Socket
begin

text \<open>
  The Windows build of the socket classes (the \<open>WIN32\<close> branches of network/Socket.cpp,
  network/TcpSocket.cpp, network/UdpSocket.cpp and network/Ipv4Address.cpp, and
  network/WinsockInit.h). The calls of Winsock are a second record of parameters. The member
  functions of this build are those of the POSIX build over \<open>winsock_calls\<close>.
\<close>

section \<open>The calls of Winsock\<close>

text \<open>
  A \<open>SOCKET\<close> is an unsigned 64-bit number, of which the class keeps an \<open>int\<close>. The lengths of
  \<open>send\<close> and \<open>recv\<close> are \<open>int\<close>s, too.
\<close>

datatype wsa_error = WSAEWOULDBLOCK | WSAOther int

type_synonym SOCKET = usize

record 'k winsock =
  WSAStartup :: "'k \<Rightarrow> 'k"
  WSACleanup :: "'k \<Rightarrow> 'k"
  WSAGetLastError :: "'k \<Rightarrow> wsa_error"
  ws_socket :: "socket_kind \<Rightarrow> 'k \<Rightarrow> SOCKET \<times> 'k"
  ws_closesocket :: "SOCKET \<Rightarrow> 'k \<Rightarrow> 'k"
  ws_bind :: "SOCKET \<Rightarrow> ipv4_address \<Rightarrow> 'k \<Rightarrow> int \<times> 'k"
  ws_shutdown :: "SOCKET \<Rightarrow> 'k \<Rightarrow> int \<times> 'k"
  ws_connect :: "SOCKET \<Rightarrow> ipv4_address \<Rightarrow> 'k \<Rightarrow> int \<times> 'k"
  ws_recv :: "SOCKET \<Rightarrow> int \<Rightarrow> 'k \<Rightarrow> int \<times> byte list \<times> 'k"
  ws_send :: "SOCKET \<Rightarrow> byte list \<Rightarrow> int \<Rightarrow> 'k \<Rightarrow> int \<times> 'k"
  ws_sendto :: "SOCKET \<Rightarrow> byte list \<Rightarrow> int \<Rightarrow> ipv4_address \<Rightarrow> 'k \<Rightarrow> int \<times> 'k"
  ws_recvfrom :: "SOCKET \<Rightarrow> int \<Rightarrow> 'k \<Rightarrow> int \<times> byte list \<times> ipv4_address \<times> 'k"
  ws_FIONBIO :: "SOCKET \<Rightarrow> u32 \<Rightarrow> 'k \<Rightarrow> 'k"
  ws_getpeername :: "SOCKET \<Rightarrow> 'k \<Rightarrow> int \<times> ipv4_address \<times> nat \<times> 'k"
  WSAPoll :: "SOCKET \<Rightarrow> poll_event \<Rightarrow> int \<Rightarrow> 'k \<Rightarrow> int \<times> poll_event list \<times> 'k"
  ws_listen :: "SOCKET \<Rightarrow> int \<Rightarrow> 'k \<Rightarrow> int \<times> 'k"
  ws_accept :: "SOCKET \<Rightarrow> 'k \<Rightarrow> SOCKET \<times> 'k"
  ws_setsockopt :: "SOCKET \<Rightarrow> socket_option \<Rightarrow> int \<Rightarrow> 'k \<Rightarrow> int \<times> 'k"

definition to_SOCKET :: "int \<Rightarrow> SOCKET" where "to_SOCKET fd = word_of_int fd"

definition of_SOCKET :: "SOCKET \<Rightarrow> int" where "of_SOCKET sock = to_int32 (uint sock)"

text \<open>A size passed as an \<open>int\<close>.\<close>

definition int_size :: "usize \<Rightarrow> int" where "int_size n = to_int32 (uint n)"

section \<open>The Windows branches\<close>

definition Windows_dtor :: "'k winsock \<Rightarrow> socket \<Rightarrow> 'k \<Rightarrow> 'k" where
  "Windows_dtor WS s k = (if m_socket s \<noteq> -1 then ws_closesocket WS (to_SOCKET (m_socket s)) k else k)"

definition Windows_Shutdown :: "'k winsock \<Rightarrow> socket \<Rightarrow> 'k \<Rightarrow> 'k" where
  "Windows_Shutdown WS s k = snd (ws_shutdown WS (to_SOCKET (m_socket s)) k)"

definition Windows_read :: "'k winsock \<Rightarrow> socket \<Rightarrow> usize \<Rightarrow> 'k \<Rightarrow> int \<times> byte list \<times> 'k" where
  "Windows_read WS s maxBytes k =
     (let (n, bytes, k') = ws_recv WS (to_SOCKET (m_socket s)) (int_size maxBytes) k
      in if n = -1 then let error = WSAGetLastError WS k'
           in (if error = WSAEWOULDBLOCK then 0 else n, bytes, k')
         else (n, bytes, k'))"

definition Windows_write :: "'k winsock \<Rightarrow> socket \<Rightarrow> byte list \<Rightarrow> 'k \<Rightarrow> int \<times> 'k" where
  "Windows_write WS s message k =
     (let (n, k') = ws_send WS (to_SOCKET (m_socket s)) message (int_size (of_nat (length message))) k
      in if n = -1 then let error = WSAGetLastError WS k'
           in (if error = WSAEWOULDBLOCK then 0 else n, k')
         else (n, k'))"

definition Windows_setBlocking :: "'k winsock \<Rightarrow> socket \<Rightarrow> bool \<Rightarrow> 'k \<Rightarrow> 'k" where
  "Windows_setBlocking WS s block k =
     (let mode = (if block then 0 else 1) in ws_FIONBIO WS (to_SOCKET (m_socket s)) mode k)"

definition Windows_WaitForSingleEvent ::
    "'k winsock \<Rightarrow> socket \<Rightarrow> poll_event \<Rightarrow> int \<Rightarrow> 'k \<Rightarrow> bool \<times> 'k" where
  "Windows_WaitForSingleEvent WS s pollEvent timeoutInMilliseconds k =
     (let (val, revents, k') = WSAPoll WS (to_SOCKET (m_socket s)) pollEvent timeoutInMilliseconds k
      in (val = 1 \<and> pollEvent \<in> set revents, k'))"

definition Windows_SendTo ::
    "'k winsock \<Rightarrow> socket \<Rightarrow> ipv4_address \<Rightarrow> byte list \<Rightarrow> 'k \<Rightarrow> int \<times> 'k" where
  "Windows_SendTo WS s addr message k =
     (if \<not> IsValid addr then (-1, k)
      else let (n, k') = ws_sendto WS (to_SOCKET (m_socket s)) message (int_size (of_nat (length message))) addr k
           in if n = -1 then let error = WSAGetLastError WS k'
                in (if error = WSAEWOULDBLOCK then 0 else n, k')
              else (n, k'))"

definition Windows_ReceiveFrom ::
    "'k winsock \<Rightarrow> socket \<Rightarrow> usize \<Rightarrow> ipv4_address option \<Rightarrow> 'k \<Rightarrow>
      int \<times> byte list \<times> ipv4_address option \<times> 'k" where
  "Windows_ReceiveFrom WS s sz addr k =
     (if \<exists>a. addr = Some a \<and> \<not> IsValid a then (-1, [], addr, k)
      else let (r, bytes, source, k') = ws_recvfrom WS (to_SOCKET (m_socket s)) (int_size sz) k;
               n = (if r = -1 then let error = WSAGetLastError WS k' in (if error = WSAEWOULDBLOCK then 0 else r) else r)
           in (n, bytes, if 0 \<le> r then map_option (\<lambda>_. source) addr else addr, k'))"

definition Windows_Accept :: "'k winsock \<Rightarrow> socket \<Rightarrow> 'k \<Rightarrow> socket option \<times> 'k" where
  "Windows_Accept WS s k =
     (let (_, k1) = ws_setsockopt WS (to_SOCKET (m_socket s)) SO_REUSEADDR 1 k;
          (sock, k2) = ws_accept WS (to_SOCKET (m_socket s)) k1;
          fd = of_SOCKET sock
      in (if fd \<noteq> -1 then Some (TcpSocket_of_fd fd) else None, k2))"

section \<open>Starting Winsock\<close>

text \<open>
  The state of a process: the static variable of \<open>initWinsock\<close>, how many calls of \<open>WSACleanup\<close>
  are registered for its exit, and what its sockets are connected to.
\<close>

record 'k process =
  wsaInitialized :: bool
  exit_handlers :: nat
  os :: 'k

definition initWinsock :: "'k winsock \<Rightarrow> 'k process \<Rightarrow> 'k process" where
  "initWinsock WS p =
     (if \<not> wsaInitialized p
      then p\<lparr>os := WSAStartup WS (os p), wsaInitialized := True, exit_handlers := exit_handlers p + 1\<rparr>
      else p)"

definition exits :: "'k winsock \<Rightarrow> 'k process \<Rightarrow> 'k" where
  "exits WS p = (WSACleanup WS ^^ exit_handlers p) (os p)"

definition Windows_ctor :: "'k winsock \<Rightarrow> socket_kind \<Rightarrow> 'k process \<Rightarrow> socket outcome \<times> 'k process" where
  "Windows_ctor WS kind p =
     (let p1 = initWinsock WS p;
          (sock, k') = ws_socket WS kind (os p1);
          fd = of_SOCKET sock
      in (if fd = -1 then Inl AssertionFailed else Inr (Socket_ctor\<lparr>m_socket := fd\<rparr>), p1\<lparr>os := k'\<rparr>))"

section \<open>Threads that make their first sockets\<close>

text \<open>
  \<open>initWinsock\<close> in several threads at once: the static variable is neither atomic nor locked, so
  the test, the start, the assignment and the registration are steps of their own. \<open>startups\<close>
  counts the calls of \<open>WSAStartup\<close>.
\<close>

datatype init_pc = I_Test | I_Startup | I_Set | I_Register | I_Return

record 'k init_system =
  process :: "'k process"
  startups :: nat
  init_pcs :: "init_pc list"

definition to_pc :: "nat \<Rightarrow> init_pc \<Rightarrow> 'k init_system \<Rightarrow> 'k init_system" where
  "to_pc i l s = s\<lparr>init_pcs := (init_pcs s)[i := l]\<rparr>"

definition init_step :: "'k winsock \<Rightarrow> nat \<Rightarrow> 'k init_system \<Rightarrow> 'k init_system" where
  "init_step WS i s =
     (case init_pcs s ! i of
        I_Test \<Rightarrow> to_pc i (if wsaInitialized (process s) then I_Return else I_Startup) s
      | I_Startup \<Rightarrow> to_pc i I_Set
          (s\<lparr>process := (process s)\<lparr>os := WSAStartup WS (os (process s))\<rparr>, startups := startups s + 1\<rparr>)
      | I_Set \<Rightarrow> to_pc i I_Register (s\<lparr>process := (process s)\<lparr>wsaInitialized := True\<rparr>\<rparr>)
      | I_Register \<Rightarrow> to_pc i I_Return (s\<lparr>process := (process s)\<lparr>exit_handlers := exit_handlers (process s) + 1\<rparr>\<rparr>)
      | I_Return \<Rightarrow> s)"

definition start_init :: "nat \<Rightarrow> 'k \<Rightarrow> 'k init_system" where
  "start_init n k =
     \<lparr>process = \<lparr>wsaInitialized = False, exit_handlers = 0, os = k\<rparr>, startups = 0, init_pcs = replicate n I_Test\<rparr>"

inductive initialising :: "'k winsock \<Rightarrow> nat \<Rightarrow> 'k \<Rightarrow> 'k init_system \<Rightarrow> bool"
  for WS :: "'k winsock" and n :: nat and k :: 'k where
  start: "initialising WS n k (start_init n k)"
| step: "initialising WS n k s \<Longrightarrow> i < n \<Longrightarrow> initialising WS n k (init_step WS i s)"

text \<open>A thread alone does what \<open>initWinsock\<close> does.\<close>

lemma init_alone:
  assumes "i < length (init_pcs s)" "init_pcs s ! i = I_Test"
  shows "\<exists>m. process ((init_step WS i ^^ m) s) = initWinsock WS (process s) \<and>
    init_pcs ((init_step WS i ^^ m) s) = (init_pcs s)[i := I_Return]"
proof (cases "wsaInitialized (process s)")
  case True
  with assms show ?thesis
    by (intro exI [of _ 1]) (simp add: init_step_def to_pc_def initWinsock_def)
next
  case False
  with assms show ?thesis
    by (intro exI [of _ 4]) (simp add: init_step_def to_pc_def initWinsock_def numeral_eq_Suc)
qed

text \<open>
  Every start is matched by one registered clean-up, or by one still to register; a thread that
  comes back from \<open>initWinsock\<close> finds Winsock started.
\<close>

fun registers :: "init_pc \<Rightarrow> nat" where
  "registers I_Set = 1"
| "registers I_Register = 1"
| "registers _ = 0"

definition to_register :: "init_pc list \<Rightarrow> nat" where
  "to_register ls = sum_list (map registers ls)"

definition init_inv :: "nat \<Rightarrow> 'k init_system \<Rightarrow> bool" where
  "init_inv n s \<longleftrightarrow> length (init_pcs s) = n \<and>
     startups s = exit_handlers (process s) + to_register (init_pcs s) \<and>
     (wsaInitialized (process s) \<or> set (init_pcs s) \<inter> {I_Set, I_Register, I_Return} \<noteq> {} \<longrightarrow> 0 < startups s)"

lemma to_register_update:
  assumes "i < length ls"
  shows "to_register (ls[i := l]) + registers (ls ! i) = to_register ls + registers l"
  using assms
proof (induction ls arbitrary: i)
  case (Cons a ls)
  show ?case
  proof (cases i)
    case (Suc j)
    then show ?thesis using Cons.IH [of j] Cons.prems by (simp add: to_register_def)
  qed (simp add: to_register_def)
qed simp

lemma init_step_inv:
  assumes "init_inv n s" "i < n"
  shows "init_inv n (init_step WS i s)"
proof -
  have i: "i < length (init_pcs s)" using assms by (simp add: init_inv_def)
  note upd = to_register_update [OF i] set_update_subset_insert [of "init_pcs s" i]
  show ?thesis
  proof (cases "init_pcs s ! i")
    case I_Test
    with assms upd(1) [of I_Return] upd(1) [of I_Startup] upd(2) [of I_Return] upd(2) [of I_Startup] show ?thesis
      by (auto simp: init_inv_def init_step_def to_pc_def)
  next
    case I_Startup
    with assms upd(1) [of I_Set] show ?thesis by (auto simp: init_inv_def init_step_def to_pc_def)
  next
    case I_Set
    then have "I_Set \<in> set (init_pcs s)" using i by (metis nth_mem)
    with I_Set assms upd(1) [of I_Register] show ?thesis by (auto simp: init_inv_def init_step_def to_pc_def)
  next
    case I_Register
    then have "I_Register \<in> set (init_pcs s)" using i by (metis nth_mem)
    with I_Register assms upd(1) [of I_Return] show ?thesis by (auto simp: init_inv_def init_step_def to_pc_def)
  qed (use assms in \<open>simp add: init_step_def\<close>)
qed

lemma initialising_inv: "initialising WS n k s \<Longrightarrow> init_inv n s"
proof (induction rule: initialising.induct)
  case start
  show ?case by (auto simp: init_inv_def start_init_def to_register_def)
qed (rule init_step_inv)

lemma to_register_none: "set ls \<subseteq> {I_Return} \<Longrightarrow> to_register ls = 0"
  by (induction ls) (auto simp: to_register_def)

text \<open>Two threads that test the variable before either sets it both start Winsock.\<close>

lemma started_twice: "\<exists>s. initialising WS 2 k s \<and> startups s = 2"
proof (intro exI conjI)
  let ?s = "(init_step WS 1 \<circ> init_step WS 0 \<circ> init_step WS 1 \<circ> init_step WS 0) (start_init 2 k)"
  show "initialising WS 2 k ?s"
    unfolding comp_apply by (intro initialising.step initialising.start) simp_all
  show "startups ?s = 2"
    by (simp add: start_init_def init_step_def to_pc_def numeral_eq_Suc)
qed

section \<open>Host names\<close>

text \<open>The results of \<open>getnameinfo\<close> on Windows.\<close>

datatype ws_gai = WSA_OK | WSANO_RECOVERY | ERROR_INSUFFICIENT_BUFFER | WSA_Other

partial_function (option) Windows_growBuffer ::
    "(nat \<Rightarrow> ws_gai \<times> string) \<Rightarrow> nat \<Rightarrow> (ws_gai \<times> string) option" where
  [code]: "Windows_growBuffer lookup sz =
     (let (err, buffer) = lookup sz
      in if err = WSANO_RECOVERY \<and> sz < 512 then Windows_growBuffer lookup (sz * 2)
         else Some (err, buffer))"

definition Windows_GetHostNameInfo ::
    "(ipv4_address \<Rightarrow> nat \<Rightarrow> bool \<Rightarrow> ws_gai \<times> string) \<Rightarrow> ipv4_address \<Rightarrow> bool \<Rightarrow> string \<Rightarrow> string option" where
  "Windows_GetHostNameInfo gni a numeric host =
     map_option (\<lambda>(err, buffer). if err = WSA_OK then buffer else host)
       (Windows_growBuffer (\<lambda>sz. gni a sz numeric) 16)"

lemma Windows_growBuffer_returns: "0 < sz \<Longrightarrow> Windows_growBuffer lookup sz \<noteq> None"
proof (induction "512 - sz" arbitrary: sz rule: less_induct)
  case less
  show ?case
  proof (cases "lookup sz")
    case (Pair err buffer)
    with less show ?thesis by (subst Windows_growBuffer.simps) auto
  qed
qed

text \<open>
  The documented result for a buffer that is too small is not the one that the loop waits for, so
  a name of 16 characters or more is not found.
\<close>

lemma Windows_name_lookup:
  assumes "\<And>sz. gni a sz numeric =
      (if length name < sz then (WSA_OK, name) else (ERROR_INSUFFICIENT_BUFFER, []))"
  shows "Windows_GetHostNameInfo gni a numeric host = Some (if length name < 16 then name else host)"
  by (simp add: Windows_GetHostNameInfo_def assms Windows_growBuffer.simps)

section \<open>The same functions in both builds\<close>

text \<open>
  Winsock as calls of the POSIX kind. The code that both builds share (\<open>Bind\<close>, \<open>Connect\<close>,
  \<open>GetPeerAddress\<close>, \<open>Listen\<close>, the Nagle options) calls these; the branches agree with the other
  build over them.
\<close>

definition winsock_calls :: "'k winsock \<Rightarrow> 'k kernel" where
  "winsock_calls WS =
     \<lparr>sys_errno = \<lambda>k. (case WSAGetLastError WS k of WSAEWOULDBLOCK \<Rightarrow> EWOULDBLOCK | WSAOther e \<Rightarrow> EOther e),
      sys_socket = \<lambda>kind k. (let (sock, k') = ws_socket WS kind k in (of_SOCKET sock, k')),
      sys_close = \<lambda>fd. ws_closesocket WS (to_SOCKET fd), sys_bind = \<lambda>fd. ws_bind WS (to_SOCKET fd),
      sys_shutdown = \<lambda>fd. ws_shutdown WS (to_SOCKET fd), sys_connect = \<lambda>fd. ws_connect WS (to_SOCKET fd),
      sys_recv = \<lambda>fd n. ws_recv WS (to_SOCKET fd) (int_size n),
      sys_send = \<lambda>fd data. ws_send WS (to_SOCKET fd) data (int_size (of_nat (length data))),
      sys_sendto = \<lambda>fd data. ws_sendto WS (to_SOCKET fd) data (int_size (of_nat (length data))),
      sys_recvfrom = \<lambda>fd n. ws_recvfrom WS (to_SOCKET fd) (int_size n),
      sys_setfl = \<lambda>fd flag. ws_FIONBIO WS (to_SOCKET fd) (if flag = O_NONBLOCK then 1 else 0),
      sys_getpeername = \<lambda>fd. ws_getpeername WS (to_SOCKET fd),
      sys_poll = \<lambda>fd. WSAPoll WS (to_SOCKET fd), sys_listen = \<lambda>fd. ws_listen WS (to_SOCKET fd),
      sys_accept = \<lambda>fd k. (let (sock, k') = ws_accept WS (to_SOCKET fd) k in (of_SOCKET sock, k')),
      sys_setsockopt = \<lambda>fd. ws_setsockopt WS (to_SOCKET fd)\<rparr>"

text \<open>The calls of Winsock return \<open>int\<close>s.\<close>

definition returns_ints :: "'k winsock \<Rightarrow> bool" where
  "returns_ints WS \<longleftrightarrow>
     (\<forall>sock n k. fst (ws_recv WS sock n k) \<in> {- (2 ^ 31) ..< 2 ^ 31}) \<and>
     (\<forall>sock data n k. fst (ws_send WS sock data n k) \<in> {- (2 ^ 31) ..< 2 ^ 31}) \<and>
     (\<forall>sock data n addr k. fst (ws_sendto WS sock data n addr k) \<in> {- (2 ^ 31) ..< 2 ^ 31}) \<and>
     (\<forall>sock n k. fst (ws_recvfrom WS sock n k) \<in> {- (2 ^ 31) ..< 2 ^ 31})"

locale winsock_library =
  fixes WS :: "'k winsock"
  assumes ints: "returns_ints WS"
begin

lemma recv_int: "ws_recv WS sock n k = (r, bytes, k') \<Longrightarrow> to_int32 r = r"
  using ints unfolding returns_ints_def by (metis atLeastLessThan_iff fst_conv to_int32_id)

lemma send_int: "ws_send WS sock data n k = (r, k') \<Longrightarrow> to_int32 r = r"
  using ints unfolding returns_ints_def by (metis atLeastLessThan_iff fst_conv to_int32_id)

lemma sendto_int: "ws_sendto WS sock data n addr k = (r, k') \<Longrightarrow> to_int32 r = r"
  using ints unfolding returns_ints_def by (metis atLeastLessThan_iff fst_conv to_int32_id)

lemma recvfrom_int: "ws_recvfrom WS sock n k = (r, bytes, source, k') \<Longrightarrow> to_int32 r = r"
  using ints unfolding returns_ints_def by (metis atLeastLessThan_iff fst_conv to_int32_id)

lemma would_block_errno [simp]: "would_block (sys_errno (winsock_calls WS) k) \<longleftrightarrow> WSAGetLastError WS k = WSAEWOULDBLOCK"
  by (auto simp: winsock_calls_def would_block_def split: wsa_error.split)

lemma read_same: "Windows_read WS s n k = Socket_read (winsock_calls WS) s n k"
  using recv_int [of "to_SOCKET (m_socket s)" "int_size n" k]
  by (auto simp: Windows_read_def Socket_read_def Let_def winsock_calls_def would_block_def split: prod.split wsa_error.split)

lemma write_same: "Windows_write WS s data k = Socket_write (winsock_calls WS) s data k"
  using send_int [of "to_SOCKET (m_socket s)" data "int_size (of_nat (length data))" k]
  by (auto simp: Windows_write_def Socket_write_def Let_def winsock_calls_def would_block_def split: prod.split wsa_error.split)

lemma SendTo_same: "Windows_SendTo WS s addr data k = UdpSocket_SendTo (winsock_calls WS) s addr data k"
  using sendto_int [of "to_SOCKET (m_socket s)" data "int_size (of_nat (length data))" addr k]
  by (auto simp: Windows_SendTo_def UdpSocket_SendTo_def Let_def winsock_calls_def would_block_def split: prod.split wsa_error.split)

lemma ReceiveFrom_same: "Windows_ReceiveFrom WS s n addr k = UdpSocket_ReceiveFrom (winsock_calls WS) s n addr k"
  using recvfrom_int [of "to_SOCKET (m_socket s)" "int_size n" k]
  by (auto simp: Windows_ReceiveFrom_def UdpSocket_ReceiveFrom_def Let_def winsock_calls_def would_block_def split: prod.split wsa_error.split)

end

lemma Windows_same:
  "Windows_dtor WS = Socket_dtor (winsock_calls WS)" "Windows_Shutdown WS = Socket_Shutdown (winsock_calls WS)"
  "Windows_setBlocking WS = Socket_setBlocking (winsock_calls WS)"
  "Windows_WaitForSingleEvent WS = WaitForSingleEvent (winsock_calls WS)"
  "Windows_Accept WS = TcpSocket_Accept (winsock_calls WS)"
  by (auto simp: fun_eq_iff Windows_dtor_def Socket_dtor_def Windows_Shutdown_def Socket_Shutdown_def
      Windows_setBlocking_def Socket_setBlocking_def Windows_WaitForSingleEvent_def WaitForSingleEvent_def
      Windows_Accept_def TcpSocket_Accept_def winsock_calls_def Let_def split: prod.split)

lemma Windows_ctor_same:
  "Windows_ctor WS SOCK_STREAM p =
    (let p1 = initWinsock WS p; (r, k') = TcpSocket_ctor (winsock_calls WS) (os p1) in (r, p1\<lparr>os := k'\<rparr>))"
  "Windows_ctor WS SOCK_DGRAM p =
    (let p1 = initWinsock WS p; (r, k') = UdpSocket_ctor (winsock_calls WS) (os p1) in (r, p1\<lparr>os := k'\<rparr>))"
  by (simp_all add: Windows_ctor_def TcpSocket_ctor_def UdpSocket_ctor_def winsock_calls_def Let_def split: prod.split)

section \<open>A socket as a writer\<close>

definition Windows_writer :: "'k winsock \<Rightarrow> socket \<Rightarrow> 'k abstract_writer" where
  "Windows_writer WS s = \<lparr>wr_setBlocking = Windows_setBlocking WS s, wr_write = Windows_write WS s\<rparr>"

definition Windows_reader :: "'k winsock \<Rightarrow> socket \<Rightarrow> 'k abstract_reader" where
  "Windows_reader WS s =
     \<lparr>rd_setBlocking = Windows_setBlocking WS s, rd_read = Windows_read WS s,
      rd_readyForReading = Windows_WaitForSingleEvent WS s POLLIN\<rparr>"

text \<open>
  The documented behaviour of \<open>send\<close> on a stream socket: it moves a prefix of the data or fails and
  moves nothing; it fails for a negative length.
\<close>

definition winsock_sends :: "'k winsock \<Rightarrow> SOCKET \<Rightarrow> ('k \<Rightarrow> byte list) \<Rightarrow> bool" where
  "winsock_sends WS sock sent \<longleftrightarrow> (\<forall>mode k. sent (ws_FIONBIO WS sock mode k) = sent k) \<and>
     (\<forall>data n k r k'. ws_send WS sock data n k = (r, k') \<longrightarrow>
        r = -1 \<and> sent k' = sent k \<and> (n < 0 \<longrightarrow> WSAGetLastError WS k' \<noteq> WSAEWOULDBLOCK) \<or>
        0 \<le> r \<and> r \<le> n \<and> sent k' = sent k @ take (nat r) data)"

lemma int_size_nat:
  assumes "i < 2 ^ 31"
  shows "int_size (of_nat i) = int i"
proof -
  have "uint (of_nat i :: usize) = int i" using assms by (simp add: uint_nat unat_of_nat)
  then show ?thesis using assms by (simp add: int_size_def)
qed

lemma int_size_negative:
  assumes "2 ^ 31 \<le> i" "i < 2 ^ 32"
  shows "int_size (of_nat i) < 0"
proof -
  have "uint (of_nat i :: usize) = int i" using assms by (simp add: uint_nat unat_of_nat)
  then show ?thesis using assms by (simp add: int_size_def to_int32_wrap)
qed

lemma int_size_le:
  assumes "i < 2 ^ 32"
  shows "int_size (of_nat i) \<le> int i"
proof (cases "i < 2 ^ 31")
  case False
  then show ?thesis using int_size_negative [of i] assms by simp
qed (simp add: int_size_nat)

locale winsock_stream =
  fixes WS :: "'k winsock" and sock :: SOCKET and sent :: "'k \<Rightarrow> byte list"
  assumes sends: "winsock_sends WS sock sent"
begin

lemma send_cases:
  assumes "ws_send WS sock data n k = (r, k')"
  obtains (failed) "r = -1" "sent k' = sent k" "n < 0 \<longrightarrow> WSAGetLastError WS k' \<noteq> WSAEWOULDBLOCK"
    | (moved) "0 \<le> r" "r \<le> n" "sent k' = sent k @ take (nat r) data"
  using sends assms unfolding winsock_sends_def by blast

lemma write_prefix:
  assumes "Windows_write WS s data k = (n, k')" "to_SOCKET (m_socket s) = sock" "length data < 2 ^ 32"
  shows "n \<le> int (length data) \<and> sent k' = sent k @ take (nat n) data"
proof -
  obtain r where r: "ws_send WS sock data (int_size (of_nat (length data))) k = (r, k')"
    "n = (if r = -1 \<and> WSAGetLastError WS k' = WSAEWOULDBLOCK then 0 else r)"
    using assms(1,2) by (auto simp: Windows_write_def Let_def split: prod.splits if_splits)
  from r(1) show ?thesis
  proof (cases rule: send_cases)
    case moved
    with r(2) int_size_le [OF assms(3)] show ?thesis by simp
  qed (use r(2) in simp)
qed

text \<open>Data of \<open>2\<^sup>3\<^sup>1\<close> bytes and more cannot be written: the length that is passed is negative.\<close>

lemma big_write_fails:
  assumes "Windows_write WS s data k = (n, k')" "to_SOCKET (m_socket s) = sock"
    "2 ^ 31 \<le> length data" "length data < 2 ^ 32"
  shows "n = -1 \<and> sent k' = sent k"
proof -
  obtain r where r: "ws_send WS sock data (int_size (of_nat (length data))) k = (r, k')"
    "n = (if r = -1 \<and> WSAGetLastError WS k' = WSAEWOULDBLOCK then 0 else r)"
    using assms(1,2) by (auto simp: Windows_write_def Let_def split: prod.splits if_splits)
  from r(1) show ?thesis
    using int_size_negative [OF assms(3,4)] r(2) by (cases rule: send_cases) auto
qed

end

section \<open>Winsock over the kernel in memory\<close>

definition memory_winsock :: "memory_kernel winsock" where
  "memory_winsock =
     \<lparr>WSAStartup = \<lambda>k. k, WSACleanup = \<lambda>k. k,
      WSAGetLastError = \<lambda>k. (case last_errno k of EOther e \<Rightarrow> WSAOther e | _ \<Rightarrow> WSAEWOULDBLOCK),
      ws_socket = \<lambda>_ k. (3, k), ws_closesocket = \<lambda>_ k. k, ws_bind = \<lambda>_ _ k. (0, k), ws_shutdown = \<lambda>_ k. (0, k),
      ws_connect = \<lambda>_ _ k. (0, k),
      ws_recv = \<lambda>_ n k. if n < 0 then (-1, [], k\<lparr>last_errno := EOther 10014\<rparr>) else memory_recv (word_of_int n) k,
      ws_send = \<lambda>_ data n k. if n < 0 then (-1, k\<lparr>last_errno := EOther 10014\<rparr>) else memory_send (take (nat n) data) k,
      ws_sendto = \<lambda>_ data n _ k. if n < 0 then (-1, k\<lparr>last_errno := EOther 10014\<rparr>) else memory_send (take (nat n) data) k,
      ws_recvfrom = \<lambda>_ n k. (let got = memory_recv (word_of_int n) k in
        (fst got, fst (snd got), \<lparr>ss_family = AF_INET, sin_port = 0, sin_addr = 0\<rparr>, snd (snd got))),
      ws_FIONBIO = \<lambda>_ _ k. k,
      ws_getpeername = \<lambda>_ k. (0, \<lparr>ss_family = AF_INET, sin_port = 0, sin_addr = 0\<rparr>, 16, k),
      WSAPoll = \<lambda>_ e _. memory_poll e, ws_listen = \<lambda>_ _ k. (0, k), ws_accept = \<lambda>_ k. (4, k),
      ws_setsockopt = \<lambda>_ _ _ k. (0, k)\<rparr>"

lemma move_limit_less: "move_limit k < 2 ^ 31"
  by (auto simp: move_limit_def min_def split: list.split)

lemma memory_send_cases:
  assumes "memory_send data k = (r, k')"
  shows "r = -1 \<and> outgoing k' = outgoing k \<or>
    0 \<le> r \<and> r \<le> int (length data) \<and> r < 2 ^ 31 \<and> outgoing k' = outgoing k @ take (nat r) data"
  using assms move_limit_less [of k] by (auto simp: memory_send_def Let_def split: if_splits)

lemma memory_recv_int: "fst (memory_recv n k) \<in> {- (2 ^ 31) ..< 2 ^ 31}"
proof -
  obtain r bytes k' where "memory_recv n k = (r, bytes, k')" by (metis prod_cases3)
  from memory_recv_cases [OF this] this show ?thesis by auto
qed

lemma memory_send_int: "fst (memory_send data k) \<in> {- (2 ^ 31) ..< 2 ^ 31}"
proof -
  obtain r k' where "memory_send data k = (r, k')" by fastforce
  from memory_send_cases [OF this] this show ?thesis by auto
qed

interpretation memory_winsock: winsock_library memory_winsock
proof
  show "returns_ints memory_winsock"
    unfolding returns_ints_def memory_winsock_def winsock.select_convs Let_def fst_conv
    using memory_recv_int memory_send_int by auto
qed

interpretation memory_winsock_stream: winsock_stream memory_winsock sock outgoing for sock
proof
  show "winsock_sends memory_winsock sock outgoing"
    unfolding winsock_sends_def
  proof (intro conjI allI impI)
    show "outgoing (ws_FIONBIO memory_winsock sock mode k) = outgoing k" for mode k
      by (simp add: memory_winsock_def)
  next
    fix data n k r k'
    assume s: "ws_send memory_winsock sock data n k = (r, k')"
    show "r = -1 \<and> outgoing k' = outgoing k \<and> (n < 0 \<longrightarrow> WSAGetLastError memory_winsock k' \<noteq> WSAEWOULDBLOCK) \<or>
        0 \<le> r \<and> r \<le> n \<and> outgoing k' = outgoing k @ take (nat r) data"
    proof (cases "n < 0")
      case True
      with s show ?thesis by (auto simp: memory_winsock_def)
    next
      case False
      with s have "memory_send (take (nat n) data) k = (r, k')" by (simp add: memory_winsock_def)
      from memory_send_cases [OF this] False show ?thesis by (auto simp: min_def split: if_splits)
    qed
  qed
qed

end
