(* ===== verification/VectorStream.thy ===== *)
theory VectorStream
  imports ComPacket
begin

text \<open>
  The stream buffers over vectors (VectorStream.h). Both derive from \<open>std::streambuf\<close>; what
  they override and what they set up is translated, and the public members of
  \<open>std::streambuf\<close> that streams call (\<open>sputc\<close>, \<open>sputn\<close>, \<open>sgetc\<close>, \<open>sbumpc\<close>, \<open>sgetn\<close>) are those of
  the C++ standard on a buffer without a put area, or with a fixed get area.
\<close>

section \<open>Output\<close>

record vector_output =
  m_v :: "byte list"

definition VectorOutputStream_ctor :: vector_output where
  "VectorOutputStream_ctor = \<lparr>m_v = []\<rparr>"

text \<open>The parameter is the \<open>size\<close> of the vector that is made, not its capacity.\<close>

definition VectorOutputStream_reserve :: "usize \<Rightarrow> vector_output outcome" where
  "VectorOutputStream_reserve n =
     (if vector_max_size < unat n then Inl LengthError else Inr \<lparr>m_v = replicate (unat n) 0\<rparr>)"

definition VectorOutputStream_move :: "vector_output \<Rightarrow> vector_output \<times> vector_output" where
  "VectorOutputStream_move toMove = (\<lparr>m_v = m_v toMove\<rparr>, \<lparr>m_v = []\<rparr>)"

definition get_vector :: "vector_output \<Rightarrow> byte list" where
  "get_vector s = m_v s"

definition clear_vector :: "vector_output \<Rightarrow> vector_output" where
  "clear_vector s = s\<lparr>m_v := []\<rparr>"

text \<open>Characters as \<open>int_type\<close>: the bytes as 0 to 255, and \<open>eof\<close>.\<close>

definition traits_eof :: int where "traits_eof = -1"

definition to_int_type :: "byte \<Rightarrow> int" where "to_int_type c = uint c"

definition overflow :: "int \<Rightarrow> vector_output \<Rightarrow> int \<times> vector_output" where
  "overflow ch s =
     (if ch = traits_eof then (traits_eof, s) else (ch, s\<lparr>m_v := m_v s @ [word_of_int ch]\<rparr>))"

text \<open>\<open>s\<close> is the memory that may be read at the pointer.\<close>

definition xsputn :: "byte list \<Rightarrow> int \<Rightarrow> vector_output \<Rightarrow> (int \<times> vector_output) outcome" where
  "xsputn s n v =
     (if n < 0 \<or> int (length s) < n then Inl UndefinedBehaviour
      else if vector_max_size < length (m_v v) + nat n then Inl LengthError
      else Inr (n, v\<lparr>m_v := m_v v @ take (nat n) s\<rparr>))"

text \<open>There is no put area, so every character goes through \<open>overflow\<close>.\<close>

definition sputc :: "byte \<Rightarrow> vector_output \<Rightarrow> int \<times> vector_output" where
  "sputc c = overflow (to_int_type c)"

section \<open>Input\<close>

text \<open>The vector that is read, and how far the get pointer is from its begin.\<close>

record vector_input =
  in_vector :: "byte list"
  in_pos :: nat

definition VectorInputStream_ctor :: "byte list \<Rightarrow> vector_input" where
  "VectorInputStream_ctor v = \<lparr>in_vector = v, in_pos = 0\<rparr>"

definition input_overflow :: "int \<Rightarrow> vector_input \<Rightarrow> int \<times> vector_input" where
  "input_overflow ch s = (traits_eof, s)"

text \<open>\<open>underflow\<close> is not overridden: at the end of the get area there is nothing more.\<close>

definition sgetc :: "vector_input \<Rightarrow> int" where
  "sgetc s = (if in_pos s < length (in_vector s) then to_int_type (in_vector s ! in_pos s) else traits_eof)"

definition sbumpc :: "vector_input \<Rightarrow> int \<times> vector_input" where
  "sbumpc s =
     (if in_pos s < length (in_vector s)
      then (to_int_type (in_vector s ! in_pos s), s\<lparr>in_pos := in_pos s + 1\<rparr>)
      else (traits_eof, s))"

definition sgetn :: "nat \<Rightarrow> vector_input \<Rightarrow> byte list \<times> vector_input" where
  "sgetn n s =
     (let k = min n (length (in_vector s) - in_pos s)
      in (take k (drop (in_pos s) (in_vector s)), s\<lparr>in_pos := in_pos s + k\<rparr>))"

section \<open>Streams as sequences of bytes\<close>

text \<open>What is still to be read.\<close>

definition unread :: "vector_input \<Rightarrow> byte list" where
  "unread s = drop (in_pos s) (in_vector s)"

lemma to_int_type_not_eof [simp]: "to_int_type c \<noteq> traits_eof"
  unfolding to_int_type_def traits_eof_def using uint_ge_0 [of c] by linarith

lemma sputc_append: "sputc c s = (to_int_type c, s\<lparr>m_v := m_v s @ [c]\<rparr>)"
  by (simp add: sputc_def overflow_def) (simp add: to_int_type_def)

lemma xsputn_append:
  "length (m_v v) + length s \<le> vector_max_size \<Longrightarrow>
    xsputn s (int (length s)) v = Inr (int (length s), v\<lparr>m_v := m_v v @ s\<rparr>)"
  by (simp add: xsputn_def)

lemma unread_ctor [simp]: "unread (VectorInputStream_ctor v) = v"
  by (simp add: unread_def VectorInputStream_ctor_def)

lemma sgetn_unread: "sgetn n s = (bs, s') \<Longrightarrow> bs = take n (unread s) \<and> unread s' = drop n (unread s)"
  by (auto simp: sgetn_def unread_def Let_def min_def add.commute)

lemma sbumpc_unread:
  "sbumpc s = (c, s') \<Longrightarrow>
    (case unread s of [] \<Rightarrow> c = traits_eof \<and> s' = s | b # bs \<Rightarrow> c = to_int_type b \<and> unread s' = bs)"
  by (auto simp: sbumpc_def unread_def Cons_nth_drop_Suc [symmetric] split: if_splits)

text \<open>Sequences of writes (of one character or of a block) and of block reads.\<close>

datatype write_call = Putc byte | Putn "byte list"

fun written :: "write_call list \<Rightarrow> byte list" where
  "written [] = []"
| "written (Putc c # ws) = c # written ws"
| "written (Putn s # ws) = s @ written ws"

fun write_calls :: "write_call list \<Rightarrow> vector_output \<Rightarrow> vector_output outcome" where
  "write_calls [] v = Inr v"
| "write_calls (Putc c # ws) v = write_calls ws (snd (sputc c v))"
| "write_calls (Putn s # ws) v =
     bind_outcome (xsputn s (int (length s)) v) (\<lambda>(_, v'). write_calls ws v')"

fun read_calls :: "nat list \<Rightarrow> vector_input \<Rightarrow> byte list list \<times> vector_input" where
  "read_calls [] s = ([], s)"
| "read_calls (n # ns) s =
     (let (bs, s1) = sgetn n s; (bss, s2) = read_calls ns s1 in (bs # bss, s2))"

lemma write_calls_append:
  "length (m_v v) + length (written ws) \<le> vector_max_size \<Longrightarrow>
    write_calls ws v = Inr (v\<lparr>m_v := m_v v @ written ws\<rparr>)"
proof (induction ws arbitrary: v rule: written.induct)
  case (2 c ws)
  then show ?case using 2(1) [of "snd (sputc c v)"] by (simp add: sputc_append)
next
  case (3 s ws)
  then show ?case using 3(1) [of "v\<lparr>m_v := m_v v @ s\<rparr>"] by (simp add: xsputn_append)
qed simp

lemma read_calls_unread:
  "read_calls ns s = (bss, s') \<Longrightarrow> concat bss @ unread s' = unread s \<and>
    (sum_list ns \<le> length (unread s) \<longrightarrow> map length bss = ns)"
proof (induction ns arbitrary: s bss)
  case (Cons n ns)
  obtain bs s1 where 1: "sgetn n s = (bs, s1)" by fastforce
  obtain rest where 2: "read_calls ns s1 = (rest, s')" "bss = bs # rest"
    using Cons.prems 1 by (auto split: prod.splits)
  from Cons.IH [OF 2(1)] sgetn_unread [OF 1] show ?case
    by (auto simp: 2(2))
qed simp

lemma read_calls_take:
  "read_calls ns s = (bss, s') \<Longrightarrow> concat bss = take (sum_list ns) (unread s) \<and>
    unread s' = drop (sum_list ns) (unread s)"
proof (induction ns arbitrary: s bss)
  case (Cons n ns)
  obtain bs s1 where 1: "sgetn n s = (bs, s1)" by fastforce
  obtain rest where 2: "read_calls ns s1 = (rest, s')" "bss = bs # rest"
    using Cons.prems 1 by (auto split: prod.splits)
  from Cons.IH [OF 2(1)] sgetn_unread [OF 1] show ?case
    by (simp add: 2(2) take_add add.commute)
qed simp

lemma sgetc_end: "unread s = [] \<Longrightarrow> sgetc s = traits_eof"
  by (simp add: unread_def sgetc_def)

text \<open>
  A buffer made with a size to reserve already contains that many zero bytes, and what is
  written comes after them.
\<close>

lemma reserved_bytes_are_content:
  assumes "unat n + length (written ws) \<le> vector_max_size"
  shows "bind_outcome (VectorOutputStream_reserve n) (\<lambda>v. map_sum id get_vector (write_calls ws v)) =
    Inr (replicate (unat n) 0 @ written ws)"
  using assms write_calls_append [of "\<lparr>m_v = replicate (unat n) 0\<rparr>" ws]
  by (simp add: VectorOutputStream_reserve_def get_vector_def)

end
