(* ===== verification/Serialisation.thy ===== *)
theory Serialisation
  imports VectorStream SendLoop ReceiveLoop
begin

text \<open>
  Serialisation of objects into packets (Serialisation.h, PacketSerialisation.h). The archives
  of the cereal library are parameters: an archive that writes the value \<open>x\<close> makes the calls
  \<open>enc x\<close> on its output stream buffer, and one that reads makes the block reads \<open>ns\<close> and
  decodes what they give with \<open>dec\<close>.
\<close>

section \<open>To and from stream buffers\<close>

definition serialise_stream :: "('a \<Rightarrow> write_call list) \<Rightarrow> vector_output \<Rightarrow> 'a \<Rightarrow> vector_output outcome" where
  "serialise_stream enc stream x = write_calls (enc x) stream"

definition deserialise_stream ::
    "nat list \<Rightarrow> (byte list list \<Rightarrow> 'a option) \<Rightarrow> vector_input \<Rightarrow> 'a option \<times> vector_input" where
  "deserialise_stream ns dec vis = (let (bss, vis') = read_calls ns vis in (dec bss, vis'))"

section \<open>To a muxer and from a packet\<close>

text \<open>The buffer of the local stream is moved into the new packet.\<close>

definition serialise ::
    "('a \<Rightarrow> write_call list) \<Rightarrow> string \<Rightarrow> 'a \<Rightarrow> muxer \<Rightarrow> unit outcome \<times> muxer" where
  "serialise enc name x m =
     (case serialise_stream enc VectorOutputStream_ctor x of
        Inl e \<Rightarrow> (Inl e, m)
      | Inr stream \<Rightarrow> emplacePacket name (\<lambda>t. Inr (fst (ComPacket_move_buffer t (get_vector stream)))) m)"

definition deserialise :: "nat list \<Rightarrow> (byte list list \<Rightarrow> 'a option) \<Rightarrow> com_packet \<Rightarrow> 'a option" where
  "deserialise ns dec packet = fst (deserialise_stream ns dec (VectorInputStream_ctor (m_data packet)))"

section \<open>Time stamps\<close>

text \<open>The 64-bit \<open>timespec\<close> of the supported platforms, as the two integers that are archived.\<close>

record timespec =
  tv_sec :: "64 word"
  tv_nsec :: "64 word"

definition save :: "timespec \<Rightarrow> 64 word list" where
  "save t = (let sec = tv_sec t; nsec = tv_nsec t in [sec, nsec])"

fun load :: "64 word list \<Rightarrow> timespec \<Rightarrow> timespec option" where
  "load [sec, nsec] t = Some (t\<lparr>tv_sec := sec, tv_nsec := nsec\<rparr>)"
| "load _ t = None"

lemma load_save [simp]: "load (save t) t' = Some t"
  by (simp add: save_def)

section \<open>Round trips\<close>

text \<open>
  What cereal documents of its binary archives: reading the blocks that were written gives the
  value back, and the blocks that are read for a value are as long as those written.
\<close>

definition archive_contract ::
    "('a \<Rightarrow> write_call list) \<Rightarrow> ('a \<Rightarrow> nat list) \<Rightarrow> (byte list list \<Rightarrow> 'a option) \<Rightarrow> bool" where
  "archive_contract enc blocks dec \<longleftrightarrow>
     (\<forall>x. sum_list (blocks x) = length (written (enc x)) \<and>
       (\<forall>bss. concat bss = written (enc x) \<longrightarrow> map length bss = blocks x \<longrightarrow> dec bss = Some x))"

lemma serialise_packet:
  assumes "length (written (enc x)) \<le> vector_max_size"
  shows "serialise enc name x m = emplacePacket name (\<lambda>t. Inr \<lparr>m_type = t, m_data = written (enc x)\<rparr>) m"
  using assms write_calls_append [of VectorOutputStream_ctor "enc x"]
  by (simp add: serialise_def serialise_stream_def VectorOutputStream_ctor_def get_vector_def
      ComPacket_move_buffer_def)

lemma deserialise_packet:
  assumes "archive_contract enc blocks dec" "m_data p = written (enc x)"
  shows "deserialise (blocks x) dec p = Some x"
proof -
  obtain bss s' where run: "read_calls (blocks x) (VectorInputStream_ctor (m_data p)) = (bss, s')"
    by fastforce
  have sum: "sum_list (blocks x) = length (written (enc x))"
    using assms(1) by (simp add: archive_contract_def)
  have "concat bss @ unread s' = written (enc x)" "map length bss = blocks x"
    using read_calls_unread [OF run] assms(2) sum by simp_all
  moreover from this have "length (concat bss) = length (written (enc x))"
    by (simp add: length_concat sum)
  ultimately have "concat bss = written (enc x)" by (metis append_eq_append_conv append_Nil2)
  then show ?thesis
    using assms(1) \<open>map length bss = blocks x\<close> run
    by (simp add: deserialise_def deserialise_stream_def archive_contract_def)
qed

end
