(* ===== verification/SimpleQueue.thy ===== *)
theory SimpleQueue
  imports Prelude
begin

text \<open>
  The message queue that applications use to take packets out of a callback (SimpleQueue.h).
  The operations on the items are functions; the mutex and the condition variable are a step
  relation between the threads that use one queue.
\<close>

section \<open>The items\<close>

record 'p simple_queue =
  m_items :: "'p list"

definition SimpleQueue_ctor :: "'p simple_queue" where
  "SimpleQueue_ctor = \<lparr>m_items = []\<rparr>"

definition queue_emplace :: "'p \<Rightarrow> 'p simple_queue \<Rightarrow> 'p simple_queue" where
  "queue_emplace item q = q\<lparr>m_items := m_items q @ [item]\<rparr>"

text \<open>The size of a queue is that of the class \<open>size\<close>.\<close>

instantiation simple_queue_ext :: (type, type) size
begin

definition size_simple_queue_ext :: "('p, 'z) simple_queue_ext \<Rightarrow> nat" where
  "size_simple_queue_ext q = length (m_items q)"

instance ..

end

definition queue_size :: "'p simple_queue \<Rightarrow> nat" where
  "queue_size q = size q"

definition queue_empty :: "'p simple_queue \<Rightarrow> bool" where
  "queue_empty q \<longleftrightarrow> m_items q = []"

text \<open>\<open>std::queue\<close> leaves \<open>front\<close> and \<open>pop\<close> of an empty queue undefined.\<close>

definition queue_front :: "'p simple_queue \<Rightarrow> 'p outcome" where
  "queue_front q = (case m_items q of [] \<Rightarrow> Inl UndefinedBehaviour | x # _ \<Rightarrow> Inr x)"

definition queue_pop :: "'p simple_queue \<Rightarrow> 'p simple_queue outcome" where
  "queue_pop q = (case m_items q of [] \<Rightarrow> Inl UndefinedBehaviour | _ # xs \<Rightarrow> Inr (q\<lparr>m_items := xs\<rparr>))"

section \<open>First in, first out\<close>

text \<open>
  The contract of a queue, by the list of its contents, and what a sequence of operations of
  its users does.
\<close>

datatype 'p queue_call = Put 'p | Take

locale fifo =
  fixes contents :: "'q \<Rightarrow> 'p list"
    and empty :: 'q
    and put :: "'p \<Rightarrow> 'q \<Rightarrow> 'q"
    and first :: "'q \<Rightarrow> 'p outcome"
    and remove :: "'q \<Rightarrow> 'q outcome"
  assumes contents_empty: "contents empty = []"
    and contents_put: "contents (put x q) = contents q @ [x]"
    and first_Cons: "contents q = x # xs \<Longrightarrow> first q = Inr x"
    and remove_Cons: "contents q = x # xs \<Longrightarrow> \<exists>q'. remove q = Inr q' \<and> contents q' = xs"
begin

text \<open>The items taken by a sequence of calls, and the queue after it.\<close>

fun run_calls :: "'p queue_call list \<Rightarrow> 'q \<Rightarrow> ('p list \<times> 'q) outcome" where
  "run_calls [] q = Inr ([], q)"
| "run_calls (Put x # cs) q = run_calls cs (put x q)"
| "run_calls (Take # cs) q =
     bind_outcome (first q) (\<lambda>x. bind_outcome (remove q) (\<lambda>q'.
       bind_outcome (run_calls cs q') (\<lambda>(xs, q''). Inr (x # xs, q''))))"

text \<open>No call takes more than has been put before it.\<close>

fun balanced :: "nat \<Rightarrow> 'p queue_call list \<Rightarrow> bool" where
  "balanced n [] \<longleftrightarrow> True"
| "balanced n (Put x # cs) \<longleftrightarrow> balanced (Suc n) cs"
| "balanced n (Take # cs) \<longleftrightarrow> 0 < n \<and> balanced (n - 1) cs"

fun puts :: "'p queue_call list \<Rightarrow> 'p list" where
  "puts [] = []"
| "puts (Put x # cs) = x # puts cs"
| "puts (Take # cs) = puts cs"

lemma run_calls_fifo:
  "balanced (length (contents q)) cs \<Longrightarrow>
    \<exists>xs q'. run_calls cs q = Inr (xs, q') \<and> xs @ contents q' = contents q @ puts cs"
proof (induction cs arbitrary: q rule: puts.induct)
  case (2 x cs)
  then show ?case using 2(1) [of "put x q"] by (simp add: contents_put)
next
  case (3 cs)
  then obtain x xs where x: "contents q = x # xs" by (cases "contents q") auto
  obtain q1 where q1: "remove q = Inr q1" "contents q1 = xs" using remove_Cons [OF x] by blast
  then obtain ys q' where "run_calls cs q1 = Inr (ys, q')" "ys @ contents q' = xs @ puts cs"
    using 3(1) [of q1] 3(2) x by auto
  then show ?case using x q1 first_Cons [OF x] by simp
qed simp

end

interpretation simple: fifo m_items SimpleQueue_ctor queue_emplace queue_front queue_pop
  by unfold_locales (simp_all add: SimpleQueue_ctor_def queue_emplace_def queue_front_def queue_pop_def)

section \<open>The threads of a queue\<close>

text \<open>
  A thread that holds a \<open>LockedQueue\<close> owns the mutex. A waiting thread is asleep until it is
  notified, until its timeout has passed or until it wakes up spuriously, and then has to get
  the mutex again; \<open>Timed\<close> is the wait with a timeout, which returns then in any case.
\<close>

datatype wait_kind = Timed | Forever

record 'p queue_system =
  qs_queue :: "'p simple_queue"
  qs_owner :: "nat option"
  qs_asleep :: "nat \<rightharpoonup> wait_kind"
  qs_awake :: "nat \<rightharpoonup> wait_kind"
  qs_returned :: "nat set"

definition queue_start :: "'p queue_system" where
  "queue_start = \<lparr>qs_queue = SimpleQueue_ctor, qs_owner = None, qs_asleep = Map.empty,
     qs_awake = Map.empty, qs_returned = {}\<rparr>"

text \<open>\<open>qs_returned\<close> are the owners that have come back from \<open>waitNotempty\<close> and not popped since.\<close>

definition idle :: "nat \<Rightarrow> 'p queue_system \<Rightarrow> bool" where
  "idle t s \<longleftrightarrow> qs_owner s \<noteq> Some t \<and> qs_asleep s t = None \<and> qs_awake s t = None"

definition notify_all :: "'p queue_system \<Rightarrow> 'p queue_system" where
  "notify_all s = s\<lparr>qs_awake := qs_awake s ++ qs_asleep s, qs_asleep := Map.empty\<rparr>"

inductive queue_step :: "'p queue_system \<Rightarrow> 'p queue_system \<Rightarrow> bool" where
  emplace: "idle t s \<Longrightarrow> qs_owner s = None \<Longrightarrow>
    queue_step s (notify_all (s\<lparr>qs_queue := queue_emplace x (qs_queue s)\<rparr>))"
| lock: "idle t s \<Longrightarrow> qs_owner s = None \<Longrightarrow> queue_step s (s\<lparr>qs_owner := Some t\<rparr>)"
| unlock: "qs_owner s = Some t \<Longrightarrow>
    queue_step s (s\<lparr>qs_owner := None, qs_returned := qs_returned s - {t}\<rparr>)"
| wait_returns: "qs_owner s = Some t \<Longrightarrow> \<not> queue_empty (qs_queue s) \<Longrightarrow>
    queue_step s (s\<lparr>qs_returned := insert t (qs_returned s)\<rparr>)"
| wait_sleeps: "qs_owner s = Some t \<Longrightarrow> queue_empty (qs_queue s) \<Longrightarrow>
    queue_step s (s\<lparr>qs_owner := None, qs_asleep := (qs_asleep s)(t \<mapsto> k)\<rparr>)"
| wakes: "qs_asleep s t = Some k \<Longrightarrow>
    queue_step s (s\<lparr>qs_asleep := (qs_asleep s)(t := None), qs_awake := (qs_awake s)(t \<mapsto> k)\<rparr>)"
| relocks: "qs_awake s t = Some k \<Longrightarrow> qs_owner s = None \<Longrightarrow> k = Timed \<or> \<not> queue_empty (qs_queue s) \<Longrightarrow>
    queue_step s (s\<lparr>qs_owner := Some t, qs_awake := (qs_awake s)(t := None),
      qs_returned := (if queue_empty (qs_queue s) then qs_returned s else insert t (qs_returned s))\<rparr>)"
| sleeps_again: "qs_awake s t = Some Forever \<Longrightarrow> qs_owner s = None \<Longrightarrow> queue_empty (qs_queue s) \<Longrightarrow>
    queue_step s (s\<lparr>qs_awake := (qs_awake s)(t := None), qs_asleep := (qs_asleep s)(t \<mapsto> Forever)\<rparr>)"
| pops: "qs_owner s = Some t \<Longrightarrow> queue_pop (qs_queue s) = Inr q \<Longrightarrow>
    queue_step s (s\<lparr>qs_queue := q, qs_returned := qs_returned s - {t}\<rparr>)"

inductive queue_reachable :: "'p queue_system \<Rightarrow> bool" where
  start: "queue_reachable queue_start"
| step: "queue_reachable s \<Longrightarrow> queue_step s s' \<Longrightarrow> queue_reachable s'"

text \<open>
  No wake-up is lost: a thread sleeps only while there is nothing to take. An owner that has
  come back from waiting finds the queue not empty.
\<close>

definition queue_inv :: "'p queue_system \<Rightarrow> bool" where
  "queue_inv s \<longleftrightarrow>
     (\<forall>t. qs_asleep s t \<noteq> None \<longrightarrow> queue_empty (qs_queue s)) \<and>
     (\<forall>t \<in> qs_returned s. qs_owner s = Some t \<and> \<not> queue_empty (qs_queue s)) \<and>
     (\<forall>t. qs_asleep s t \<noteq> None \<longrightarrow> qs_awake s t = None \<and> qs_owner s \<noteq> Some t) \<and>
     (\<forall>t. qs_awake s t \<noteq> None \<longrightarrow> qs_owner s \<noteq> Some t)"

lemma queue_empty_emplace [simp]: "\<not> queue_empty (queue_emplace x q)"
  by (simp add: queue_empty_def queue_emplace_def)

lemma queue_empty_pop: "queue_pop q = Inr q' \<Longrightarrow> \<not> queue_empty q"
  by (auto simp: queue_pop_def queue_empty_def split: list.splits)

lemma queue_step_inv:
  assumes "queue_step s s'" "queue_inv s"
  shows "queue_inv s'"
  using assms
proof (induction rule: queue_step.induct)
  case (emplace t s x)
  then show ?case by (auto simp: queue_inv_def notify_all_def map_add_def split: option.splits)
next
  case (pops s t q)
  then show ?case using queue_empty_pop by (fastforce simp: queue_inv_def)
qed (auto simp: queue_inv_def idle_def split: if_splits)

lemma queue_reachable_inv: "queue_reachable s \<Longrightarrow> queue_inv s"
proof (induction rule: queue_reachable.induct)
  case start
  show ?case by (simp add: queue_inv_def queue_start_def)
qed (rule queue_step_inv)

end
