(* ===== verification/SyncTraffic.thy ===== *)
theory SyncTraffic
  imports Sync Connection
begin

text \<open>
  The synchronisation of Sync.cpp over the channels of two connections, one in each direction,
  that also carry other packets. It refines the system of Sync, which only counts the ready
  messages under way.
\<close>

section \<open>The system\<close>

record sync_traffic =
  synced :: sync_system
  downstream :: channel
  upstream :: channel

text \<open>\<open>t\<close> is the type of the ready messages, which nothing else posts.\<close>

inductive traffic_step :: "u32 \<Rightarrow> sync_traffic \<Rightarrow> sync_traffic \<Rightarrow> bool" for t :: u32 where
  server_goes_on: "srv_pc (synced s) \<noteq> S_Check \<or> clientReady (synced s) \<Longrightarrow>
    traffic_step t s (s\<lparr>synced := syncWithClient_step (synced s)\<rparr>)"
| server_posts: "srv_pc (synced s) = S_Check \<Longrightarrow> \<not> clientReady (synced s) \<Longrightarrow> m_type p = t \<Longrightarrow>
    channel_run [Posted p] (downstream s) = Some c \<Longrightarrow>
    traffic_step t s (s\<lparr>synced := syncWithClient_step (synced s), downstream := c\<rparr>)"
| client_goes_on: "cli_pc (synced s) \<noteq> C_Acknowledge \<Longrightarrow>
    traffic_step t s (s\<lparr>synced := syncWithServer_step (synced s)\<rparr>)"
| client_posts: "cli_pc (synced s) = C_Acknowledge \<Longrightarrow> m_type p = t \<Longrightarrow>
    channel_run [Posted p] (upstream s) = Some c \<Longrightarrow>
    traffic_step t s (s\<lparr>synced := syncWithServer_step (synced s), upstream := c\<rparr>)"
| other_down: "m_type p \<noteq> t \<Longrightarrow> channel_run [Posted p] (downstream s) = Some c \<Longrightarrow>
    traffic_step t s (s\<lparr>downstream := c\<rparr>)"
| other_up: "m_type p \<noteq> t \<Longrightarrow> channel_run [Posted p] (upstream s) = Some c \<Longrightarrow>
    traffic_step t s (s\<lparr>upstream := c\<rparr>)"
| at_client: "channel_run [Taken p] (downstream s) = Some c \<Longrightarrow>
    traffic_step t s (s\<lparr>synced := (if m_type p = t then client_receives (synced s) else synced s), downstream := c\<rparr>)"
| at_server: "channel_run [Taken p] (upstream s) = Some c \<Longrightarrow>
    traffic_step t s (s\<lparr>synced := (if m_type p = t then server_receives (synced s) else synced s), upstream := c\<rparr>)"

inductive traffic_reachable :: "u32 \<Rightarrow> channel \<Rightarrow> channel \<Rightarrow> sync_traffic \<Rightarrow> bool"
  for t :: u32 and down :: channel and up :: channel where
  start: "down t = [] \<Longrightarrow> up t = [] \<Longrightarrow>
    traffic_reachable t down up \<lparr>synced = sync_start, downstream = down, upstream = up\<rparr>"
| step: "traffic_reachable t down up s \<Longrightarrow> traffic_step t s s' \<Longrightarrow> traffic_reachable t down up s'"

lemma traffic_reachable_steps:
  "(traffic_step t)\<^sup>*\<^sup>* s s' \<Longrightarrow> traffic_reachable t down up s \<Longrightarrow> traffic_reachable t down up s'"
  by (induction rule: rtranclp_induct) (auto intro: traffic_reachable.step)

section \<open>The refinement\<close>

text \<open>The counters of the abstract system are the lengths of the queues of ready messages.\<close>

definition all_ready :: "u32 \<Rightarrow> com_packet list \<Rightarrow> bool" where
  "all_ready t ps \<longleftrightarrow> (\<forall>p \<in> set ps. m_type p = t)"

lemma all_ready_simps [simp]:
  "all_ready t []" "all_ready t (ps @ qs) \<longleftrightarrow> all_ready t ps \<and> all_ready t qs"
  "all_ready t (p # ps) \<longleftrightarrow> m_type p = t \<and> all_ready t ps"
  by (auto simp: all_ready_def)

definition counted :: "u32 \<Rightarrow> sync_traffic \<Rightarrow> bool" where
  "counted t s \<longleftrightarrow> to_client (synced s) = length (downstream s t) \<and> to_server (synced s) = length (upstream s t) \<and>
     all_ready t (downstream s t) \<and> all_ready t (upstream s t)"

lemma taken_run:
  "channel_run [Taken p] c = Some c' \<Longrightarrow> \<exists>qs. c (m_type p) = p # qs \<and> c' = c(m_type p := qs)"
  by (auto split: list.splits if_splits)

lemma server_counters:
  "to_client (syncWithClient_step s) = to_client s + (if srv_pc s = S_Check \<and> \<not> clientReady s then 1 else 0)"
  "to_server (syncWithClient_step s) = to_server s"
  by (auto split: server_pc.split)

lemma client_counters:
  "to_server (syncWithServer_step s) = to_server s + (if cli_pc s = C_Acknowledge then 1 else 0)"
  "to_client (syncWithServer_step s) = to_client s"
  by (auto split: client_pc.split)

lemma traffic_step_counted:
  assumes "traffic_step t s s'" "counted t s"
  shows "counted t s' \<and> (sync_step (synced s) (synced s') \<or> synced s' = synced s)"
  using assms
proof (induction rule: traffic_step.induct)
  case (server_goes_on s)
  then show ?case using sync_step.server [of "synced s"] by (auto simp: counted_def server_counters simp del: syncWithClient_step.simps)
next
  case (server_posts s p c)
  then show ?case using sync_step.server [of "synced s"]
    by (auto simp: counted_def server_counters simp del: syncWithClient_step.simps)
next
  case (client_goes_on s)
  then show ?case using sync_step.client [of "synced s"] by (auto simp: counted_def client_counters simp del: syncWithServer_step.simps)
next
  case (client_posts s p c)
  then show ?case using sync_step.client [of "synced s"]
    by (auto simp: counted_def client_counters simp del: syncWithServer_step.simps)
next
  case (other_down p s c)
  then show ?case by (auto simp: counted_def)
next
  case (other_up p s c)
  then show ?case by (auto simp: counted_def)
next
  case (at_client p s c)
  then obtain qs where "downstream s (m_type p) = p # qs" "c = (downstream s)(m_type p := qs)"
    using taken_run by blast
  then show ?case using at_client.prems sync_step.to_client [of "synced s"] by (auto simp: counted_def client_receives_def)
next
  case (at_server p s c)
  then obtain qs where "upstream s (m_type p) = p # qs" "c = (upstream s)(m_type p := qs)"
    using taken_run by blast
  then show ?case using at_server.prems sync_step.to_server [of "synced s"] by (auto simp: counted_def server_receives_def)
qed

lemma traffic_refines:
  assumes "traffic_reachable t down up s"
  shows "sync_reachable (synced s)" and "counted t s"
proof -
  have "sync_reachable (synced s) \<and> counted t s"
    using assms
  proof (induction rule: traffic_reachable.induct)
    case start
    then show ?case using sync_reachable.start by (simp add: counted_def sync_start_def)
  next
    case (step s s')
    then show ?case using traffic_step_counted [OF step.hyps(2)] sync_reachable.step by auto
  qed
  then show "sync_reachable (synced s)" "counted t s" by simp_all
qed

text \<open>Every step of the abstract system can be taken here, whatever other packets are under way.\<close>

lemma taking: "c t = p # qs \<Longrightarrow> m_type p = t \<Longrightarrow> channel_run [Taken p] c = Some (c(t := qs))"
  by auto

lemma posting: "m_type p = t \<Longrightarrow> channel_run [Posted p] c = Some (c(t := c t @ [p]))"
  by auto

lemma traffic_simulates:
  assumes "sync_step (synced s) x'" "counted t s"
  shows "\<exists>s'. traffic_step t s s' \<and> synced s' = x'"
proof -
  have "m_type \<lparr>m_type = t, m_data = []\<rparr> = t" by simp
  then obtain p :: com_packet where p: "m_type p = t" by blast
  from assms(1) show ?thesis
  proof (cases rule: sync_step.cases)
    case server
    show ?thesis
    proof (cases "srv_pc (synced s) = S_Check \<and> \<not> clientReady (synced s)")
      case True
      with server_posts [OF conjunct1 conjunct2 p posting [OF p]] server show ?thesis by fastforce
    next
      case False
      with server_goes_on [of s t] server show ?thesis by fastforce
    qed
  next
    case client
    show ?thesis
    proof (cases "cli_pc (synced s) = C_Acknowledge")
      case True
      with client_posts [OF _ p posting [OF p]] client show ?thesis by fastforce
    next
      case False
      with client_goes_on [of s t] client show ?thesis by fastforce
    qed
  next
    case to_server
    then obtain q qs where "upstream s t = q # qs" using assms(2) by (cases "upstream s t") (auto simp: counted_def)
    moreover from this have "m_type q = t" using assms(2) by (simp add: counted_def)
    ultimately show ?thesis using at_server [OF taking, where t = t and s = s] to_server by fastforce
  next
    case to_client
    then obtain q qs where "downstream s t = q # qs" using assms(2) by (cases "downstream s t") (auto simp: counted_def)
    moreover from this have "m_type q = t" using assms(2) by (simp add: counted_def)
    ultimately show ?thesis using at_client [OF taking, where t = t and s = s] to_client by fastforce
  qed
qed

lemma traffic_completes:
  assumes "traffic_reachable t down up s"
  shows "\<exists>s'. (traffic_step t)\<^sup>*\<^sup>* s s' \<and> srv_pc (synced s') = S_Return \<and> cli_pc (synced s') = C_Return"
proof -
  obtain x' where x': "sync_step\<^sup>*\<^sup>* (synced s) x'" "srv_pc x' = S_Return" "cli_pc x' = C_Return"
    using sync_completes [OF sync_reachable_inv [OF traffic_refines(1) [OF assms]]] by blast
  have "\<exists>s'. (traffic_step t)\<^sup>*\<^sup>* s s' \<and> synced s' = x' \<and> counted t s'"
    using x'(1)
  proof (induction rule: rtranclp_induct)
    case base
    show ?case using traffic_refines(2) [OF assms] by blast
  next
    case (step x1 x2)
    then obtain s1 where s1: "(traffic_step t)\<^sup>*\<^sup>* s s1" "synced s1 = x1" "counted t s1" by blast
    obtain s2 where s2: "traffic_step t s1 s2" "synced s2 = x2"
      using traffic_simulates [of s1 x2 t] step.hyps(2) s1(2,3) by blast
    then have "(traffic_step t)\<^sup>*\<^sup>* s s2" "counted t s2"
      using s1 traffic_step_counted [OF s2(1) s1(3)] by auto
    with s2(2) show ?case by blast
  qed
  with x'(2,3) show ?thesis by blast
qed

end
