(* ===== verification/Fairness.thy ===== *)
theory Fairness
  imports Prelude
begin

text \<open>
  Runs of a system of threads, weak fairness, and how to show that every fair run reaches a goal.
  A run is an infinite sequence of states; each is the next by a step, or the same when nothing
  happens.
\<close>

section \<open>Runs\<close>

definition run :: "('s \<Rightarrow> 's \<Rightarrow> bool) \<Rightarrow> (nat \<Rightarrow> 's) \<Rightarrow> bool" where
  "run step f \<longleftrightarrow> (\<forall>i. step (f i) (f (Suc i)) \<or> f (Suc i) = f i)"

text \<open>Weak fairness: again and again, an action cannot be taken or is taken.\<close>

definition weakly_fair :: "('s \<Rightarrow> 's \<Rightarrow> bool) \<Rightarrow> (nat \<Rightarrow> 's) \<Rightarrow> bool" where
  "weakly_fair act f \<longleftrightarrow> (\<forall>i. \<exists>j\<ge>i. (\<exists>s. act (f j) s) \<longrightarrow> act (f j) (f (Suc j)))"

lemma run_reaches:
  assumes "run step f" "i \<le> j"
  shows "step\<^sup>*\<^sup>* (f i) (f j)"
  using assms(2)
proof (induction rule: dec_induct)
  case (step j)
  have "step (f j) (f (Suc j)) \<or> f (Suc j) = f j" using assms(1) by (simp add: run_def)
  with step.IH show ?case by (auto intro: rtranclp.rtrancl_into_rtrancl)
qed simp

text \<open>
  From every state there is a fair run of any finite number of actions: they take turns, each
  when it can be taken.
\<close>

lemma fair_run_exists:
  fixes as :: "'a list" and act :: "'a \<Rightarrow> 's \<Rightarrow> 's \<Rightarrow> bool"
  assumes "set as = UNIV"
  shows "\<exists>f. f 0 = s \<and> run (\<lambda>s s'. \<exists>a. act a s s') f \<and> (\<forall>a. weakly_fair (act a) f)"
proof -
  define turn where "turn i = as ! (i mod length as)" for i
  define f where "f = rec_nat s (\<lambda>i x. if \<exists>y. act (turn i) x y then SOME y. act (turn i) x y else x)"
  have next_: "act (turn i) (f i) (f (Suc i)) \<or> (\<nexists>y. act (turn i) (f i) y) \<and> f (Suc i) = f i" for i
    using someI_ex [of "act (turn i) (f i)"] by (simp add: f_def)
  have "weakly_fair (act a) f" for a
    unfolding weakly_fair_def
  proof
    fix i
    obtain k where k: "k < length as" "as ! k = a" using assms by (metis UNIV_I in_set_conv_nth)
    have "turn (i * length as + k) = a" using k by (simp add: turn_def)
    then have "(\<exists>y. act a (f (i * length as + k)) y) \<longrightarrow>
        act a (f (i * length as + k)) (f (Suc (i * length as + k)))"
      using next_ [of "i * length as + k"] by auto
    moreover have "i \<le> i * length as + k" using k(1) by (cases "length as") auto
    ultimately show "\<exists>j\<ge>i. (\<exists>y. act a (f j) y) \<longrightarrow> act a (f j) (f (Suc j))" by blast
  qed
  moreover have "run (\<lambda>s s'. \<exists>a. act a s s') f" using next_ unfolding run_def by blast
  moreover have "f 0 = s" by (simp add: f_def)
  ultimately show ?thesis by blast
qed

lemma run_mono: "run step f \<Longrightarrow> (\<And>s s'. step s s' \<Longrightarrow> step' s s') \<Longrightarrow> run step' f"
  by (auto simp: run_def)

text \<open>What every step keeps holds in every state of a run from one in which it holds.\<close>

lemma run_invariant:
  assumes "run step f" "P (f i)" "\<And>s s'. step s s' \<Longrightarrow> P s \<Longrightarrow> P s'" "i \<le> j"
  shows "P (f j)"
  using assms(4)
proof (induction rule: dec_induct)
  case (step j)
  have "step (f j) (f (Suc j)) \<or> f (Suc j) = f j" using assms(1) by (simp add: run_def)
  with step.IH assms(3) [of "f j" "f (Suc j)"] show ?case by auto
qed (rule assms(2))

section \<open>Progress\<close>

text \<open>
  What brings a system to a goal: in every state on the way some action is helpful. It can be
  taken and leads nearer to the goal, in a well-founded order; every other step leads nearer, or
  keeps the distance and the action that is helpful.
\<close>

locale progress =
  fixes step :: "'s \<Rightarrow> 's \<Rightarrow> bool" and act :: "'a \<Rightarrow> 's \<Rightarrow> 's \<Rightarrow> bool"
    and inv :: "'s \<Rightarrow> bool" and goal :: "'s \<Rightarrow> bool"
    and less :: "('r \<times> 'r) set" and rank :: "'s \<Rightarrow> 'r" and helpful :: "'s \<Rightarrow> 'a"
  assumes less_wf: "wf less"
    and inv_step: "step s s' \<Longrightarrow> inv s \<Longrightarrow> inv s'"
    and enabled: "inv s \<Longrightarrow> \<not> goal s \<Longrightarrow> \<exists>s'. act (helpful s) s s'"
    and helps: "inv s \<Longrightarrow> \<not> goal s \<Longrightarrow> act (helpful s) s s' \<Longrightarrow> goal s' \<or> (rank s', rank s) \<in> less"
    and keeps: "inv s \<Longrightarrow> \<not> goal s \<Longrightarrow> step s s' \<Longrightarrow>
      goal s' \<or> (rank s', rank s) \<in> less \<or> rank s' = rank s \<and> helpful s' = helpful s"
begin

lemma run_inv: "run step f \<Longrightarrow> inv (f i) \<Longrightarrow> i \<le> j \<Longrightarrow> inv (f j)"
  using run_invariant [of step f inv i j] inv_step by blast

text \<open>Until the goal is nearer, the distance and the helpful action stay as they are.\<close>

lemma nearer_or_same:
  assumes "run step f" "inv (f i)" "i \<le> j" "\<forall>k\<ge>i. \<not> goal (f k)"
  shows "(\<exists>k\<ge>i. (rank (f k), rank (f i)) \<in> less) \<or> rank (f j) = rank (f i) \<and> helpful (f j) = helpful (f i)"
  using assms(3)
proof (induction rule: dec_induct)
  case (step j)
  have "step (f j) (f (Suc j)) \<or> f (Suc j) = f j" using assms(1) by (simp add: run_def)
  moreover have "inv (f j)" "\<not> goal (f j)" "\<not> goal (f (Suc j))"
    using run_inv [OF assms(1,2) step.hyps(1)] assms(4) step.hyps(1) by auto
  ultimately show ?case using step.IH keeps [of "f j" "f (Suc j)"] step.hyps(1) by (metis le_SucI)
qed simp

lemma eventually_goal:
  assumes "run step f" "\<And>a. weakly_fair (act a) f" "inv (f i)"
  shows "\<exists>j\<ge>i. goal (f j)"
  using assms(3)
proof (induction "rank (f i)" arbitrary: i rule: wf_induct_rule [OF less_wf])
  case (1 i)
  show ?case
  proof (rule ccontr)
    assume none: "\<not> (\<exists>j\<ge>i. goal (f j))"
    obtain j where j: "i \<le> j"
      "(\<exists>s. act (helpful (f i)) (f j) s) \<longrightarrow> act (helpful (f i)) (f j) (f (Suc j))"
      using assms(2) [of "helpful (f i)"] by (auto simp: weakly_fair_def)
    have inv: "inv (f j)" and away: "\<not> goal (f j)" "\<not> goal (f (Suc j))"
      using run_inv [OF assms(1) 1(2) j(1)] none j(1) by auto
    have "\<forall>k\<ge>i. \<not> goal (f k)" using none by blast
    from nearer_or_same [OF assms(1) 1(2) j(1) this] have "\<exists>k\<ge>i. (rank (f k), rank (f i)) \<in> less"
    proof (elim disjE)
      assume same: "rank (f j) = rank (f i) \<and> helpful (f j) = helpful (f i)"
      then have "act (helpful (f j)) (f j) (f (Suc j))" using enabled [OF inv away(1)] j(2) by simp
      with helps [OF inv away(1)] away(2) same j(1) show ?thesis by (metis le_SucI)
    qed blast
    then obtain k where k: "i \<le> k" "(rank (f k), rank (f i)) \<in> less" by blast
    from 1(1) [OF k(2) run_inv [OF assms(1) 1(2) k(1)]] none k(1) show False by (meson order_trans)
  qed
qed

end

text \<open>A system with one action.\<close>

definition only :: "('s \<Rightarrow> 's \<Rightarrow> bool) \<Rightarrow> unit \<Rightarrow> 's \<Rightarrow> 's \<Rightarrow> bool" where
  "only act a = act"

lemma fair_only_exists: "\<exists>f. f 0 = s \<and> run act f \<and> weakly_fair act f"
proof -
  have "set [()] = UNIV" by auto
  from fair_run_exists [OF this, of s "only act"] show ?thesis by (simp add: only_def)
qed

end
