(* ===== verification/SyncFair.thy ===== *)
theory SyncFair
  imports SyncTraffic Fairness
begin

text \<open>
  Synchronising under a fair scheduler: in every run in which the two functions go on and the
  ready messages under way arrive, both functions return. First for the system that counts
  the ready messages, then for the connections that carry other packets too.
\<close>

section \<open>The actions of the system\<close>

text \<open>The two functions, and the arrival of a ready message at either end.\<close>

datatype sync_action = Server | Client | To_server | To_client

fun sync_act :: "sync_action \<Rightarrow> sync_system \<Rightarrow> sync_system \<Rightarrow> bool" where
  "sync_act Server s s' \<longleftrightarrow> s' = syncWithClient_step s"
| "sync_act Client s s' \<longleftrightarrow> s' = syncWithServer_step s"
| "sync_act To_server s s' \<longleftrightarrow> 0 < to_server s \<and> s' = server_receives s"
| "sync_act To_client s s' \<longleftrightarrow> 0 < to_client s \<and> s' = client_receives s"

lemma sync_step_iff_act: "sync_step s s' \<longleftrightarrow> (\<exists>a. sync_act a s s')"
proof
  assume "sync_step s s'"
  then show "\<exists>a. sync_act a s s'"
    by (cases rule: sync_step.cases) (metis sync_act.simps)+
next
  assume "\<exists>a. sync_act a s s'"
  then obtain a where "sync_act a s s'" by blast
  then show "sync_step s s'" by (cases a) (auto intro: sync_step.intros simp del: syncWithClient_step.simps syncWithServer_step.simps)
qed

definition both_returned :: "sync_system \<Rightarrow> bool" where
  "both_returned s \<longleftrightarrow> srv_pc s = S_Return \<and> cli_pc s = C_Return"

section \<open>What helps\<close>

fun sync_helpful :: "sync_system \<Rightarrow> sync_action" where
  "sync_helpful s =
     (if srv_pc s = S_Subscribe then Server
      else case cli_pc s of
        C_Check \<Rightarrow> if serverReady s then Client else if to_client s = 0 then Server else To_client
      | C_Return \<Rightarrow> if clientReady s then Server else To_server
      | _ \<Rightarrow> Client)"

lemma sync_helps:
  assumes "sync_inv s" "\<not> both_returned s" "sync_act (sync_helpful s) s s'"
  shows "sync_rank s' < sync_rank s"
  using assms
  by (cases "srv_pc s"; cases "cli_pc s"; cases "serverReady s"; cases "clientReady s")
    (auto simp: sync_inv_def both_returned_def sync_rank_def server_receives_def client_receives_def
       split: if_splits)

lemma sync_keeps:
  assumes "sync_inv s" "\<not> both_returned s" "sync_act a s s'"
  shows "sync_rank s' < sync_rank s \<or> sync_rank s' = sync_rank s \<and> sync_helpful s' = sync_helpful s"
  using assms
  by (cases a; cases "srv_pc s"; cases "cli_pc s"; cases "serverReady s"; cases "clientReady s")
    (auto simp: sync_inv_def both_returned_def sync_rank_def server_receives_def client_receives_def
       split: if_splits)

lemma sync_enabled:
  assumes "sync_inv s" "\<not> both_returned s"
  shows "\<exists>s'. sync_act (sync_helpful s) s s'"
  using assms
  by (cases "srv_pc s"; cases "cli_pc s"; cases "serverReady s"; cases "clientReady s")
    (auto simp: sync_inv_def both_returned_def split: if_splits)

interpretation syncing: progress sync_step sync_act sync_inv both_returned less_than sync_rank sync_helpful
proof unfold_locales
  show "sync_inv s'" if "sync_step s s'" "sync_inv s" for s s' using that by (rule sync_step_inv)
  show "both_returned s' \<or> (sync_rank s', sync_rank s) \<in> less_than \<or>
      sync_rank s' = sync_rank s \<and> sync_helpful s' = sync_helpful s"
    if "sync_inv s" "\<not> both_returned s" "sync_step s s'" for s s'
    using sync_keeps [OF that(1,2)] that(3) unfolding sync_step_iff_act by blast
qed (use sync_helps sync_enabled in auto)

section \<open>With other traffic\<close>

lemma traffic_run_syncs:
  assumes "run (traffic_step t) f" "counted t (f 0)"
  shows "counted t (f i) \<and> run sync_step (\<lambda>i. synced (f i))"
proof -
  have counted: "counted t (f i)" for i
  proof (induction i)
    case (Suc i)
    have "traffic_step t (f i) (f (Suc i)) \<or> f (Suc i) = f i" using assms(1) by (simp add: run_def)
    with Suc traffic_step_counted show ?case by metis
  qed (rule assms(2))
  have "sync_step (synced (f i)) (synced (f (Suc i))) \<or> synced (f (Suc i)) = synced (f i)" for i
  proof -
    have "traffic_step t (f i) (f (Suc i)) \<or> f (Suc i) = f i" using assms(1) by (simp add: run_def)
    with traffic_step_counted [OF _ counted] show ?thesis by metis
  qed
  with counted show ?thesis by (simp add: run_def)
qed

lemma fair_traffic_completes:
  assumes "traffic_reachable t down up (f 0)" "run (traffic_step t) f"
    and "\<And>a. weakly_fair (sync_act a) (\<lambda>i. synced (f i))"
  shows "\<exists>j. both_returned (synced (f j))"
proof -
  have run: "run sync_step (\<lambda>i. synced (f i))"
    using traffic_run_syncs [OF assms(2) traffic_refines(2) [OF assms(1)]] by simp
  have inv: "sync_inv (synced (f 0))" using sync_reachable_inv [OF traffic_refines(1) [OF assms(1)]] .
  from syncing.eventually_goal [OF run assms(3), of 0] inv show ?thesis by auto
qed

text \<open>Both stay returned.\<close>

lemma returned_stays: "sync_step s s' \<Longrightarrow> both_returned s \<Longrightarrow> both_returned s'"
  by (cases rule: sync_step.cases) (auto simp: both_returned_def server_receives_def client_receives_def)

lemma fair_traffic_stays_complete:
  assumes "traffic_reachable t down up (f 0)" "run (traffic_step t) f"
    and "\<And>a. weakly_fair (sync_act a) (\<lambda>i. synced (f i))"
  shows "\<exists>j. \<forall>k\<ge>j. both_returned (synced (f k))"
proof -
  have run: "run sync_step (\<lambda>i. synced (f i))"
    using traffic_run_syncs [OF assms(2) traffic_refines(2) [OF assms(1)]] by simp
  obtain j where j: "both_returned (synced (f j))" using fair_traffic_completes [OF assms] by blast
  have "both_returned (synced (f k))" if "j \<le> k" for k
    using run_invariant [OF run, of both_returned j k] returned_stays j that by blast
  then show ?thesis by blast
qed

text \<open>Fair runs exist from every such state.\<close>

lemma fair_traffic_exists:
  assumes "counted t s"
  shows "\<exists>f. f 0 = s \<and> run (traffic_step t) f \<and> (\<forall>a. weakly_fair (sync_act a) (\<lambda>i. synced (f i)))"
proof -
  define act where "act a s s' \<longleftrightarrow> traffic_step t s s' \<and> sync_act a (synced s) (synced s')" for a s s'
  have "set [Server, Client, To_server, To_client] = UNIV" using sync_action.exhaust by auto
  from fair_run_exists [OF this, of s act]
  obtain f where f: "f 0 = s" "run (\<lambda>s s'. \<exists>a. act a s s') f" "\<And>a. weakly_fair (act a) f" by blast
  have run: "run (traffic_step t) f" using f(2) by (rule run_mono) (auto simp: act_def)
  have counted: "counted t (f i)" for i using traffic_run_syncs [OF run] assms f(1) by simp
  have "weakly_fair (sync_act a) (\<lambda>i. synced (f i))" for a
    unfolding weakly_fair_def
  proof
    fix i
    obtain j where j: "i \<le> j" "(\<exists>x. act a (f j) x) \<longrightarrow> act a (f j) (f (Suc j))"
      using f(3) [of a] by (auto simp: weakly_fair_def)
    have "\<exists>x. act a (f j) x" if "sync_act a (synced (f j)) x" for x
      using traffic_simulates [OF _ counted, of j x] that sync_step_iff_act by (auto simp: act_def)
    with j show "\<exists>j\<ge>i. (\<exists>x. sync_act a (synced (f j)) x) \<longrightarrow> sync_act a (synced (f j)) (synced (f (Suc j)))"
      by (auto simp: act_def)
  qed
  with f(1) run show ?thesis by blast
qed

end
