(* ===== verification/SendFair.thy ===== *)
theory SendFair
  imports SendSteps Fairness
begin

text \<open>
  The send thread under a fair scheduler: in every run in which it goes on whenever it can, it
  ends once the error flag is set, and over a reliable transport it transmits everything posted.
  Other threads and the destructor take their steps as before.
\<close>

section \<open>The steps of the send thread\<close>

inductive send_thread ::
    "host_order \<Rightarrow> 'w abstract_writer \<Rightarrow> 'w sender \<Rightarrow> 'w sender \<Rightarrow> bool"
  for h :: host_order and W :: "'w abstract_writer" where
  moves: "muxer_step W s s' \<Longrightarrow> in_pass s = None \<Longrightarrow> pc s' \<noteq> pc s \<Longrightarrow> send_thread h W s s'"
| begins: "in_pass s = None \<Longrightarrow> begins_pass (mux s) (pc s) m1 ctl \<Longrightarrow> iteration_order m1 ts \<Longrightarrow>
    send_thread h W s (s\<lparr>mux := m1, pc := Locked, posted := posted s @ ctl, in_pass := Some (Between ts)\<rparr>)"
| inside: "in_pass s = Some ps \<Longrightarrow> pass_step h W ps (mux s) (world s) = Inr (ps', m', w', popped_now) \<Longrightarrow>
    send_thread h W s
      (s\<lparr>mux := m', world := w', transmitted := transmitted s @ popped_now, in_pass := ps'\<rparr>)"
| inside_aborts: "in_pass s = Some ps \<Longrightarrow> pass_step h W ps (mux s) (world s) = Inl e \<Longrightarrow>
    send_thread h W s (s\<lparr>pc := Aborted, in_pass := None\<rparr>)"

lemma send_thread_step_fine: "send_thread h W s s' \<Longrightarrow> fine_send_step h W s s'"
  by (induction rule: send_thread.induct) (auto intro: fine_send_step.intros)

text \<open>Every other step leaves the thread where it is.\<close>

lemma fine_send_step_thread:
  assumes "fine_send_step h W s s'"
  shows "send_thread h W s s' \<or> muxer_step W s s' \<and> pc s' = pc s \<and> in_pass s' = in_pass s"
  using assms
proof (cases rule: fine_send_step.cases)
  case outside
  have "in_pass s' = in_pass s" using muxer_step_in_pass [OF outside(1)] by (cases s; cases s') simp
  with outside show ?thesis using send_thread.moves by metis
qed (auto intro: send_thread.intros)

context byte_writer begin

text \<open>Until it returns the thread can always go on, except that a call may not come back.\<close>

lemma send_thread_enabled:
  assumes "fine_inv sent out0 s" "pc s \<noteq> Exited"
  shows "\<exists>s'. send_thread h W s s'"
proof (cases "in_pass s")
  case (Some st)
  obtain st' m' w' new where "pass_step h W st (mux s) (world s) = Inr (st', m', w', new)"
    using pass_step_inv [OF assms(1) Some refl, of h] by blast
  from send_thread.inside [OF Some this] show ?thesis by blast
next
  case None
  have inv: "queues_inv (mux s) (posted s) (transmitted s)" and "pc s \<noteq> Aborted"
    using assms(1) by (simp_all add: fine_inv_def pass_ok_def)
  then consider "pc s = Entered" | "pc s = HelloPosted" | "pc s = Waiting" | "pc s = Locked"
    using assms(2) by (cases "pc s") auto
  then show ?thesis
  proof cases
    case 1
    obtain m' where "sendControlMessage Hello (mux s) = (Inr (), m')"
      by (rule sendControlMessage_inv [OF inv, of Hello])
    from send_thread.moves [OF muxer_step.hello [OF 1 this] None] 1 show ?thesis by fastforce
  next
    case 2
    from send_thread.moves [OF muxer_step.acquire [OF 2] None] 2 show ?thesis by fastforce
  next
    case 3
    obtain ts where "iteration_order (mux s) ts" using iteration_order_exists by blast
    with send_thread.begins [OF None, of "mux s" "[]"] 3 begins_pass.notified show ?thesis by fastforce
  next
    case 4
    obtain ts where ts: "iteration_order (mux s) ts" using iteration_order_exists by blast
    show ?thesis
    proof (cases "mux_transportError (mux s) \<or> mux_numPosted (mux s) = mux_numSent (mux s)")
      case True
      with send_thread.moves [OF muxer_step.return [OF 4] None]
        send_thread.moves [OF muxer_step.wait [OF 4] None] 4
      show ?thesis by fastforce
    next
      case False
      with send_thread.begins [OF None _ ts, of "[]"] 4 begins_pass.busy show ?thesis by fastforce
    qed
  qed
qed

end

lemma fine_sending_run:
  assumes "run (fine_send_step h W) f" "fine_sending h W m0 w0 (f 0)"
  shows "fine_sending h W m0 w0 (f i)"
  by (rule run_invariant [where P = "fine_sending h W m0 w0", OF assms]) (auto intro: fine_sending.step)

section \<open>The end of the thread\<close>

text \<open>Where the thread is on its way out, and how many types its pass has still to look at.\<close>

fun exit_distance :: "'w sender \<Rightarrow> nat \<times> nat" where
  "exit_distance s =
     (case in_pass s of
        Some (Between ts) \<Rightarrow> (2, 2 * length ts)
      | Some (AtQueue t ts) \<Rightarrow> (2, 2 * length ts + 1)
      | Some (Writing _ _ _ _ _) \<Rightarrow> (2, 0)
      | None \<Rightarrow> (case pc s of Entered \<Rightarrow> 5 | HelloPosted \<Rightarrow> 4 | Waiting \<Rightarrow> 3 | Locked \<Rightarrow> 1 | _ \<Rightarrow> 0, 0))"

lemma exit_distance_same:
  "pc s' = pc s \<Longrightarrow> in_pass s' = in_pass s \<Longrightarrow> exit_distance s' = exit_distance s"
  by (simp only: exit_distance.simps)

context byte_writer begin

lemma send_thread_nearer_exit:
  assumes "send_thread h W s s'" "fine_inv sent out0 s" "mux_transportError (mux s)"
  shows "pc s' = Exited \<or> (exit_distance s', exit_distance s) \<in> less_than <*lex*> less_than"
  using assms
proof (induction rule: send_thread.induct)
  case (moves s s')
  have same: "in_pass s' = in_pass s" using muxer_step_in_pass [OF moves.hyps(1)] by (cases s; cases s') simp
  from moves.hyps(1) show ?case
    by (cases rule: muxer_step.cases) (use moves same in auto)
next
  case (begins s m1 ctl ts)
  then show ?case by (auto simp: begins_pass_iff)
next
  case (inside s ps ps' m' w' popped)
  then have "pc s = Locked" "\<And>t ts buf bufs ok. ps \<noteq> Writing t ts buf bufs ok"
    by (auto simp: fine_inv_def pass_ok_def)
  with inside show ?case
    by (cases rule: pass_step.cases [of "(h, W, ps, mux s, world s)"]) (auto split: list.splits)
next
  case (inside_aborts s ps e)
  from pass_step_inv [OF inside_aborts.prems(1) inside_aborts.hyps] show ?case by simp
qed

lemma exiting: "progress (fine_send_step h W) (only (send_thread h W))
    (\<lambda>s. fine_inv sent out0 s \<and> mux_transportError (mux s)) (\<lambda>s. pc s = Exited)
    (less_than <*lex*> less_than) exit_distance (\<lambda>_. ())"
proof
  show "wf (less_than <*lex*> less_than :: ((nat \<times> nat) \<times> nat \<times> nat) set)" by (simp add: wf_lex_prod)
next
  fix s s'
  assume "fine_send_step h W s s'" "fine_inv sent out0 s \<and> mux_transportError (mux s)"
  with fine_send_step_inv fine_send_step_final show "fine_inv sent out0 s' \<and> mux_transportError (mux s')" by blast
next
  fix s
  assume "fine_inv sent out0 s \<and> mux_transportError (mux s)" "pc s \<noteq> Exited"
  with send_thread_enabled show "\<exists>s'. only (send_thread h W) () s s'" by (auto simp: only_def)
next
  fix s s'
  assume inv: "fine_inv sent out0 s \<and> mux_transportError (mux s)"
  show "pc s' = Exited \<or> (exit_distance s', exit_distance s) \<in> less_than <*lex*> less_than"
    if "only (send_thread h W) () s s'"
    using send_thread_nearer_exit [of h s s'] inv that unfolding only_def by blast
  show "pc s' = Exited \<or> (exit_distance s', exit_distance s) \<in> less_than <*lex*> less_than \<or>
      exit_distance s' = exit_distance s \<and> () = ()" if "fine_send_step h W s s'"
    using send_thread_nearer_exit [of h s s'] inv fine_send_step_thread [OF that] exit_distance_same by blast
qed

text \<open>In every fair run the thread ends once the flag is set.\<close>

lemma fair_exit:
  assumes "run (fine_send_step h W) f" "weakly_fair (send_thread h W) f"
    "fine_inv sent out0 (f i)" "mux_transportError (mux (f i))"
  shows "\<exists>j\<ge>i. pc (f j) = Exited"
  using progress.eventually_goal [OF exiting [of h out0] assms(1), of i] assms(2-4)
  by (simp add: only_def)

end

section \<open>The transmission of what is posted\<close>

text \<open>
  Without an error a pass has only the queues that it has still to visit left to empty, and no
  packet in hand has failed.
\<close>

fun to_visit :: "pass_state \<Rightarrow> u32 list" where
  "to_visit (Between ts) = ts"
| "to_visit (AtQueue t ts) = t # ts"
| "to_visit (Writing t ts buf bufs ok) = t # ts"

fun in_order :: "pass_state \<Rightarrow> bool" where
  "in_order (Writing t ts buf bufs ok) = ok"
| "in_order _ = True"

definition pass_drains :: "'w sender \<Rightarrow> bool" where
  "pass_drains s \<longleftrightarrow> pc s \<noteq> Exited \<and>
     (\<forall>st. in_pass s = Some st \<longrightarrow> in_order st \<and> distinct (to_visit st) \<and>
        (\<forall>t. txQueue (mux s) t \<noteq> [] \<longrightarrow> t \<in> set (to_visit st)))"

definition drain_inv :: "('w \<Rightarrow> byte list) \<Rightarrow> byte list \<Rightarrow> 'w sender \<Rightarrow> bool" where
  "drain_inv sent out0 s \<longleftrightarrow> fine_inv sent out0 s \<and> (\<not> mux_transportError (mux s) \<longrightarrow> pass_drains s)"

text \<open>The work left in a pass: every byte, every call and every queue.\<close>

fun queue_work :: "com_packet list \<Rightarrow> nat" where
  "queue_work [] = 0"
| "queue_work (p # ps) = length (m_data p) + 16 + queue_work ps"

fun visits_work :: "muxer \<Rightarrow> u32 list \<Rightarrow> nat" where
  "visits_work m [] = 0"
| "visits_work m (t # ts) = queue_work (txQueue m t) + 2 + visits_work m ts"

fun pass_work :: "muxer \<Rightarrow> pass_state \<Rightarrow> nat" where
  "pass_work m (Between ts) = visits_work m ts"
| "pass_work m (AtQueue t ts) = queue_work (txQueue m t) + 1 + visits_work m ts"
| "pass_work m (Writing t ts buf bufs ok) =
     length buf + length (concat bufs) + 2 * length bufs + 2 + queue_work (tl (txQueue m t)) + visits_work m ts"

lemma visits_work_other [simp]: "t \<notin> set ts \<Longrightarrow> visits_work (set_txQueue t q m) ts = visits_work m ts"
  by (induction ts) auto

lemma visits_work_counters [simp]:
  "visits_work (m\<lparr>mux_numSent := n\<rparr>) ts = visits_work m ts"
  "visits_work (m\<lparr>mux_transportError := e\<rparr>) ts = visits_work m ts"
  by (induction ts) (auto simp: txQueue_def)

fun drain_distance :: "('w \<Rightarrow> nat) \<Rightarrow> 'w sender \<Rightarrow> nat \<times> nat \<times> nat \<times> nat" where
  "drain_distance lag s =
     (if constructed s then 0 else 1,
      case in_pass s of
        Some st \<Rightarrow> (1, pass_work (mux s) st, lag (world s))
      | None \<Rightarrow> (case pc s of Entered \<Rightarrow> 5 | HelloPosted \<Rightarrow> 4 | Locked \<Rightarrow> 3 | Waiting \<Rightarrow> 2 | _ \<Rightarrow> 0, 0, 0))"

abbreviation drain_order :: "((nat \<times> nat \<times> nat \<times> nat) \<times> nat \<times> nat \<times> nat \<times> nat) set" where
  "drain_order \<equiv> less_than <*lex*> less_than <*lex*> less_than <*lex*> less_than"

definition drained :: "'w sender \<Rightarrow> bool" where
  "drained s \<longleftrightarrow> mux_transportError (mux s) \<or> (\<forall>t. txQueue (mux s) t = [])"

lemma muxer_step_None:
  assumes "muxer_step W s s'" "in_pass s = None"
  shows "in_pass s' = None"
  using muxer_step_in_pass [OF assms(1)] assms(2) by (cases s; cases s') simp

lemma begins_pass_covers:
  assumes "begins_pass m l m1 ctl" "iteration_order m1 ts" "txQueue m1 t \<noteq> []"
  shows "t \<in> set ts"
  using assms(2,3) by (auto simp: iteration_order_def txQueue_def split: option.splits)

context byte_sink begin

text \<open>A step of a pass goes on with the pass, and leaves less to do.\<close>

lemma pass_step_drains:
  assumes "fine_inv sent out0 s" "in_pass s = Some st" "pass_drains s" "\<not> mux_transportError (mux s)"
    and "pass_step h W st (mux s) (world s) = Inr (st', m', w', new)"
  shows "\<not> mux_transportError m' \<and>
    pass_drains (s\<lparr>mux := m', world := w', transmitted := transmitted s @ new, in_pass := st'\<rparr>) \<and>
    ((\<forall>t. txQueue m' t = []) \<or> (\<exists>st1. st' = Some st1 \<and>
      ((pass_work m' st1, lag w'), pass_work (mux s) st, lag (world s)) \<in> less_than <*lex*> less_than))"
proof -
  have inv: "queues_inv (mux s) (posted s) (transmitted s)"
    using assms(1) by (simp add: fine_inv_def)
  note state = assms(2-5) [unfolded pass_drains_def]
  show ?thesis
  proof (cases rule: pass_step.cases [of "(h, W, st, mux s, world s)"])
    case (3 h' W' t ts m w)
    show ?thesis
    proof (cases "txQueue (mux s) t")
      case Nil
      with 3 state show ?thesis by (auto simp: pass_drains_def)
    next
      case (Cons p q)
      have "m_type p \<noteq> InvalidPacket" using queue_type(2) [OF inv, of p t] Cons by (simp add: sendable_def)
      with 3 state Cons show ?thesis by (auto simp: pass_drains_def getType_def)
    qed
  next
    case (4 h' W' t ts ok m w)
    then have "ok" "txQueue (mux s) t \<noteq> []" "t \<notin> set ts"
      using assms(1) state by (auto simp: fine_inv_def pass_ok_def)
    with 4 state show ?thesis by (auto simp: pass_drains_def)
  next
    case (6 h' W' t ts b buf bufs ok m w)
    obtain n w1 where wr: "wr_write W (b # buf) (world s) = (n, w1)" by fastforce
    note n = write_nonneg [OF wr] write_le [OF wr] write_progress [OF wr]
    with 6 state wr n show ?thesis by (auto simp: pass_drains_def)
  qed (use state in \<open>auto simp: pass_drains_def\<close>)
qed

lemma drain_inv_step:
  assumes "fine_send_step h W s s'" "drain_inv sent out0 s"
  shows "drain_inv sent out0 s'"
proof -
  have fine: "fine_inv sent out0 s" using assms(2) by (simp add: drain_inv_def)
  have fine': "fine_inv sent out0 s'" using fine_send_step_inv [OF assms(1) fine] .
  have "pass_drains s'" if ok': "\<not> mux_transportError (mux s')"
  proof -
    have ok: "\<not> mux_transportError (mux s)" using fine_send_step_final [OF assms(1) fine] that by blast
    then have drains: "pass_drains s" using assms(2) by (simp add: drain_inv_def)
    from assms(1) show ?thesis
    proof (cases rule: fine_send_step.cases)
      case outside
      show ?thesis
      proof (cases "in_pass s")
        case None
        have "pc s' \<noteq> Exited"
          using outside(1) by (cases rule: muxer_step.cases) (use ok drains in \<open>auto simp: pass_drains_def\<close>)
        with muxer_step_None [OF outside(1) None] show ?thesis by (simp add: pass_drains_def)
      next
        case (Some st)
        then have "pc s = Locked" "pc s' = Locked" using fine outside(2) by (auto simp: fine_inv_def pass_ok_def)
        from muxer_step_Locked [OF outside(1) this] drains Some show ?thesis by (simp add: pass_drains_def)
      qed
    next
      case (begins m1 ctl ts)
      then have "distinct ts" "\<forall>t. txQueue m1 t \<noteq> [] \<longrightarrow> t \<in> set ts"
        using begins_pass_covers by (auto simp: iteration_order_def)
      with begins show ?thesis by (simp add: pass_drains_def)
    next
      case (inside st st' m' w' new)
      with pass_step_drains [OF fine inside(2) drains ok inside(3)] show ?thesis by simp
    next
      case (inside_aborts st e)
      from pass_step_inv [OF fine inside_aborts(2,3)] show ?thesis by simp
    qed
  qed
  with fine' show ?thesis by (simp add: drain_inv_def)
qed

lemma send_thread_nearer_drained:
  assumes "send_thread h W s s'" "drain_inv sent out0 s" "\<not> drained s"
  shows "drained s' \<or> (drain_distance lag s', drain_distance lag s) \<in> drain_order"
proof -
  have fine: "fine_inv sent out0 s" and ok: "\<not> mux_transportError (mux s)" and drains: "pass_drains s"
    using assms(2,3) by (auto simp: drain_inv_def drained_def)
  from assms(1) show ?thesis
  proof (cases rule: send_thread.cases)
    case moves
    note none = muxer_step_None [OF moves(1,2)]
    from moves(1) show ?thesis
      by (cases rule: muxer_step.cases) (use moves none ok in auto)
  next
    case (begins m1 ctl ts)
    then show ?thesis by (auto simp: begins_pass_iff)
  next
    case (inside st st' m' w' new)
    have "pc s = Locked" using fine inside(2) by (auto simp: fine_inv_def pass_ok_def)
    with pass_step_drains [OF fine inside(2) drains ok inside(3)] inside show ?thesis
      by (auto simp: drained_def)
  next
    case (inside_aborts st e)
    from pass_step_inv [OF fine inside_aborts(2,3)] show ?thesis by simp
  qed
qed

text \<open>The steps of the others leave the distance as it is, but for the end of the constructor.\<close>

lemma muxer_step_same_distance:
  assumes "muxer_step W s s'" "pc s' = pc s" "in_pass s' = in_pass s" "fine_inv sent out0 s"
  shows "(drain_distance lag s', drain_distance lag s) \<in> drain_order \<or>
    drain_distance lag s' = drain_distance lag s"
proof (cases "in_pass s")
  case None
  with assms(3) have none: "in_pass s' = None" by simp
  from assms(1) show ?thesis
    by (cases rule: muxer_step.cases) (use assms(2) None in auto)
next
  case (Some st)
  then have "pc s = Locked" using assms(4) by (auto simp: fine_inv_def pass_ok_def)
  from assms(1) show ?thesis
    by (cases rule: muxer_step.cases) (use assms(2) \<open>pc s = Locked\<close> in \<open>auto simp: lock_free_def\<close>)
qed

lemma draining: "progress (fine_send_step h W) (only (send_thread h W))
    (drain_inv sent out0) drained drain_order (drain_distance lag) (\<lambda>_. ())"
proof
  show "wf drain_order" by (intro wf_lex_prod wf_less_than)
next
  show "drain_inv sent out0 s'" if "fine_send_step h W s s'" "drain_inv sent out0 s" for s s'
    using drain_inv_step [OF that] .
next
  fix s
  assume inv: "drain_inv sent out0 s" and "\<not> drained s"
  then have "fine_inv sent out0 s" "pc s \<noteq> Exited" by (auto simp: drain_inv_def drained_def pass_drains_def)
  with send_thread_enabled show "\<exists>s'. only (send_thread h W) () s s'" by (auto simp: only_def)
next
  fix s s'
  assume inv: "drain_inv sent out0 s" "\<not> drained s"
  show "drained s' \<or> (drain_distance lag s', drain_distance lag s) \<in> drain_order"
    if "only (send_thread h W) () s s'"
    using send_thread_nearer_drained [of h s s'] inv that unfolding only_def by blast
  have fine: "fine_inv sent out0 s" using inv(1) by (simp add: drain_inv_def)
  show "drained s' \<or> (drain_distance lag s', drain_distance lag s) \<in> drain_order \<or>
      drain_distance lag s' = drain_distance lag s \<and> () = ()" if "fine_send_step h W s s'"
    using send_thread_nearer_drained [of h s s'] inv fine_send_step_thread [OF that]
      muxer_step_same_distance [OF _ _ _ fine] by blast
qed

text \<open>What a muxer made by its constructor reaches before any error.\<close>

lemma fine_sending_drain_inv:
  assumes "fine_sending h W m0 w0 s" "PacketMuxer_ctor names = Inr m0" "length names + 2 \<le> 2 ^ 32"
  shows "drain_inv sent (sent w0) s"
  using assms(1)
proof (induction rule: fine_sending.induct)
  case start
  have "pass_drains (between_passes (start_sending m0 w0))" by (simp add: pass_drains_def start_sending_def)
  with fine_sending_inv [OF fine_sending.start assms(2,3)] show ?case by (simp add: drain_inv_def)
next
  case (step s s')
  then show ?case using drain_inv_step by blast
qed

lemma fair_transmission:
  assumes "run (fine_send_step h W) f" "weakly_fair (send_thread h W) f" "drain_inv sent out0 (f i)"
    and no_error: "\<And>j. \<not> mux_transportError (mux (f j))"
  shows "\<exists>j\<ge>i. sent (world (f j)) = out0 @ concat (map wire (transmitted (f j))) \<and>
    (\<forall>t. prefix (of_type t (posted (f i))) (of_type t (transmitted (f j))))"
proof -
  have "\<exists>j\<ge>i. drained (f j)"
    using progress.eventually_goal [OF draining [of h out0] assms(1), of i] assms(2,3) by (simp add: only_def)
  then obtain j where j: "i \<le> j" "\<forall>t. txQueue (mux (f j)) t = []"
    using no_error by (auto simp: drained_def)
  have "drain_inv sent out0 (f j)"
    using run_invariant [OF assms(1), of "drain_inv sent out0" i j] assms(3) drain_inv_step j(1) by blast
  then have fine: "fine_inv sent out0 (f j)" by (simp add: drain_inv_def)
  then have "in_pass (f j) \<noteq> Some (Writing t ts buf bufs ok)" for t ts buf bufs ok
    using j(2) by (auto simp: fine_inv_def pass_ok_def)
  then have "unwritten (f j) = []" "in_hand (f j) = []" "no_error (f j)"
    using no_error by (auto split: option.splits pass_state.splits)
  then have sent: "sent (world (f j)) = out0 @ concat (map wire (transmitted (f j)))"
    using fine by (simp add: fine_inv_def del: unwritten.simps in_hand.simps no_error.simps)
  have types: "of_type t (posted (f j)) = of_type t (transmitted (f j))" for t
    using fine j(2) by (simp add: fine_inv_def queues_inv_def)
  obtain ps where "posted (f j) = posted (f i) @ ps"
  proof -
    have "\<exists>ps. posted (f j) = posted (f i) @ ps"
      using j(1)
    proof (induction rule: dec_induct)
      case (step j)
      have "fine_send_step h W (f j) (f (Suc j)) \<or> f (Suc j) = f j" using assms(1) by (simp add: run_def)
      then have "\<exists>qs. posted (f (Suc j)) = posted (f j) @ qs"
        using fine_send_step_history [of h W "f j" "f (Suc j)"] by auto
      with step.IH show ?case by auto
    qed simp
    with that show ?thesis by blast
  qed
  then have "prefix (of_type t (posted (f i))) (of_type t (transmitted (f j)))" for t
    by (simp flip: types)
  with sent j(1) show ?thesis by blast
qed

end

section \<open>Fair runs\<close>

text \<open>They exist from every state, those in which only the send thread takes steps.\<close>

lemma fair_sending_exists:
  "\<exists>f. f 0 = s \<and> run (send_thread h W) f \<and> run (fine_send_step h W) f \<and> weakly_fair (send_thread h W) f"
proof -
  obtain f where f: "f 0 = s" "run (send_thread h W) f" "weakly_fair (send_thread h W) f"
    using fair_only_exists [of s "send_thread h W"] by blast
  from f(2) have "run (fine_send_step h W) f" by (rule run_mono) (rule send_thread_step_fine)
  with f show ?thesis by blast
qed

context byte_sink begin

text \<open>Over a reliable transport these set no error flag.\<close>

lemma send_thread_no_error:
  assumes "send_thread h W s s'" "drain_inv sent out0 s \<and> \<not> mux_transportError (mux s)"
  shows "drain_inv sent out0 s' \<and> \<not> mux_transportError (mux s')"
proof -
  have fine: "fine_inv sent out0 s" and ok: "\<not> mux_transportError (mux s)" and drains: "pass_drains s"
    using assms(2) by (auto simp: drain_inv_def)
  from assms(1) have "\<not> mux_transportError (mux s')"
  proof (cases rule: send_thread.cases)
    case moves
    from moves(1) show ?thesis
    proof (cases rule: muxer_step.cases)
      case (hello m')
      have inv: "queues_inv (mux s) (posted s) (transmitted s)" using fine by (simp add: fine_inv_def)
      obtain m1 where "sendControlMessage Hello (mux s) = (Inr (), m1)" "mux_transportError m1 = mux_transportError (mux s)"
        by (rule sendControlMessage_inv [OF inv, of Hello])
      with hello ok show ?thesis by simp
    qed (use moves ok in auto)
  next
    case (begins m1 ctl ts)
    with begins_pass_error ok show ?thesis by fastforce
  next
    case (inside st st' m' w' new)
    with pass_step_drains [OF fine inside(2) drains ok inside(3)] show ?thesis by simp
  next
    case (inside_aborts st e)
    from pass_step_inv [OF fine inside_aborts(2,3)] show ?thesis by simp
  qed
  with drain_inv_step [OF send_thread_step_fine [OF assms(1)]] assms(2) show ?thesis by blast
qed

text \<open>The thread only posts control packets, and keeps the first packet that it has sent.\<close>

lemma send_thread_posts:
  assumes "send_thread h W s s'"
  shows "\<exists>ps. posted s' = posted s @ map control_packet ps" "\<exists>ps. transmitted s' = transmitted s @ ps"
proof -
  show "\<exists>ps. transmitted s' = transmitted s @ ps"
    using fine_send_step_history [OF send_thread_step_fine [OF assms]] by blast
  from assms show "\<exists>ps. posted s' = posted s @ map control_packet ps"
  proof (cases rule: send_thread.cases)
    case moves
    from moves(1) show ?thesis
    proof (cases rule: muxer_step.cases)
      case (hello m')
      then show ?thesis by (auto intro: exI [of _ "[Hello]"])
    qed (use moves in auto)
  next
    case (begins m1 ctl ts)
    from begins(3) have "ctl = [] \<or> ctl = [control_packet HeartBeat]" by (auto simp: begins_pass_iff)
    with begins(1) show ?thesis by (auto intro: exI [of _ "[]"] exI [of _ "[HeartBeat]"])
  qed auto
qed

lemma fair_sending_without_error:
  assumes "drain_inv sent out0 s" "\<not> mux_transportError (mux s)"
  obtains f where "f 0 = s" "run (fine_send_step h W) f" "weakly_fair (send_thread h W) f"
    "\<And>j. \<not> mux_transportError (mux (f j))" "\<And>j. \<exists>ps. posted (f j) = posted s @ map control_packet ps"
    "\<And>j. \<exists>ps. transmitted (f j) = transmitted s @ ps"
proof -
  obtain f where f: "f 0 = s" "run (send_thread h W) f" "run (fine_send_step h W) f" "weakly_fair (send_thread h W) f"
    using fair_sending_exists [of s h W] by blast
  have "drain_inv sent out0 (f j) \<and> \<not> mux_transportError (mux (f j))" for j
    using run_invariant [OF f(2), of "\<lambda>s. drain_inv sent out0 s \<and> \<not> mux_transportError (mux s)" 0 j]
      send_thread_no_error assms f(1) by blast
  moreover have "(\<exists>ps. posted (f j) = posted s @ map control_packet ps) \<and> (\<exists>ps. transmitted (f j) = transmitted s @ ps)" for j
  proof (induction j)
    case 0
    show ?case by (simp add: f(1) exI [of _ "[]"])
  next
    case (Suc j)
    then obtain ps ts where IH: "posted (f j) = posted s @ map control_packet ps" "transmitted (f j) = transmitted s @ ts"
      by blast
    have "send_thread h W (f j) (f (Suc j)) \<or> f (Suc j) = f j" using f(2) by (simp add: run_def)
    then obtain ps' ts' where "posted (f (Suc j)) = posted (f j) @ map control_packet ps'"
      "transmitted (f (Suc j)) = transmitted (f j) @ ts'"
      using send_thread_posts [of h "f j" "f (Suc j)"] by (metis append_Nil2 list.simps(8))
    with IH show ?case by (intro conjI exI [of _ "ps @ ps'"] exI [of _ "ts @ ts'"]) simp_all
  qed
  ultimately show thesis using that f(1,3,4) by blast
qed

end

end
