(* ===== verification/ReceiveFair.thy ===== *)
theory ReceiveFair
  imports ReceiveSteps Fairness
begin

text \<open>
  The end of a demuxer under a fair scheduler: once its destructor has been entered it comes back,
  in every run in which the receive thread and the destructor go on whenever they can, whatever the
  program and the transport do meanwhile.
\<close>

section \<open>The actions\<close>

text \<open>
  The receive thread is the only one, after construction, that changes its place or the state of
  the transport, but for a destructor that throws.
\<close>

definition receive_thread ::
    "host_order \<Rightarrow> 'w abstract_reader \<Rightarrow> ('cb \<Rightarrow> bool) \<Rightarrow> ('cb, 'w) receiver \<Rightarrow> ('cb, 'w) receiver \<Rightarrow> bool" where
  "receive_thread h R reenters s s' \<longleftrightarrow> fine_receive_step h R reenters s s' \<and> \<not> dtor_step s s' \<and>
     rs_constructed s' = rs_constructed s \<and>
     (rs_at s', rs_pc s', rs_world s') \<noteq> (rs_at s, rs_pc s, rs_world s)"

definition destructor_thread ::
    "host_order \<Rightarrow> 'w abstract_reader \<Rightarrow> ('cb \<Rightarrow> bool) \<Rightarrow> ('cb, 'w) receiver \<Rightarrow> ('cb, 'w) receiver \<Rightarrow> bool" where
  "destructor_thread h R reenters s s' \<longleftrightarrow> fine_receive_step h R reenters s s' \<and> dtor_step s s'"

datatype demuxer_thread = Receiver | Destructor

fun demuxer_act ::
    "host_order \<Rightarrow> 'w abstract_reader \<Rightarrow> ('cb \<Rightarrow> bool) \<Rightarrow> demuxer_thread \<Rightarrow>
      ('cb, 'w) receiver \<Rightarrow> ('cb, 'w) receiver \<Rightarrow> bool" where
  "demuxer_act h R reenters Receiver = receive_thread h R reenters"
| "demuxer_act h R reenters Destructor = destructor_thread h R reenters"

lemma demuxer_act_fine: "demuxer_act h R reenters a s s' \<Longrightarrow> fine_receive_step h R reenters s s'"
  by (cases a) (auto simp: receive_thread_def destructor_thread_def)

text \<open>The steps of the others.\<close>

lemma fine_receive_step_thread:
  assumes "fine_receive_step h R reenters s s'" "rs_dtor s \<noteq> D_None"
  shows "receive_thread h R reenters s s' \<or> destructor_thread h R reenters s s' \<or>
    rs_at s' = rs_at s \<and> rs_pc s' = rs_pc s \<and> rs_dtor s' = rs_dtor s"
proof (cases "dtor_step s s'")
  case True
  with assms(1) show ?thesis by (simp add: destructor_thread_def)
next
  case False
  from assms(1) show ?thesis
    by (cases rule: fine_receive_step.cases) (use assms False in \<open>auto simp: receive_thread_def\<close>)
qed

lemma fine_receiving_run:
  assumes "run (fine_receive_step h R reenters) f" "fine_receiving h R reenters d0 w0 (f 0)"
  shows "fine_receiving h R reenters d0 w0 (f i)"
  by (rule run_invariant [where P = "fine_receiving h R reenters d0 w0", OF assms])
    (auto intro: fine_receiving.step)

section \<open>What helps\<close>

definition destroying :: "('cb, 'w) receiver \<Rightarrow> bool" where
  "destroying s \<longleftrightarrow> calls_inv s \<and> client_inv (rs_client s) \<and> flag_inv s \<and> rs_dtor s \<noteq> D_None \<and> rs_at s \<noteq> Stuck"

definition destroyed :: "('cb, 'w) receiver \<Rightarrow> bool" where
  "destroyed s \<longleftrightarrow> rs_dtor s = D_Joined \<or> rs_pc s = R_Aborted"

fun thread_left :: "('cb, 'w) receiver \<Rightarrow> nat \<times> nat" where
  "thread_left s =
     (case rs_at s of
        Calling _ todo \<Rightarrow> (5, length todo)
      | Reading _ _ _ \<Rightarrow> (3, 0)
      | Stuck \<Rightarrow> (0, 0)
      | Outside \<Rightarrow> (case rs_pc s of R_Dispatch \<Rightarrow> 6 | R_Handshake \<Rightarrow> 4 | R_Loop \<Rightarrow> 1 | _ \<Rightarrow> 0, 0))"

fun destructor_left :: "dtor_pc \<Rightarrow> nat" where
  "destructor_left D_None = 4"
| "destructor_left D_Entered = 3"
| "destructor_left D_Signalled = 2"
| "destructor_left D_Warned = 1"
| "destructor_left D_Joined = 0"

definition end_distance :: "('cb, 'w) receiver \<Rightarrow> nat \<times> nat \<times> nat" where
  "end_distance s = (destructor_left (rs_dtor s), if rs_dtor s = D_Entered then (0, 0) else thread_left s)"

definition end_helpful :: "('cb, 'w) receiver \<Rightarrow> demuxer_thread" where
  "end_helpful s = (if rs_dtor s = D_Entered \<or> rs_pc s = R_Exited then Destructor else Receiver)"

abbreviation end_order :: "((nat \<times> nat \<times> nat) \<times> nat \<times> nat \<times> nat) set" where
  "end_order \<equiv> less_than <*lex*> less_than <*lex*> less_than"

lemma destructor_nearer:
  assumes "destructor_thread h R reenters s s'"
  shows "destroyed s' \<or> (end_distance s', end_distance s) \<in> end_order"
proof -
  have "dtor_step s s'" using assms by (simp add: destructor_thread_def)
  then show ?thesis by cases (auto simp: destroyed_def end_distance_def)
qed

text \<open>With the flag set, the thread only goes towards its end.\<close>

lemma receiver_nearer:
  assumes "receive_thread h R reenters s s'" "calls_inv s" "dmx_transportError (rs_demuxer s)"
    "\<forall>cb. \<not> reenters cb"
  shows "rs_pc s' = R_Aborted \<or> rs_dtor s' = rs_dtor s \<and> (thread_left s', thread_left s) \<in> less_than <*lex*> less_than"
proof -
  have step: "fine_receive_step h R reenters s s'" and other: "\<not> dtor_step s s'" "rs_constructed s' = rs_constructed s"
    and moves: "(rs_at s', rs_pc s', rs_world s') \<noteq> (rs_at s, rs_pc s, rs_world s)"
    using assms(1) by (simp_all add: receive_thread_def)
  from step show ?thesis
    by (cases rule: fine_receive_step.cases)
      (use other moves assms(2-4) in \<open>auto simp: calls_inv_def read_step_def\<close>)
qed

lemma receiver_enabled:
  assumes "calls_inv s" "dmx_transportError (rs_demuxer s)" "rs_pc s \<noteq> R_Aborted" "rs_pc s \<noteq> R_Exited"
    "rs_at s \<noteq> Stuck" "\<forall>cb. \<not> reenters cb"
  shows "\<exists>s'. receive_thread h R reenters s s'"
proof -
  have go: "\<exists>s'. receive_thread h R reenters s s'"
    if "fine_receive_step h R reenters s s'" "rs_dtor s' = rs_dtor s" "rs_constructed s' = rs_constructed s"
      "rs_pc s' \<noteq> R_Aborted" "(rs_at s', rs_pc s') \<noteq> (rs_at s, rs_pc s)" for s'
  proof -
    have "\<not> dtor_step s s'" using that(2,4) by (auto elim!: dtor_step.cases dest: arg_cong [where f = rs_dtor])
    with that show ?thesis by (auto simp: receive_thread_def)
  qed
  show ?thesis
  proof (cases "rs_at s")
    case Outside
    note out = this
    consider "rs_pc s = R_Handshake" | "rs_pc s = R_Loop" | "rs_pc s = R_Dispatch"
      using assms(3,4) by (cases "rs_pc s") auto
    then show ?thesis
    proof cases
      case 1
      then have at: "rs_pc s = R_Handshake \<and> 2000 = (2000 :: int) \<or>
        rs_pc s = R_Loop \<and> \<not> dmx_transportError (rs_demuxer s) \<and> 2000 = (1000 :: int)" by simp
      obtain ready w' where "rd_readyForReading R 2000 (rs_world s) = (ready, w')" by fastforce
      from go [OF fine_receive_step.waits [OF out at this]] 1 out show ?thesis by auto
    next
      case 2
      from go [OF fine_receive_step.returns [OF out 2 assms(2)]] 2 show ?thesis by simp
    next
      case 3
      obtain sptr moved where mv: "ComPacket_move (rs_packet s) = (sptr, moved)" by fastforce
      show ?thesis
      proof (cases "getType (rs_packet s) = ControlPacket")
        case True
        from go [OF fine_receive_step.handles [OF out 3 True mv]] 3 show ?thesis by simp
      next
        case False
        from go [OF fine_receive_step.locks [OF out 3 False mv refl]] 3 out show ?thesis by simp
      qed
    qed
  next
    case (Reading part sz buf)
    have "read_step h R part sz buf (rs_packet s) (dmx_transportError (rs_demuxer s)) (rs_world s) =
        Inr (ReturnsFalse, True, rs_world s)"
      using assms(2) by (simp add: read_step_def)
    from go [OF fine_receive_step.gives_up [OF Reading assms(3) this]] Reading show ?thesis by simp
  next
    case (Calling sptr todo)
    then have pc: "rs_pc s = R_Dispatch" using assms(1) by (auto simp: calls_inv_def)
    show ?thesis
    proof (cases todo)
      case Nil
      with Calling have "rs_at s = Calling sptr []" by simp
      from go [OF fine_receive_step.unlocks [OF this pc]] pc show ?thesis by simp
    next
      case (Cons x queue)
      with Calling have "rs_at s = Calling sptr (x # queue)" by simp
      from go [OF fine_receive_step.calls [OF this]] this assms(6) pc show ?thesis by simp
    qed
  qed (use assms(5) in simp)
qed

lemma destroying_flag:
  "destroying s \<Longrightarrow> rs_dtor s \<noteq> D_Entered \<Longrightarrow> dmx_transportError (rs_demuxer s)"
  by (cases "rs_dtor s") (simp_all add: destroying_def flag_inv_def)

lemma destructor_enabled:
  assumes "destroying s" "\<not> destroyed s" "rs_dtor s = D_Entered \<or> rs_pc s = R_Exited"
  shows "\<exists>s'. destructor_thread h R reenters s s'"
proof -
  have go: "\<exists>s'. destructor_thread h R reenters s s'" if "dtor_step s s'" "lock_held s \<longrightarrow> rs_dtor s \<noteq> D_Signalled" for s'
    using fine_receive_step.destruction [OF that] that(1) by (auto simp: destructor_thread_def)
  show ?thesis
  proof (cases "rs_dtor s")
    case D_Entered
    from go [OF dtor_step.signals [OF this]] D_Entered show ?thesis by simp
  next
    case D_Signalled
    with assms have pc: "rs_pc s = R_Exited" by simp
    then have "\<not> lock_held s"
      using assms(1) by (auto simp: destroying_def calls_inv_def lock_held_def split: receive_at.splits)
    obtain ts where ts: "set ts = dom (dmx_subscribers (rs_demuxer s))" "distinct ts"
      using finite_distinct_list [of "dom (dmx_subscribers (rs_demuxer s))"] by auto
    obtain ws where "warnAboutSubscribers ts (rs_demuxer s) = Inr ws"
      using warnings_total [of "rs_demuxer s"] assms(1) by (auto simp: destroying_def client_inv_def rs_demuxer_def)
    from go [OF dtor_step.warns [OF D_Signalled ts this]] \<open>\<not> lock_held s\<close> show ?thesis by simp
  next
    case D_Warned
    with assms have "rs_pc s = R_Exited" by simp
    from go [OF dtor_step.joins [OF D_Warned this]] D_Warned show ?thesis by simp
  qed (use assms in \<open>auto simp: destroying_def destroyed_def\<close>)
qed

lemma destroying_step:
  assumes "fine_receive_step h R reenters s s'" "destroying s" "\<forall>cb. \<not> reenters cb"
  shows "destroying s'"
proof -
  have "rs_at s' \<noteq> Stuck"
    using assms(1) by (cases rule: fine_receive_step.cases) (use assms(2,3) in \<open>auto simp: destroying_def dest: dtor_step_at\<close>)
  moreover have "rs_dtor s' \<noteq> D_None"
    using assms(1) by (cases rule: fine_receive_step.cases)
      (use assms(2) in \<open>auto simp: destroying_def elim!: dtor_step.cases\<close>)
  ultimately show ?thesis
    using assms(2) fine_receive_step_calls_inv [OF assms(1)] fine_receive_step_client [OF assms(1)]
      fine_receive_step_flag [OF assms(1)] by (simp add: destroying_def)
qed

lemma destroying_nearer:
  assumes "demuxer_act h R reenters a s s'" "destroying s" "\<not> destroyed s" "\<forall>cb. \<not> reenters cb"
    "a = Receiver \<Longrightarrow> rs_dtor s \<noteq> D_Entered"
  shows "destroyed s' \<or> (end_distance s', end_distance s) \<in> end_order"
proof (cases a)
  case Receiver
  have "dmx_transportError (rs_demuxer s)" by (rule destroying_flag [OF assms(2,5)]) (rule Receiver)
  with receiver_nearer [of h R reenters s s'] assms(1,2,4) Receiver
  have "rs_pc s' = R_Aborted \<or> rs_dtor s' = rs_dtor s \<and> (thread_left s', thread_left s) \<in> less_than <*lex*> less_than"
    by (simp add: destroying_def del: thread_left.simps)
  then show ?thesis
    using assms(5) [OF Receiver] by (auto simp: destroyed_def end_distance_def simp del: thread_left.simps)
qed (use assms(1) destructor_nearer in \<open>simp, blast\<close>)

text \<open>The destructor finishes, by the receive thread and its own steps.\<close>

lemma ending:
  fixes reenters :: "'cb \<Rightarrow> bool" and R :: "'w abstract_reader"
  assumes "\<forall>cb. \<not> reenters cb"
  shows "progress (fine_receive_step h R reenters) (demuxer_act h R reenters) destroying destroyed
    end_order end_distance end_helpful"
proof
  show "wf end_order" by (intro wf_lex_prod wf_less_than)
  show "destroying s'" if "fine_receive_step h R reenters s s'" "destroying s" for s s' :: "('cb, 'w) receiver"
    using destroying_step [OF that assms] .
  show "\<exists>s'. demuxer_act h R reenters (end_helpful s) s s'" if s: "destroying s" "\<not> destroyed s"
    for s :: "('cb, 'w) receiver"
  proof (cases "rs_dtor s = D_Entered \<or> rs_pc s = R_Exited")
    case True
    with destructor_enabled [OF s] show ?thesis by (simp add: end_helpful_def)
  next
    case False
    then have "dmx_transportError (rs_demuxer s)" by (intro destroying_flag [OF s(1)]) simp
    from receiver_enabled [OF _ this _ _ _ assms] s False show ?thesis
      by (simp add: end_helpful_def destroying_def destroyed_def)
  qed
  fix s s' :: "('cb, 'w) receiver"
  assume s: "destroying s" "\<not> destroyed s"
  show "destroyed s' \<or> (end_distance s', end_distance s) \<in> end_order"
    if "demuxer_act h R reenters (end_helpful s) s s'"
    by (rule destroying_nearer [OF that s assms]) (simp add: end_helpful_def split: if_splits)
  assume step: "fine_receive_step h R reenters s s'"
  have "rs_dtor s \<noteq> D_None" using s(1) by (simp add: destroying_def)
  from fine_receive_step_thread [OF step this]
  consider (receiver) "receive_thread h R reenters s s'" | (destructor) "destructor_thread h R reenters s s'"
    | (other) "rs_at s' = rs_at s" "rs_pc s' = rs_pc s" "rs_dtor s' = rs_dtor s" by blast
  then show "destroyed s' \<or> (end_distance s', end_distance s) \<in> end_order \<or>
    end_distance s' = end_distance s \<and> end_helpful s' = end_helpful s"
  proof cases
    case receiver
    show ?thesis
    proof (cases "rs_dtor s = D_Entered")
      case True
      have "rs_dtor s' = rs_dtor s" using receiver unfolding receive_thread_def
        by (auto elim!: fine_receive_step.cases)
      with True show ?thesis by (simp add: end_distance_def end_helpful_def)
    next
      case False
      have "destroyed s' \<or> (end_distance s', end_distance s) \<in> end_order"
        by (rule destroying_nearer [of h R reenters Receiver, OF _ s assms]) (use receiver False in simp_all)
      then show ?thesis by blast
    qed
  next
    case destructor
    with destructor_nearer show ?thesis by blast
  next
    case other
    then have "thread_left s' = thread_left s" by (simp only: thread_left.simps)
    with other show ?thesis by (simp add: end_distance_def end_helpful_def del: thread_left.simps)
  qed
qed

lemma fair_end:
  assumes "\<forall>cb. \<not> reenters cb" "run (fine_receive_step h R reenters) f"
    and "weakly_fair (receive_thread h R reenters) f" "weakly_fair (destructor_thread h R reenters) f"
    and "destroying (f i)"
  shows "\<exists>j\<ge>i. destroyed (f j)"
proof -
  have "weakly_fair (demuxer_act h R reenters a) f" for a using assms(3,4) by (cases a) simp_all
  from progress.eventually_goal [OF ending [OF assms(1)] assms(2) this assms(5)] show ?thesis .
qed

text \<open>Once the flag is set, the receive thread cannot end the process any more.\<close>

definition stopping :: "('cb, 'w) receiver \<Rightarrow> bool" where
  "stopping s \<longleftrightarrow> client_inv (rs_client s) \<and> dmx_transportError (rs_demuxer s) \<and> rs_pc s \<noteq> R_Aborted"

lemma stopping_step:
  assumes "fine_receive_step h R reenters s s'" "stopping s"
  shows "stopping s'"
  using assms
proof -
  have client: "client_inv (rs_client s')" and reg: "registry_wf (rs_demuxer s)"
    using assms(2) fine_receive_step_client [OF assms(1)] by (auto simp: stopping_def client_inv_def rs_demuxer_def)
  from assms(1) have "dmx_transportError (rs_demuxer s') \<and> rs_pc s' \<noteq> R_Aborted"
  proof (cases rule: fine_receive_step.cases)
    case (uses c')
    then show ?thesis using client_step_error [OF uses(4) refl] assms(2) by (simp add: stopping_def rs_demuxer_def)
  next
    case destruction
    from destruction(1) show ?thesis
    proof (cases rule: dtor_step.cases)
      case (warn_throws ts e)
      with warnings_total [OF reg, of ts] show ?thesis by simp
    qed (use assms(2) in \<open>auto simp: stopping_def\<close>)
  qed (use assms(2) in \<open>auto simp: stopping_def read_step_def handleControlMessage_def set_subscribers_def\<close>)
  with client show ?thesis by (simp add: stopping_def)
qed

text \<open>Fair runs exist, from every state.\<close>

lemma fair_receiving_exists:
  "\<exists>f. f 0 = s \<and> run (fine_receive_step h R reenters) f \<and>
    weakly_fair (receive_thread h R reenters) f \<and> weakly_fair (destructor_thread h R reenters) f"
proof -
  have "set [Receiver, Destructor] = UNIV" using demuxer_thread.exhaust by auto
  from fair_run_exists [OF this, of s "demuxer_act h R reenters"]
  obtain f where f: "f 0 = s" "run (\<lambda>s s'. \<exists>a. demuxer_act h R reenters a s s') f"
    "\<And>a. weakly_fair (demuxer_act h R reenters a) f" by blast
  have "run (fine_receive_step h R reenters) f" using f(2) by (rule run_mono) (auto dest: demuxer_act_fine)
  with f(1) f(3) [of Receiver] f(3) [of Destructor] show ?thesis by auto
qed

end
