(* ===== verification/ArrivalFair.thy ===== *)
theory ArrivalFair
  imports ReceiveFair Connection
begin

text \<open>
  The receive thread under a fair scheduler takes every packet that is on the stream: as long as the
  error flag is not set and the process goes on, each call brings it nearer to the next packet.
\<close>

section \<open>What is to come\<close>

lemma wire_take:
  assumes "concat (map wire xs) @ bs = concat (map wire ps) @ rest" "length xs \<le> length ps"
    "\<forall>p \<in> set xs \<union> set ps. length (m_data p) < 2 ^ 32"
  shows "xs = take (length xs) ps" and "bs = concat (map wire (drop (length xs) ps)) @ rest"
proof -
  have "xs = take (length xs) ps \<and> bs = concat (map wire (drop (length xs) ps)) @ rest"
    using assms
  proof (induction xs arbitrary: ps)
    case (Cons x xs)
    then obtain p ps' where ps: "ps = p # ps'" by (cases ps) auto
    have "x = p" "concat (map wire xs) @ bs = concat (map wire ps') @ rest"
      using Cons.prems(1,3) wire_inject [of x p] by (auto simp: ps)
    with Cons.IH [of ps'] Cons.prems(2,3) show ?case by (simp add: ps)
  qed simp
  then show "xs = take (length xs) ps" "bs = concat (map wire (drop (length xs) ps)) @ rest" by simp_all
qed

lemma wire_not_Nil: "wire p \<noteq> []"
  by (simp add: wire_def be32_def)

text \<open>Part of a packet is read and more is asked for: then more is to come.\<close>

lemma more_to_come:
  assumes "part_wf part sz buf" "0 < sz" "partial h part buf @ bs = wire p @ rest" "receivable p"
  shows "bs \<noteq> []"
proof
  assume "bs = []"
  then have all: "partial h part buf = wire p @ rest" using assms(3) by simp
  have wf: "part_size part < 2 ^ 31" "length buf \<le> part_size part" "sz = of_nat (part_size part - length buf)"
    using assms(1) by (simp_all add: part_wf_def)
  then have "length buf < part_size part" using assms(2) by (cases "length buf = part_size part") auto
  moreover have "part_size part \<le> length buf"
  proof (cases part)
    case ReadType
    with arg_cong [OF all, of length] show ?thesis by (simp add: wire_def)
  next
    case (ReadSize type)
    with arg_cong [OF all, of length] show ?thesis by (simp add: wire_def)
  next
    case (ReadData q)
    then have "be32 (m_type q) @ be32 (of_nat (length (m_data q))) @ buf =
        be32 (m_type p) @ be32 (of_nat (length (m_data p))) @ m_data p @ rest"
      using all by (simp add: wire_def)
    then have "(of_nat (length (m_data q)) :: u32) = of_nat (length (m_data p))" "buf = m_data p @ rest"
      by simp_all
    moreover have "unat (of_nat (length (m_data q)) :: u32) = length (m_data q)"
      "unat (of_nat (length (m_data p)) :: u32) = length (m_data p)"
      using wf(1) ReadData assms(4) by (simp_all add: receivable_def)
    ultimately have "length (m_data q) = length (m_data p)" by metis
    with \<open>buf = m_data p @ rest\<close> ReadData show ?thesis by simp
  qed
  ultimately show False by simp
qed

lemma no_bad_header:
  assumes "bad_header e (bs @ rest1)" "8 \<le> length bs" "bs @ rest2 = wire p @ rest3" "receivable p"
  shows False
proof -
  obtain t n rest where bad: "bs @ rest1 = be32 t @ be32 n @ rest"
    "e = LengthError \<and> 2 ^ 31 \<le> unat n \<or> e = AssertionFailed \<and> t = InvalidPacket"
    using assms(1) by (auto simp: bad_header_def)
  have "take 8 (bs @ rest1) = take 8 bs" "take 8 (bs @ rest2) = take 8 bs" using assms(2) by simp_all
  then have "be32 t @ be32 n = be32 (m_type p) @ be32 (of_nat (length (m_data p)))"
    unfolding bad(1) assms(3) by (simp add: wire_def)
  then show False using bad(2) assms(4) by (auto simp: receivable_def)
qed

context byte_source begin

text \<open>While a whole packet is on the way, a turn goes on or returns this packet: it never fails.\<close>

lemma due_turn:
  assumes "part_wf part sz buf" "partial h part buf @ pending w = wire p @ rest" "receivable p"
  obtains (continues) part' sz' buf' w' where "read_step h R part sz buf packet False w =
      Inr (Continues part' sz' buf', False, w')" "0 < sz \<longrightarrow> pending w \<noteq> []"
  | (returns) "read_step h R part sz buf packet False w = Inr (ReturnsTrue p, False, w)"
proof (cases "0 < sz")
  case True
  have more: "pending w \<noteq> []" using more_to_come [OF assms(1) True assms(2,3)] .
  obtain n bs w' where rd: "rd_read R sz w = (n, bs, w')" by (metis prod_cases3)
  have "\<not> n < 0" using read_fail [OF rd] more by blast
  then have "read_step h R part sz buf packet False w =
      Inr (Continues part (sz - word_of_int n) (buf @ take (nat n) bs), False, w')"
    using True rd read_le [OF rd] by (simp add: read_step_def)
  with continues more show thesis by blast
next
  case False
  have wf: "part_size part < 2 ^ 31" "length buf \<le> part_size part" "sz = of_nat (part_size part - length buf)"
    using assms(1) by (simp_all add: part_wf_def)
  have whole: "length buf = part_size part"
  proof (rule ccontr)
    assume "length buf \<noteq> part_size part"
    define k where "k = part_size part - length buf"
    then have "0 < k" "k < 2 ^ 64" using wf \<open>length buf \<noteq> part_size part\<close> by simp_all
    then show False using False wf(3) by (simp flip: k_def)
  qed
  have turn: "read_step h R part sz buf packet False w =
      bind_outcome (part_done h part buf packet) (\<lambda>r. Inr (r, False, w))"
    using False by (simp add: read_step_def)
  note spec = part_done_spec [OF refl whole wf(1), of h packet]
  show thesis
  proof (cases "part_done h part buf packet")
    case (Inl e)
    then obtain rest1 where "bad_header e (partial h part buf @ rest1)" using spec by auto
    moreover have "8 \<le> length (partial h part buf)" using Inl whole by (cases part) simp_all
    ultimately show thesis using no_bad_header assms(2,3) by blast
  next
    case (Inr r)
    show thesis
    proof (cases r)
      case (Continues part' sz' buf')
      with turn Inr continues False show thesis by simp
    next
      case ReturnsFalse
      with spec Inr show thesis by simp
    next
      case (ReturnsTrue q)
      with spec Inr have "partial h part buf = wire q" "receivable q" by simp_all
      then have "q = p" using assms(2,3) wire_inject [of q p "pending w" rest] by (simp add: receivable_def)
      with turn Inr ReturnsTrue returns show thesis by simp
    qed
  qed
qed

end

section \<open>The way to the next packet\<close>

text \<open>
  As long as packets of \<open>ps\<close> are to be taken and the demuxer is not being destroyed, the flag is not
  set and the process goes on, when Hello is the first of them.
\<close>

definition healthy :: "com_packet list \<Rightarrow> ('cb, 'w) receiver \<Rightarrow> bool" where
  "healthy ps s \<longleftrightarrow> (rs_pc s = R_Handshake \<longrightarrow> rs_taken s = []) \<and>
     (length (rs_taken s) < length ps \<and> rs_dtor s = D_None \<longrightarrow>
        \<not> dmx_transportError (rs_demuxer s) \<and> rs_pc s \<noteq> R_Aborted \<and> rs_pc s \<noteq> R_Exited)"

definition taking_inv ::
    "host_order \<Rightarrow> ('w \<Rightarrow> byte list) \<Rightarrow> com_packet list \<Rightarrow> byte list \<Rightarrow> ('cb, 'w) receiver \<Rightarrow> bool" where
  "taking_inv h pending ps rest s \<longleftrightarrow> stream_inv h pending (concat (map wire ps) @ rest) s \<and> calls_inv s \<and>
     rs_at s \<noteq> Stuck \<and> healthy ps s"

definition taken_or_over :: "nat \<Rightarrow> ('cb, 'w) receiver \<Rightarrow> bool" where
  "taken_or_over n s \<longleftrightarrow> n < length (rs_taken s) \<or> rs_dtor s \<noteq> D_None"

fun receive_place :: "('cb, 'w) receiver \<Rightarrow> nat \<times> nat" where
  "receive_place s =
     (case rs_at s of
        Outside \<Rightarrow> (case rs_pc s of R_Dispatch \<Rightarrow> 7 | R_Handshake \<Rightarrow> 5 | R_Loop \<Rightarrow> 4 | _ \<Rightarrow> 0, 0)
      | Calling _ todo \<Rightarrow> (6, length todo)
      | Reading ReadType _ _ \<Rightarrow> (3, 0)
      | Reading (ReadSize _) _ _ \<Rightarrow> (2, 0)
      | Reading (ReadData _) _ _ \<Rightarrow> (1, 0)
      | Stuck \<Rightarrow> (0, 0))"

definition packet_distance ::
    "('w \<Rightarrow> byte list) \<Rightarrow> ('w \<Rightarrow> nat) \<Rightarrow> ('cb, 'w) receiver \<Rightarrow> nat \<times> nat \<times> (nat \<times> nat) \<times> nat" where
  "packet_distance pending lag s =
     (if rs_constructed s then 0 else 1, length (pending (rs_world s)), receive_place s, lag (rs_world s))"

abbreviation packet_order :: "((nat \<times> nat \<times> (nat \<times> nat) \<times> nat) \<times> nat \<times> nat \<times> (nat \<times> nat) \<times> nat) set" where
  "packet_order \<equiv> less_than <*lex*> less_than <*lex*> (less_than <*lex*> less_than) <*lex*> less_than"

lemma packet_distance_same:
  "rs_constructed s' = rs_constructed s \<Longrightarrow> rs_world s' = rs_world s \<Longrightarrow> rs_at s' = rs_at s \<Longrightarrow> rs_pc s' = rs_pc s \<Longrightarrow>
    packet_distance pending lag s' = packet_distance pending lag s"
  by (simp only: packet_distance_def receive_place.simps)

lemma packet_distance_differs:
  assumes "(packet_distance pending lag s', packet_distance pending lag s) \<in> packet_order"
    "rs_constructed s' = rs_constructed s"
  shows "(rs_at s', rs_pc s', rs_world s') \<noteq> (rs_at s, rs_pc s, rs_world s)"
proof -
  have "(x, x) \<notin> packet_order" for x by (cases x) auto
  with assms packet_distance_same [of s' s pending lag] show ?thesis by (metis Pair_inject)
qed

text \<open>What is to come before the next packet is taken.\<close>

lemma next_packet:
  assumes "stream_inv h pending (concat (map wire ps) @ rest) s" "healthy ps s" "length (rs_taken s) < length ps"
    "rs_dtor s = D_None" "\<forall>p \<in> set ps. receivable p"
  shows "\<exists>rest'. in_progress h s @ pending (rs_world s) = wire (ps ! length (rs_taken s)) @ rest'"
proof -
  let ?n = "length (rs_taken s)"
  have "concat (map wire (rs_taken s)) @ in_progress h s @ pending (rs_world s) = concat (map wire ps) @ rest"
    and "\<forall>p \<in> set (rs_taken s). receivable p"
    using assms(1-4) by (auto simp: healthy_def stream_inv_def simp del: in_progress.simps)
  moreover from this(2) have "\<forall>p \<in> set (rs_taken s) \<union> set ps. length (m_data p) < 2 ^ 32"
    using assms(5) by (fastforce simp: receivable_def)
  ultimately have "in_progress h s @ pending (rs_world s) = concat (map wire (drop ?n ps)) @ rest"
    using wire_take(2) [of "rs_taken s" _ ps rest] assms(3) by (simp del: in_progress.simps)
  also have "drop ?n ps = ps ! ?n # drop (Suc ?n) ps" using assms(3) by (simp add: Cons_nth_drop_Suc)
  finally show ?thesis by auto
qed

lemma taken_so_far:
  assumes "stream_inv h pending (concat (map wire ps) @ rest) s" "length ps \<le> length (rs_taken s)"
    "\<forall>p \<in> set ps. receivable p"
  shows "prefix ps (rs_taken s)"
proof -
  obtain junk where "concat (map wire (rs_taken s)) @ junk = concat (map wire ps) @ rest"
    and "\<forall>p \<in> set (rs_taken s). receivable p" using assms(1) by (auto simp: stream_inv_def)
  moreover from this(2) have "\<forall>p \<in> set ps \<union> set (rs_taken s). length (m_data p) < 2 ^ 32"
    using assms(3) by (fastforce simp: receivable_def)
  ultimately have "ps = take (length ps) (rs_taken s)"
    using wire_take(1) [of ps rest "rs_taken s" junk] assms(2) by simp
  then show ?thesis by (metis take_is_prefix)
qed

section \<open>Every step of the thread leads nearer\<close>

definition starts_with_Hello :: "com_packet list \<Rightarrow> bool" where
  "starts_with_Hello ps \<longleftrightarrow> ps = [] \<or> hd ps = control_packet Hello"

lemma check_hello_Hello: "\<exists>packet'. check_hello (control_packet Hello) d = Inr (packet', d)"
  by (simp add: check_hello_def getType_def ComPacket_move_def control_of_def)

context byte_source begin

lemma due_Reading:
  assumes "taking_inv h pending ps rest s" "length (rs_taken s) < length ps" "rs_dtor s = D_None"
    "\<forall>p \<in> set ps. receivable p" "rs_at s = Reading part sz buf"
  shows "(\<exists>part' sz' buf' w'. read_step h R part sz buf (rs_packet s) (dmx_transportError (rs_demuxer s)) (rs_world s) =
      Inr (Continues part' sz' buf', False, w')) \<and> (0 < sz \<longrightarrow> pending (rs_world s) \<noteq> []) \<or>
    read_step h R part sz buf (rs_packet s) (dmx_transportError (rs_demuxer s)) (rs_world s) =
      Inr (ReturnsTrue (ps ! length (rs_taken s)), False, rs_world s)"
proof -
  have inv: "stream_inv h pending (concat (map wire ps) @ rest) s" "healthy ps s"
    using assms(1) by (simp_all add: taking_inv_def)
  then have wf: "part_wf part sz buf" and quiet: "\<not> dmx_transportError (rs_demuxer s)"
    using assms(2,3,5) by (auto simp: stream_inv_def healthy_def)
  obtain rest' where "partial h part buf @ pending (rs_world s) = wire (ps ! length (rs_taken s)) @ rest'"
    using next_packet [OF inv assms(2-4)] assms(5) by auto
  from wf this show ?thesis
    by (rule due_turn [where packet = "rs_packet s"]) (use assms(2,4) quiet in auto)
qed

lemma healthy_step:
  assumes step: "fine_receive_step h R reenters s s'" and inv: "taking_inv h pending ps rest s"
    and "\<forall>p \<in> set ps. receivable p" "starts_with_Hello ps"
  shows "healthy ps s'"
proof -
  have healthy: "healthy ps s" and calls: "calls_inv s" using inv by (simp_all add: taking_inv_def)
  have due: "(\<exists>part' sz' buf' w'. read_step h R part sz buf (rs_packet s) (dmx_transportError (rs_demuxer s)) (rs_world s) =
      Inr (Continues part' sz' buf', False, w')) \<or>
    read_step h R part sz buf (rs_packet s) (dmx_transportError (rs_demuxer s)) (rs_world s) =
      Inr (ReturnsTrue (ps ! length (rs_taken s)), False, rs_world s)"
    if "rs_at s = Reading part sz buf" "length (rs_taken s) < length ps" "rs_dtor s = D_None" for part sz buf
    using due_Reading [OF inv that(2,3) assms(3) that(1)] by blast
  have first: "rs_pc s = R_Handshake \<Longrightarrow> length (rs_taken s) < length ps \<Longrightarrow> ps ! length (rs_taken s) = control_packet Hello"
    using assms(4) healthy by (cases ps) (auto simp: starts_with_Hello_def healthy_def)
  from step show ?thesis
  proof (cases rule: fine_receive_step.cases)
    case (gives_up part sz buf err w')
    with due [OF gives_up(2)] healthy show ?thesis by (auto simp: healthy_def)
  next
    case (greets part sz buf p err w' packet' d')
    show ?thesis
    proof (cases "length (rs_taken s) < length ps \<and> rs_dtor s = D_None")
      case True
      then have "p = control_packet Hello" using due [OF greets(2)] greets(3,4) first by auto
      with greets check_hello_Hello [of "rs_demuxer s"] healthy show ?thesis by (auto simp: healthy_def)
    next
      case False
      with greets show ?thesis by (auto simp: healthy_def)
    qed
  next
    case (fails part sz buf e)
    have "\<not> (length (rs_taken s) < length ps \<and> rs_dtor s = D_None)"
    proof
      assume busy: "length (rs_taken s) < length ps \<and> rs_dtor s = D_None"
      with due [OF fails(2)] fails(3) obtain p where p: "p = ps ! length (rs_taken s)" "rs_pc s = R_Handshake"
        "check_hello p (rs_demuxer s) = Inl e" by auto
      with first busy check_hello_Hello [of "rs_demuxer s"] show False by auto
    qed
    with fails show ?thesis by (auto simp: healthy_def)
  next
    case (uses c')
    then show ?thesis using client_step_error [OF uses(4) refl] healthy by (simp add: healthy_def rs_demuxer_def)
  next
    case destruction
    have "rs_dtor s' \<noteq> D_None" "rs_pc s' = rs_pc s \<or> rs_pc s' = R_Aborted" "rs_taken s' = rs_taken s"
      using destruction(1) dtor_step_frame [OF destruction(1)] by (auto elim!: dtor_step.cases)
    with healthy show ?thesis by (auto simp: healthy_def)
  qed (use healthy calls in \<open>auto simp: healthy_def calls_inv_def handleControlMessage_def set_subscribers_def split: if_splits\<close>)
qed

lemma taking_inv_step:
  assumes "fine_receive_step h R reenters s s'" "taking_inv h pending ps rest s" "\<forall>cb. \<not> reenters cb"
    "\<forall>p \<in> set ps. receivable p" "starts_with_Hello ps"
  shows "taking_inv h pending ps rest s'"
proof -
  have inv: "stream_inv h pending (concat (map wire ps) @ rest) s" "calls_inv s" "rs_at s \<noteq> Stuck"
    using assms(2) by (simp_all add: taking_inv_def)
  have "rs_at s' \<noteq> Stuck"
    using assms(1) by (cases rule: fine_receive_step.cases) (use inv(3) assms(3) in \<open>auto dest: dtor_step_at\<close>)
  then show ?thesis
    using healthy_step [OF assms(1,2,4,5)] fine_receive_step_inv [OF assms(1) inv(1)]
      fine_receive_step_calls_inv [OF assms(1) inv(2)] by (simp add: taking_inv_def)
qed

lemma fine_receiving_taking:
  assumes "fine_receiving h R reenters d0 w0 s" "PacketDemuxer_ctor names = Inr d0" "\<forall>cb. \<not> reenters cb"
    "\<forall>p \<in> set ps. receivable p" "starts_with_Hello ps" "pending w0 = concat (map wire ps) @ rest"
  shows "taking_inv h pending ps rest s"
  using assms(1)
proof (induction rule: fine_receiving.induct)
  case start
  have "\<not> dmx_transportError d0" using assms(2) by (auto simp: PacketDemuxer_ctor_def outcome_eqs)
  moreover have "stream_inv h pending (pending w0) (start_receiver d0 w0)"
    by (rule fine_receiving_inv [OF fine_receiving.start])
  moreover have "calls_inv (start_receiver d0 w0)"
    by (rule fine_receiving_calls_inv [OF fine_receiving.start])
  ultimately show ?case by (simp add: taking_inv_def healthy_def assms(6))
next
  case (step s s')
  then show ?case using taking_inv_step assms(3-5) by blast
qed

lemma waits_nearer:
  assumes "rs_at s = Outside" "rs_pc s = R_Handshake \<or> rs_pc s = R_Loop" "pending (rs_world s) \<noteq> []"
    and rdy: "rd_readyForReading R ms (rs_world s) = (ready, w')"
  shows "(packet_distance pending lag (if ready then s\<lparr>rs_world := w', rs_at := Reading ReadType 4 []\<rparr>
      else s\<lparr>rs_world := w', rs_pc := R_Loop\<rparr>), packet_distance pending lag s) \<in> packet_order"
  using assms(1,2) ready_pending [OF rdy] ready_progress [OF rdy assms(3)] by (auto simp: packet_distance_def)

lemma reads_nearer:
  assumes "rs_at s = Reading part sz buf" "\<not> dmx_transportError (rs_demuxer s)"
    and turn: "read_step h R part sz buf (rs_packet s) (dmx_transportError (rs_demuxer s)) (rs_world s) =
      Inr (Continues part' sz' buf', err, w')"
    and more: "0 < sz \<Longrightarrow> pending (rs_world s) \<noteq> []"
  shows "(packet_distance pending lag (s\<lparr>rs_world := w', rs_at := Reading part' sz' buf'\<rparr>),
    packet_distance pending lag s) \<in> packet_order"
proof (cases "0 < sz")
  case True
  obtain n bs w1 where rd: "rd_read R sz (rs_world s) = (n, bs, w1)" by (metis prod_cases3)
  have n: "0 \<le> n" and same: "part' = part" "w' = w1"
    using turn assms(2) True rd by (auto simp: read_step_def split: if_splits)
  have "pending (rs_world s) = bs @ pending w1" "length bs = nat n" using read_ok [OF rd n] by simp_all
  moreover have "0 < n \<or> lag w1 < lag (rs_world s)" using read_progress [OF rd more [OF True] True] .
  ultimately show ?thesis using same n assms(1) by (cases part) (auto simp: packet_distance_def)
next
  case False
  then have "part_done h part buf (rs_packet s) = Inr (Continues part' sz' buf')" "w' = rs_world s"
    using turn assms(2) by (auto simp: read_step_def outcome_eqs)
  then show ?thesis
    using assms(1) by (cases part) (auto simp: packet_distance_def outcome_eqs Let_def split: if_splits)
qed

lemma packet_step:
  assumes step: "fine_receive_step h R reenters s s'" and inv: "taking_inv h pending ps rest s"
    and "length (rs_taken s) < length ps" "rs_dtor s = D_None" "\<forall>p \<in> set ps. receivable p" "\<forall>cb. \<not> reenters cb"
  shows "length (rs_taken s) < length (rs_taken s') \<or> rs_dtor s' \<noteq> D_None \<or>
    (packet_distance pending lag s', packet_distance pending lag s) \<in> packet_order \<or>
    rs_at s' = rs_at s \<and> rs_pc s' = rs_pc s \<and> rs_world s' = rs_world s \<and> rs_constructed s' = rs_constructed s"
proof -
  have stream: "stream_inv h pending (concat (map wire ps) @ rest) s" "healthy ps s"
    and state: "calls_inv s" "\<not> dmx_transportError (rs_demuxer s)" "rs_pc s \<noteq> R_Aborted"
    using inv assms(3,4) by (auto simp: taking_inv_def healthy_def)
  note due = due_Reading [OF inv assms(3-5)]
  obtain rest' where next_p: "in_progress h s @ pending (rs_world s) = wire (ps ! length (rs_taken s)) @ rest'"
    using next_packet [OF stream assms(3-5)] by blast
  from step show ?thesis
  proof (cases rule: fine_receive_step.cases)
    case construction
    then show ?thesis by (simp add: packet_distance_def)
  next
    case (waits ms ready w')
    then have "pending (rs_world s) \<noteq> []" using next_p wire_not_Nil [of "ps ! length (rs_taken s)"] by auto
    moreover have "rs_pc s = R_Handshake \<or> rs_pc s = R_Loop" using waits(3) by blast
    ultimately show ?thesis using waits_nearer [OF waits(2) _ _ waits(4)] waits(1) by simp
  next
    case (reads part sz buf part' sz' buf' err w')
    have "0 < sz \<longrightarrow> pending (rs_world s) \<noteq> []" using due [OF reads(2)] reads(3) by auto
    with reads_nearer [OF reads(2) state(2) reads(3)] reads(1) show ?thesis by simp
  next
    case (gives_up part sz buf err w')
    with due [OF gives_up(2)] show ?thesis by auto
  next
    case (fails part sz buf e)
    with due [OF fails(2)] show ?thesis by (cases part) (auto simp: packet_distance_def)
  next
    case destruction
    then have "rs_dtor s' \<noteq> D_None" by (auto elim!: dtor_step.cases)
    then show ?thesis by blast
  qed (use state assms(6) in \<open>auto simp: packet_distance_def calls_inv_def\<close>)
qed

lemma receiver_can_go_on:
  assumes inv: "taking_inv h pending ps rest s"
    and "length (rs_taken s) < length ps" "rs_dtor s = D_None" "\<forall>p \<in> set ps. receivable p" "\<forall>cb. \<not> reenters cb"
  shows "\<exists>s'. receive_thread h R reenters s s'"
proof -
  have stream: "stream_inv h pending (concat (map wire ps) @ rest) s" "healthy ps s"
    and state: "calls_inv s" "rs_at s \<noteq> Stuck"
    and err: "\<not> dmx_transportError (rs_demuxer s)" and pc: "rs_pc s \<noteq> R_Aborted" "rs_pc s \<noteq> R_Exited"
    using inv assms(2,3) by (auto simp: taking_inv_def healthy_def)
  obtain rest' where next_p: "in_progress h s @ pending (rs_world s) = wire (ps ! length (rs_taken s)) @ rest'"
    using next_packet [OF stream assms(2-4)] by blast
  have go: "\<exists>s'. receive_thread h R reenters s s'"
    if "fine_receive_step h R reenters s s'" "rs_dtor s' = rs_dtor s" "rs_constructed s' = rs_constructed s"
      "rs_at s' \<noteq> rs_at s \<or> rs_pc s' \<noteq> rs_pc s \<and> rs_pc s' \<noteq> R_Aborted \<or>
       rs_pc s' \<noteq> R_Aborted \<and> (packet_distance pending lag s', packet_distance pending lag s) \<in> packet_order" for s'
  proof -
    have "\<not> dtor_step s s'"
    proof
      assume d: "dtor_step s s'"
      then have "rs_pc s' = R_Aborted" using that(2) by (auto elim!: dtor_step.cases dest: arg_cong [where f = rs_dtor])
      with that(4) dtor_step_at [OF d] show False by simp
    qed
    moreover have "(rs_at s', rs_pc s', rs_world s') \<noteq> (rs_at s, rs_pc s, rs_world s)"
      using that(4) packet_distance_differs [OF _ that(3), of pending lag] by blast
    ultimately show ?thesis using that(1,3) by (auto simp: receive_thread_def)
  qed
  show ?thesis
  proof (cases "rs_at s")
    case Outside
    note out = this
    consider "rs_pc s = R_Handshake \<or> rs_pc s = R_Loop" | "rs_pc s = R_Dispatch"
      using pc by (cases "rs_pc s") auto
    then show ?thesis
    proof cases
      case 1
      then obtain ms :: int where ms: "rs_pc s = R_Handshake \<and> ms = 2000 \<or>
        rs_pc s = R_Loop \<and> \<not> dmx_transportError (rs_demuxer s) \<and> ms = 1000" using err by auto
      obtain ready w' where rdy: "rd_readyForReading R ms (rs_world s) = (ready, w')" by fastforce
      have "pending (rs_world s) \<noteq> []" using next_p out wire_not_Nil [of "ps ! length (rs_taken s)"] by auto
      from go [OF fine_receive_step.waits [OF out ms rdy]] waits_nearer [OF out 1 this rdy]
      show ?thesis by (cases ready) (use out in simp_all)
    next
      case 2
      obtain sptr moved where mv: "ComPacket_move (rs_packet s) = (sptr, moved)" by fastforce
      show ?thesis
      proof (cases "getType (rs_packet s) = ControlPacket")
        case True
        from go [OF fine_receive_step.handles [OF out 2 True mv]] 2 show ?thesis by simp
      next
        case False
        from go [OF fine_receive_step.locks [OF out 2 False mv refl]] out show ?thesis by simp
      qed
    qed
  next
    case (Calling sptr todo)
    then have d: "rs_pc s = R_Dispatch" using state(1) by (auto simp: calls_inv_def)
    show ?thesis
    proof (cases todo)
      case Nil
      with Calling have at: "rs_at s = Calling sptr []" by simp
      from go [OF fine_receive_step.unlocks [OF at d]] at show ?thesis by simp
    next
      case (Cons x queue)
      with Calling have at: "rs_at s = Calling sptr (x # queue)" by simp
      from go [OF fine_receive_step.calls [OF at]] at assms(5) show ?thesis by simp
    qed
  next
    case (Reading part sz buf)
    note at = this
    have hl: "rs_pc s = R_Handshake \<or> rs_pc s = R_Loop" using state(1) at pc by (auto simp: calls_inv_def)
    let ?turn = "read_step h R part sz buf (rs_packet s) (dmx_transportError (rs_demuxer s)) (rs_world s)"
    from due_Reading [OF inv assms(2-4) at]
    consider (continues) part' sz' buf' w' where "?turn = Inr (Continues part' sz' buf', False, w')"
        "0 < sz \<longrightarrow> pending (rs_world s) \<noteq> []"
      | (returns) "?turn = Inr (ReturnsTrue (ps ! length (rs_taken s)), False, rs_world s)" by blast
    then show ?thesis
    proof cases
      case continues
      have "(packet_distance pending lag (s\<lparr>rs_world := w', rs_at := Reading part' sz' buf'\<rparr>),
          packet_distance pending lag s) \<in> packet_order"
        using continues(2) by (intro reads_nearer [OF at err continues(1)]) simp
      with go [OF fine_receive_step.reads [OF at continues(1)]] pc(1) show ?thesis by simp
    next
      case returns
      show ?thesis
      proof (cases "rs_pc s = R_Loop")
        case True
        from go [OF fine_receive_step.receives [OF at True returns]] at show ?thesis by simp
      next
        case False
        then have hs: "rs_pc s = R_Handshake" using hl by simp
        show ?thesis
        proof (cases "check_hello (ps ! length (rs_taken s)) (rs_demuxer s)")
          case (Inl e)
          with hs returns have "?turn = Inl e \<or> rs_pc s = R_Handshake \<and> (\<exists>p err w'.
              ?turn = Inr (ReturnsTrue p, err, w') \<and> check_hello p (rs_demuxer s) = Inl e)" by blast
          from go [OF fine_receive_step.fails [OF at this]] at show ?thesis by simp
        next
          case (Inr r')
          obtain packet' d' where c: "check_hello (ps ! length (rs_taken s)) (rs_demuxer s) = Inr (packet', d')"
            using Inr by (cases r') auto
          from go [OF fine_receive_step.greets [OF at hs returns c]] at show ?thesis by simp
        qed
      qed
    qed
  qed (use state(2) in simp)
qed

lemma takes_next:
  fixes reenters :: "'cb \<Rightarrow> bool"
  assumes "n < length ps" "\<forall>p \<in> set ps. receivable p" "starts_with_Hello ps" "\<forall>cb. \<not> reenters cb"
  shows "progress (fine_receive_step h R reenters) (only (receive_thread h R reenters))
    (\<lambda>s. taking_inv h pending ps rest s \<and> n \<le> length (rs_taken s)) (taken_or_over n)
    packet_order (packet_distance pending lag) (\<lambda>_. ())"
proof
  show "wf packet_order" by (intro wf_lex_prod wf_less_than)
next
  fix s s' :: "('cb, 'w) receiver"
  assume "fine_receive_step h R reenters s s'" "taking_inv h pending ps rest s \<and> n \<le> length (rs_taken s)"
  then show "taking_inv h pending ps rest s' \<and> n \<le> length (rs_taken s')"
    using taking_inv_step [OF _ _ assms(4,2,3)] fine_receive_step_taken by fastforce
next
  fix s :: "('cb, 'w) receiver"
  assume s: "taking_inv h pending ps rest s \<and> n \<le> length (rs_taken s)" "\<not> taken_or_over n s"
  then have due: "taking_inv h pending ps rest s" "length (rs_taken s) < length ps" "rs_dtor s = D_None"
    and n: "length (rs_taken s) = n" using assms(1) by (auto simp: taken_or_over_def)
  from receiver_can_go_on [OF due assms(2,4)] show "\<exists>s'. only (receive_thread h R reenters) () s s'"
    by (simp add: only_def)
  fix s' :: "('cb, 'w) receiver"
  show "taken_or_over n s' \<or> (packet_distance pending lag s', packet_distance pending lag s) \<in> packet_order"
    if "only (receive_thread h R reenters) () s s'"
    using packet_step [OF _ due assms(2,4), of s'] that n by (auto simp: only_def receive_thread_def taken_or_over_def)
  show "taken_or_over n s' \<or> (packet_distance pending lag s', packet_distance pending lag s) \<in> packet_order \<or>
      packet_distance pending lag s' = packet_distance pending lag s \<and> () = ()" if "fine_receive_step h R reenters s s'"
    using packet_step [OF that due assms(2,4)] packet_distance_same n by (auto simp: taken_or_over_def)
qed

text \<open>In every fair run all packets on the stream are taken, unless the demuxer is destroyed.\<close>

lemma fair_taking:
  assumes "run (fine_receive_step h R reenters) f" "weakly_fair (receive_thread h R reenters) f"
    and "fine_receiving h R reenters d0 w0 (f 0)" "PacketDemuxer_ctor names = Inr d0" "\<forall>cb. \<not> reenters cb"
    and "pending w0 = concat (map wire ps) @ rest" "\<forall>p \<in> set ps. receivable p" "starts_with_Hello ps"
    and alive: "\<And>j. rs_dtor (f j) = D_None"
  shows "\<exists>j. prefix ps (rs_taken (f j))"
proof -
  have inv: "taking_inv h pending ps rest (f i)" for i
    by (rule fine_receiving_taking [OF fine_receiving_run [OF assms(1,3)] assms(4,5,7,8,6)])
  have "\<exists>j. n \<le> length (rs_taken (f j))" if "n \<le> length ps" for n
    using that
  proof (induction n)
    case (Suc n)
    then obtain i where "n \<le> length (rs_taken (f i))" by auto
    with inv [of i] have "\<exists>j\<ge>i. taken_or_over n (f j)"
      using progress.eventually_goal [OF takes_next [of n ps reenters h rest] assms(1), of i] Suc.prems assms(2,5,7,8)
      by (simp add: only_def)
    then show ?case using alive by (auto simp: taken_or_over_def Suc_le_eq)
  qed simp
  then obtain j where "length ps \<le> length (rs_taken (f j))" by blast
  moreover have "stream_inv h pending (concat (map wire ps) @ rest) (f j)" using inv by (simp add: taking_inv_def)
  ultimately show ?thesis using taken_so_far [OF _ _ assms(7)] by blast
qed

end

section \<open>From post to receipt\<close>

text \<open>
  A fair run of the threads of a demuxer, which is not destroyed, at the end of a stream that starts
  with the bytes given.
\<close>

definition receives_fairly ::
    "host_order \<Rightarrow> 'w abstract_reader \<Rightarrow> ('cb \<Rightarrow> bool) \<Rightarrow> ('w \<Rightarrow> byte list) \<Rightarrow> byte list \<Rightarrow>
      (nat \<Rightarrow> ('cb, 'w) receiver) \<Rightarrow> bool" where
  "receives_fairly h R reenters pending bytes g \<longleftrightarrow>
     run (fine_receive_step h R reenters) g \<and> weakly_fair (receive_thread h R reenters) g \<and>
     (\<forall>j. rs_dtor (g j) = D_None) \<and>
     (\<exists>names d0 v0. PacketDemuxer_ctor names = Inr d0 \<and> fine_receiving h R reenters d0 v0 (g 0) \<and>
        prefix bytes (pending v0))"

lemma of_type_prefix: "prefix ps qs \<Longrightarrow> prefix (of_type t ps) (of_type t qs)"
  by (auto simp: prefix_def)

lemma fair_delivery:
  assumes "source_contract R pending lag" "receives_fairly h R reenters pending (concat (map wire ps)) g"
    and "\<forall>p \<in> set ps. receivable p" "starts_with_Hello ps" "\<forall>cb. \<not> reenters cb"
  shows "\<exists>k. prefix ps (rs_taken (g k))"
proof -
  obtain names d0 v0 rest where g: "PacketDemuxer_ctor names = Inr d0" "fine_receiving h R reenters d0 v0 (g 0)"
    "pending v0 = concat (map wire ps) @ rest" "run (fine_receive_step h R reenters) g"
    "weakly_fair (receive_thread h R reenters) g" "\<And>j. rs_dtor (g j) = D_None"
    using assms(2) by (auto simp: receives_fairly_def prefix_def)
  from byte_source.fair_taking [OF byte_sourceI [OF assms(1)] g(4,5,2,1) assms(5) g(3) assms(3,4) g(6)]
  show ?thesis .
qed

text \<open>Such runs exist for every stream.\<close>

lemma receive_thread_dtor:
  assumes "receive_thread h R reenters s s'"
  shows "rs_dtor s' = rs_dtor s"
proof -
  have "fine_receive_step h R reenters s s'" using assms by (simp add: receive_thread_def)
  then show ?thesis
    by (cases rule: fine_receive_step.cases) (use assms in \<open>auto simp: receive_thread_def\<close>)
qed

lemma receives_fairly_exists:
  assumes "PacketDemuxer_ctor names = Inr d0" "fine_receiving h R reenters d0 v0 s" "rs_dtor s = D_None"
  shows "\<exists>g. g 0 = s \<and> run (receive_thread h R reenters) g \<and> receives_fairly h R reenters pending (pending v0) g"
proof -
  obtain g where g: "g 0 = s" "run (receive_thread h R reenters) g" "weakly_fair (receive_thread h R reenters) g"
    using fair_only_exists [of s "receive_thread h R reenters"] by blast
  have "run (fine_receive_step h R reenters) g" using g(2) by (rule run_mono) (simp add: receive_thread_def)
  moreover have "rs_dtor (g j) = D_None" for j
    using run_invariant [OF g(2), of "\<lambda>s. rs_dtor s = D_None" 0 j] receive_thread_dtor g(1) assms(3) by fastforce
  moreover have "fine_receiving h R reenters d0 v0 (g 0)" using assms(2) g(1) by simp
  ultimately show ?thesis using g assms(1) unfolding receives_fairly_def by blast
qed

section \<open>From the stream to the callbacks\<close>

text \<open>The packet \<open>p\<close> is being dispatched, or the callback of \<open>x\<close> has been called for it.\<close>

definition called_for :: "'cb packet_subscriber \<Rightarrow> com_packet \<Rightarrow> ('cb, 'w) receiver \<Rightarrow> bool" where
  "called_for x p s \<longleftrightarrow> (sub_callback x, p) \<in> set (rs_calls s)"

definition dispatching :: "'cb packet_subscriber \<Rightarrow> com_packet \<Rightarrow> ('cb, 'w) receiver \<Rightarrow> bool" where
  "dispatching x p s \<longleftrightarrow> calls_inv s \<and> rs_pc s = R_Dispatch \<and>
     (rs_at s = Outside \<and> rs_packet s = p \<or>
      (\<exists>todo. rs_at s = Calling p todo \<and> (x \<in> set todo \<or> called_for x p s)))"

fun dispatch_distance :: "('cb, 'w) receiver \<Rightarrow> nat \<times> nat" where
  "dispatch_distance s = (case rs_at s of Calling _ todo \<Rightarrow> (0, length todo) | _ \<Rightarrow> (1, 0))"

lemma dispatch_step:
  assumes step: "fine_receive_step h R reenters s s'" and inv: "dispatching x p s" and "\<not> called_for x p s"
    "x \<in> set (subscribers (rs_demuxer s) (m_type p))" "m_type p \<noteq> ControlPacket" "\<forall>cb. \<not> reenters cb" "rs_dtor s = D_None"
  shows "called_for x p s' \<or> dispatching x p s' \<and>
    ((dispatch_distance s', dispatch_distance s) \<in> less_than <*lex*> less_than \<or>
      rs_at s' = rs_at s \<and> rs_pc s' = rs_pc s \<and> rs_packet s' = rs_packet s \<and>
      (rs_world s' = rs_world s \<or> rs_constructed s' \<noteq> rs_constructed s))"
proof -
  have calls': "calls_inv s'" using fine_receive_step_calls_inv [OF step] inv by (simp add: dispatching_def)
  have at: "rs_pc s = R_Dispatch" "rs_at s = Outside \<and> rs_packet s = p \<or> (\<exists>todo. rs_at s = Calling p todo \<and> x \<in> set todo)"
    using inv assms(3) by (auto simp: dispatching_def)
  from step show ?thesis
  proof (cases rule: fine_receive_step.cases)
    case (locks sptr moved queue)
    with at assms(4) calls' show ?thesis
      by (auto simp: dispatching_def ComPacket_move_def getType_def)
  next
    case (calls sptr y queue)
    with at assms(6) calls' show ?thesis by (auto simp: dispatching_def called_for_def)
  next
    case (handles sptr moved)
    with at assms(5) show ?thesis by (auto simp: getType_def)
  next
    case destruction
    with assms(7) show ?thesis by (auto elim!: dtor_step.cases)
  qed (use at calls' assms(3) in \<open>auto simp: dispatching_def called_for_def\<close>)
qed

lemma dispatch_enabled:
  assumes "dispatching x p s" "\<not> called_for x p s" "m_type p \<noteq> ControlPacket" "\<forall>cb. \<not> reenters cb" "rs_dtor s = D_None"
  shows "\<exists>s'. receive_thread h R reenters s s'"
proof -
  have no_dtor: "\<not> dtor_step s s'" for s' using assms(5) by (auto elim!: dtor_step.cases)
  have pc: "rs_pc s = R_Dispatch" using assms(1) by (simp add: dispatching_def)
  consider (out) "rs_at s = Outside" "rs_packet s = p" | (calling) y queue where "rs_at s = Calling p (y # queue)"
    using assms(1,2) by (auto simp: dispatching_def neq_Nil_conv elim: list.set_cases)
  then show ?thesis
  proof cases
    case out
    obtain sptr moved where mv: "ComPacket_move (rs_packet s) = (sptr, moved)" by fastforce
    have "getType (rs_packet s) \<noteq> ControlPacket" using assms(3) out(2) by (simp add: getType_def)
    from fine_receive_step.locks [OF out(1) pc this mv refl] no_dtor out show ?thesis
      by (fastforce simp: receive_thread_def)
  next
    case calling
    from fine_receive_step.calls [OF this] no_dtor calling assms(4) show ?thesis
      by (fastforce simp: receive_thread_def)
  qed
qed

lemma called_for_step:
  assumes "fine_receive_step h R reenters s s'" "called_for x p s"
  shows "called_for x p s'"
  using assms
proof (cases rule: fine_receive_step.cases)
  case destruction
  with assms(2) dtor_step_frame(3) show ?thesis by (metis called_for_def)
qed (auto simp: called_for_def)

definition subscribed_to :: "'cb packet_subscriber \<Rightarrow> u32 \<Rightarrow> ('cb, 'w) receiver \<Rightarrow> bool" where
  "subscribed_to x t s \<longleftrightarrow> rs_dtor s = D_None \<and> x \<in> set (subscribers (rs_demuxer s) t)"

lemma dispatch_progress:
  fixes reenters :: "'cb \<Rightarrow> bool" and R :: "'w abstract_reader"
  assumes "m_type p \<noteq> ControlPacket" "\<forall>cb. \<not> reenters cb"
  shows "progress (\<lambda>s s'. fine_receive_step h R reenters s s' \<and> subscribed_to x (m_type p) s')
    (only (receive_thread h R reenters))
    (\<lambda>s. (called_for x p s \<or> dispatching x p s) \<and> subscribed_to x (m_type p) s) (called_for x p)
    (less_than <*lex*> less_than) dispatch_distance (\<lambda>_. ())"
proof
  show "wf (less_than <*lex*> less_than :: ((nat \<times> nat) \<times> nat \<times> nat) set)" by (simp add: wf_lex_prod)
next
  fix s s' :: "('cb, 'w) receiver"
  assume "fine_receive_step h R reenters s s' \<and> subscribed_to x (m_type p) s'"
    "(called_for x p s \<or> dispatching x p s) \<and> subscribed_to x (m_type p) s"
  then show "(called_for x p s' \<or> dispatching x p s') \<and> subscribed_to x (m_type p) s'"
    using called_for_step [of h R reenters s s' x p] dispatch_step [of h R reenters s s' x p] assms
    by (auto simp: subscribed_to_def)
next
  fix s :: "('cb, 'w) receiver"
  assume s: "(called_for x p s \<or> dispatching x p s) \<and> subscribed_to x (m_type p) s" "\<not> called_for x p s"
  then have due: "dispatching x p s" "x \<in> set (subscribers (rs_demuxer s) (m_type p))" "rs_dtor s = D_None"
    by (simp_all add: subscribed_to_def)
  from dispatch_enabled [OF due(1) s(2) assms due(3)]
  show "\<exists>s'. only (receive_thread h R reenters) () s s'" by (simp add: only_def)
  fix s' :: "('cb, 'w) receiver"
  note step = dispatch_step [OF _ due(1) s(2) due(2) assms due(3), of h R s']
  show "called_for x p s' \<or> (dispatch_distance s', dispatch_distance s) \<in> less_than <*lex*> less_than"
    if "only (receive_thread h R reenters) () s s'"
    using step that by (auto simp: only_def receive_thread_def simp del: dispatch_distance.simps)
  show "called_for x p s' \<or> (dispatch_distance s', dispatch_distance s) \<in> less_than <*lex*> less_than \<or>
      dispatch_distance s' = dispatch_distance s \<and> () = ()"
    if "fine_receive_step h R reenters s s' \<and> subscribed_to x (m_type p) s'"
    using step that by auto
qed

text \<open>The step that takes a packet in the loop leads to its dispatch.\<close>

lemma takes_to_dispatch:
  assumes "fine_receive_step h R reenters s s'" "calls_inv s" "length (rs_taken s) < length (rs_taken s')"
    "rs_pc s \<noteq> R_Handshake"
  shows "dispatching x (last (rs_taken s')) s'"
proof -
  have "calls_inv s'" using fine_receive_step_calls_inv [OF assms(1,2)] .
  from assms(1) show ?thesis
  proof (cases rule: fine_receive_step.cases)
    case destruction
    with dtor_step_frame(2) assms(3) show ?thesis by fastforce
  qed (use assms(3,4) \<open>calls_inv s'\<close> in \<open>auto simp: dispatching_def split: if_splits\<close>)
qed

text \<open>The moment at which a packet is taken.\<close>

lemma first_taken:
  assumes "run (fine_receive_step h R reenters) g" "length (rs_taken (g 0)) \<le> n" "n < length (rs_taken (g k))"
  obtains j where "length (rs_taken (g j)) = n" "length (rs_taken (g (Suc j))) = Suc n"
    "fine_receive_step h R reenters (g j) (g (Suc j))"
proof -
  define m where "m = (LEAST m. n < length (rs_taken (g m)))"
  have m: "n < length (rs_taken (g m))" unfolding m_def by (rule LeastI [of _ k]) (rule assms(3))
  then obtain j where j: "m = Suc j" using assms(2) by (cases m) auto
  have before: "length (rs_taken (g j)) \<le> n"
    using not_less_Least [of j "\<lambda>m. n < length (rs_taken (g m))"] j by (simp add: m_def not_less)
  have "fine_receive_step h R reenters (g j) (g (Suc j)) \<or> g (Suc j) = g j" using assms(1) by (simp add: run_def)
  then have step: "fine_receive_step h R reenters (g j) (g (Suc j))" using m before j by auto
  obtain ps where "rs_taken (g (Suc j)) = rs_taken (g j) @ ps" "length ps \<le> 1"
    using fine_receive_step_taken [OF step] by blast
  then have "length (rs_taken (g j)) = n" "length (rs_taken (g (Suc j))) = Suc n" using m before j by auto
  with step that show thesis by blast
qed

lemma fair_calls:
  assumes "source_contract R pending lag" "receives_fairly h R reenters pending (concat (map wire ps)) g"
    and "\<forall>p \<in> set ps. receivable p" "starts_with_Hello ps" "\<forall>cb. \<not> reenters cb"
    and n: "0 < n" "n < length ps" "length (rs_taken (g 0)) \<le> n" "m_type (ps ! n) \<noteq> ControlPacket"
    and subscribed: "\<And>j. x \<in> set (subscribers (rs_demuxer (g j)) (m_type (ps ! n)))"
  shows "\<exists>k. called_for x (ps ! n) (g k)"
proof -
  obtain names d0 v0 rest where g: "PacketDemuxer_ctor names = Inr d0" "fine_receiving h R reenters d0 v0 (g 0)"
    "pending v0 = concat (map wire ps) @ rest" "run (fine_receive_step h R reenters) g"
    "weakly_fair (receive_thread h R reenters) g" "\<And>j. rs_dtor (g j) = D_None"
    using assms(2) by (auto simp: receives_fairly_def prefix_def)
  note at = fine_receiving_run [OF g(4,2)]
  have inv: "taking_inv h pending ps rest (g j)" for j
    by (rule byte_source.fine_receiving_taking [OF byte_sourceI [OF assms(1)] at g(1) assms(5,3,4) g(3)])
  obtain k where k: "prefix ps (rs_taken (g k))" using fair_delivery [OF assms(1-5)] by blast
  then have "n < length (rs_taken (g k))" using n(2) by (meson less_le_trans prefix_length_le)
  with g(4) n(3) obtain j where j: "length (rs_taken (g j)) = n" "length (rs_taken (g (Suc j))) = Suc n"
    "fine_receive_step h R reenters (g j) (g (Suc j))" by (rule first_taken)
  have "stream_inv h pending (concat (map wire (take (Suc n) ps)) @ (concat (map wire (drop (Suc n) ps)) @ rest)) (g (Suc j))"
    using inv [of "Suc j"] by (simp add: taking_inv_def flip: concat_append map_append append_assoc)
  moreover have "\<forall>p \<in> set (take (Suc n) ps). receivable p" using assms(3) by (meson in_set_takeD)
  ultimately have "prefix (take (Suc n) ps) (rs_taken (g (Suc j)))"
    using j(2) n(2) by (intro taken_so_far) simp_all
  then have "rs_taken (g (Suc j)) = take (Suc n) ps" using j(2) n(2) by (auto simp: prefix_def)
  then have last: "last (rs_taken (g (Suc j))) = ps ! n" using n(2) by (simp add: take_Suc_conv_app_nth)
  have "rs_pc (g j) \<noteq> R_Handshake" using inv [of j] j(1) n(1) by (auto simp: taking_inv_def healthy_def)
  then have "dispatching x (ps ! n) (g (Suc j))"
    using takes_to_dispatch [OF j(3), of x] inv [of j] j(1,2) last by (simp add: taking_inv_def)
  moreover have sub: "subscribed_to x (m_type (ps ! n)) (g i)" for i using g(6) subscribed by (simp add: subscribed_to_def)
  moreover have "run (\<lambda>s s'. fine_receive_step h R reenters s s' \<and> subscribed_to x (m_type (ps ! n)) s') g"
    using g(4) sub by (auto simp: run_def)
  from progress.eventually_goal [OF dispatch_progress [OF n(4) assms(5)] this, of "Suc j"]
  have "(called_for x (ps ! n) (g (Suc j)) \<or> dispatching x (ps ! n) (g (Suc j))) \<and>
      subscribed_to x (m_type (ps ! n)) (g (Suc j)) \<Longrightarrow> \<exists>k\<ge>Suc j. called_for x (ps ! n) (g k)"
    using g(5) by (simp add: only_def)
  ultimately show ?thesis by blast
qed

text \<open>The thread leaves the subscribers alone.\<close>

lemma receive_thread_subscribers:
  assumes "receive_thread h R reenters s s'"
  shows "subscribers (rs_demuxer s') = subscribers (rs_demuxer s)"
proof -
  have "fine_receive_step h R reenters s s'" "\<not> dtor_step s s'" using assms by (simp_all add: receive_thread_def)
  then show ?thesis
  proof (cases rule: fine_receive_step.cases)
    case (greets part sz buf p err w' packet' d')
    with check_hello_service [OF greets(5)] show ?thesis by auto
  next
    case (uses c')
    with assms show ?thesis by (simp add: receive_thread_def)
  qed (auto simp: handleControlMessage_def set_subscribers_same)
qed

end
