(* ===== verification/TestSockets.thy ===== *)
theory TestSockets
  imports Example_Run
begin

text \<open>
  The mock sockets of the unit tests (tests/MockSockets.h), as transports of the muxer and the
  demuxer, and what the tests of the two classes in tests/test.cpp check, for every run.
\<close>

lemma be32_not_Nil [simp]: "be32 x \<noteq> []" "[] \<noteq> be32 x"
  by (simp_all add: be32_def)

section \<open>AlwaysFailSocket\<close>

definition AlwaysFailSocket_writer :: "'w abstract_writer" where
  "AlwaysFailSocket_writer = \<lparr>wr_setBlocking = \<lambda>_ w. w, wr_write = \<lambda>_ w. (-1, w)\<rparr>"

definition AlwaysFailSocket_reader :: "'w abstract_reader" where
  "AlwaysFailSocket_reader =
     \<lparr>rd_setBlocking = \<lambda>_ w. w, rd_read = \<lambda>_ w. (-1, [], w), rd_readyForReading = \<lambda>_ w. (True, w)\<rparr>"

lemma AlwaysFailSocket_simps [simp]:
  "wr_setBlocking AlwaysFailSocket_writer b w = w" "wr_write AlwaysFailSocket_writer data w = (-1, w)"
  "rd_setBlocking AlwaysFailSocket_reader b w = w" "rd_read AlwaysFailSocket_reader sz w = (-1, [], w)"
  "rd_readyForReading AlwaysFailSocket_reader ms w = (True, w)"
  by (simp_all add: AlwaysFailSocket_writer_def AlwaysFailSocket_reader_def)

interpretation always_fail: byte_writer AlwaysFailSocket_writer "\<lambda>_. []"
  by unfold_locales (simp add: writer_contract_def)

interpretation always_fail_reader: byte_reader AlwaysFailSocket_reader "\<lambda>_. []"
  by unfold_locales (simp add: reader_contract_def)

text \<open>TestDemuxerExitsCleanly: the receive thread returns by itself, with the flag set.\<close>

lemma TestDemuxerExitsCleanly:
  assumes "\<not> dmx_transportError d"
  shows "receiveLoop h AlwaysFailSocket_reader (\<lambda>_. False) d w = Some (Inr ([], signalTransportError d, w))"
  using assms
  by (simp add: receiveLoop_def receiveHelloMessage_def receivePacket_def readUint32_def readBytes.simps
      receiveWhile.simps signalTransportError_def)

text \<open>
  TestPacketMuxerExitsCleanly: at most one packet is taken off the queues, and then the flag is
  set; nothing else is ever sent.
\<close>

definition fail_inv :: "'w sender \<Rightarrow> bool" where
  "fail_inv s \<longleftrightarrow> length (transmitted s) \<le> 1 \<and> (transmitted s \<noteq> [] \<longrightarrow> mux_transportError (mux s)) \<and>
     (\<forall>t ts buf bufs. in_pass s = Some (Writing t ts buf bufs True) \<longrightarrow> buf \<noteq> [])"

lemma fail_step:
  assumes "fine_send_step h AlwaysFailSocket_writer s s'" "fine_inv sent out s" "fail_inv s"
  shows "fail_inv s'"
  using assms
proof (induction rule: fine_send_step.induct)
  case (outside s s')
  have "in_pass s' = in_pass s" using muxer_step_in_pass [OF outside.hyps(1)] by (cases s; cases s') simp
  moreover have "transmitted s' = transmitted s" using muxer_step_history [OF outside.hyps(1)] by simp
  ultimately show ?case using outside.prems muxer_step_error(1) [OF outside.hyps(1)] by (auto simp: fail_inv_def)
next
  case (begins s m1 ctl ts)
  then show ?case using begins_pass_error [OF begins.hyps(2)] by (auto simp: fail_inv_def)
next
  case (inside s ps ps' m' w' new)
  have "ps \<noteq> Writing t ts [] [] True" for t ts using inside by (auto simp: fail_inv_def)
  moreover have "case ps of Writing t ts buf bufs ok \<Rightarrow> transmitted s = [] | _ \<Rightarrow> True"
    using inside by (auto simp: fail_inv_def fine_inv_def pass_ok_def split: pass_state.split)
  ultimately show ?case
    using inside
    by (cases rule: pass_step.cases [of "(h, AlwaysFailSocket_writer, ps, mux s, world s)"])
      (auto simp: fail_inv_def split: list.splits if_splits)
next
  case (inside_aborts s ps e)
  then show ?case by (auto simp: fail_inv_def)
qed

lemma TestPacketMuxerExitsCleanly_history:
  assumes "fine_sending h AlwaysFailSocket_writer m0 w0 s" "PacketMuxer_ctor names = Inr m0" "length names + 2 \<le> 2 ^ 32"
  shows "length (transmitted s) \<le> 1 \<and> (transmitted s \<noteq> [] \<longrightarrow> \<not> mux_ok (mux s))"
proof -
  have "fail_inv s"
    using assms(1)
  proof (induction rule: fine_sending.induct)
    case start
    show ?case by (simp add: fail_inv_def start_sending_def)
  next
    case (step s s')
    from fail_step [OF step.hyps(2) always_fail.fine_sending_inv [OF step.hyps(1) assms(2,3)] step.IH] show ?case .
  qed
  then show ?thesis by (simp add: fail_inv_def mux_ok_def)
qed

section \<open>MuxerTestSocket\<close>

text \<open>
  The socket of TestPacketMuxer checks that the muxer makes three writes for a packet, for its type,
  its size and its data. \<open>checks\<close> is the conjunction of the \<open>BOOST_CHECK\<close>s made so far; \<open>accepted\<close> is a
  history variable: the bytes it has said to have sent. The numbers compared are an \<open>int\<close> that is
  not negative and unsigned ones.
\<close>

datatype expected = ExpectType | ExpectSize | ExpectPayload

record muxer_test_socket =
  m_testPayloadSize :: int
  m_totalBytes :: int
  m_expected :: expected
  m_lastType :: u32
  checks :: bool
  accepted :: "byte list"

definition checkType :: "host_order \<Rightarrow> byte list \<Rightarrow> muxer_test_socket \<Rightarrow> muxer_test_socket" where
  "checkType h data k =
     k\<lparr>checks := checks k \<and> length data = 4, m_lastType := ntohl h (load32 h data)\<rparr>"

definition checkSize :: "host_order \<Rightarrow> byte list \<Rightarrow> muxer_test_socket \<Rightarrow> muxer_test_socket" where
  "checkSize h data k =
     k\<lparr>checks := checks k \<and> length data = 4 \<and>
       (1 < m_lastType k \<longrightarrow> m_testPayloadSize k = uint (ntohl h (load32 h data)))\<rparr>"

definition checkPayload :: "byte list \<Rightarrow> muxer_test_socket \<Rightarrow> muxer_test_socket" where
  "checkPayload data k =
     k\<lparr>checks := checks k \<and> (1 < m_lastType k \<longrightarrow> m_testPayloadSize k = int (length data))\<rparr>"

definition MuxerTestSocket_write :: "host_order \<Rightarrow> byte list \<Rightarrow> muxer_test_socket \<Rightarrow> int \<times> muxer_test_socket" where
  "MuxerTestSocket_write h data k =
     (let k1 = (case m_expected k of
                  ExpectType \<Rightarrow> (checkType h data k)\<lparr>m_expected := ExpectSize\<rparr>
                | ExpectSize \<Rightarrow> (checkSize h data k)\<lparr>m_expected := ExpectPayload\<rparr>
                | ExpectPayload \<Rightarrow> (checkPayload data k)\<lparr>m_expected := ExpectType\<rparr>);
          n = to_int32 (int (length data))
      in (n, k1\<lparr>m_totalBytes := to_int32 (m_totalBytes k1 + int (length data)),
               accepted := accepted k1 @ take (nat n) data\<rparr>))"

definition MuxerTestSocket_writer :: "host_order \<Rightarrow> muxer_test_socket abstract_writer" where
  "MuxerTestSocket_writer h = \<lparr>wr_setBlocking = \<lambda>_ k. k, wr_write = MuxerTestSocket_write h\<rparr>"

definition MuxerTestSocket_ctor :: "int \<Rightarrow> u32 \<Rightarrow> muxer_test_socket" where
  "MuxerTestSocket_ctor testPayloadSize uninitialised =
     \<lparr>m_testPayloadSize = testPayloadSize, m_totalBytes = 0, m_expected = ExpectType, m_lastType = uninitialised,
      checks = True, accepted = []\<rparr>"

lemma to_int32_le: "0 \<le> i \<Longrightarrow> to_int32 i \<le> i"
  unfolding to_int32_def by (simp add: signed_of_int signed_take_bit_int_less_eq_self_iff)

lemma MuxerTestSocket_writes: "writer_contract (MuxerTestSocket_writer h) accepted"
  by (auto simp: writer_contract_def MuxerTestSocket_writer_def MuxerTestSocket_write_def Let_def to_int32_le
      checkType_def checkSize_def checkPayload_def split: expected.splits)

interpretation muxer_test: byte_writer "MuxerTestSocket_writer h" accepted for h
  by (rule byte_writer.intro [OF MuxerTestSocket_writes])

section \<open>TestPacketMuxer\<close>

text \<open>The packets of the test: of the size that the socket expects, but for control packets.\<close>

definition test_packet :: "int \<Rightarrow> com_packet \<Rightarrow> bool" where
  "test_packet n p \<longleftrightarrow> m_data p \<noteq> [] \<and> length (m_data p) < 2 ^ 31 \<and> (1 < m_type p \<longrightarrow> int (length (m_data p)) = n)"

text \<open>Where the socket is while \<open>sendPacket\<close> runs: what is left to write is what it expects.\<close>

fun at_write :: "com_packet \<Rightarrow> byte list \<Rightarrow> byte list list \<Rightarrow> muxer_test_socket \<Rightarrow> bool" where
  "at_write p buf [sz, data] k \<longleftrightarrow> sz = be32 (ucast (getDataSize p)) \<and> data = m_data p \<and>
     (buf = be32 (m_type p) \<and> m_expected k = ExpectType \<or>
      buf = [] \<and> m_expected k = ExpectSize \<and> m_lastType k = m_type p)"
| "at_write p buf [data] k \<longleftrightarrow> data = m_data p \<and> m_lastType k = m_type p \<and>
     (buf = be32 (ucast (getDataSize p)) \<and> m_expected k = ExpectSize \<or> buf = [] \<and> m_expected k = ExpectPayload)"
| "at_write p buf [] k \<longleftrightarrow>
     buf = m_data p \<and> m_expected k = ExpectPayload \<and> m_lastType k = m_type p \<or> buf = [] \<and> m_expected k = ExpectType"
| "at_write p buf _ k \<longleftrightarrow> False"

definition test_inv :: "int \<Rightarrow> muxer_test_socket sender \<Rightarrow> bool" where
  "test_inv n s \<longleftrightarrow> checks (world s) \<and> m_testPayloadSize (world s) = n \<and>
     (case in_pass s of
        Some (Writing t ts buf bufs ok) \<Rightarrow> ok \<and> (\<exists>p q. txQueue (mux s) t = p # q \<and> at_write p buf bufs (world s))
      | _ \<Rightarrow> m_expected (world s) = ExpectType)"

lemma size_word:
  assumes "length (m_data p) < 2 ^ 31"
  shows "uint (ucast (getDataSize p) :: u32) = int (length (m_data p))"
proof -
  have "unat (ucast (getDataSize p) :: u32) = length (m_data p)"
    using assms by (simp add: getDataSize_def unsigned_ucast_eq unat_of_nat take_bit_eq_mod)
  then show ?thesis by (simp add: uint_nat)
qed

text \<open>One write of the muxer passes the check that the socket makes.\<close>

lemma test_write:
  assumes "at_write p buf bufs k" "buf \<noteq> []" "checks k" "test_packet (m_testPayloadSize k) p"
  shows "\<exists>k'. MuxerTestSocket_write h buf k = (int (length buf), k') \<and> at_write p [] bufs k' \<and> checks k' \<and>
    m_testPayloadSize k' = m_testPayloadSize k"
proof -
  have len: "length (m_data p) < 2 ^ 31" and data: "m_data p \<noteq> []" using assms(4) by (simp_all add: test_packet_def)
  from assms(1) show ?thesis
    by (cases rule: at_write.cases [of "(p, buf, bufs, k)"])
      (use assms(2-4) len data size_word [OF len] in
        \<open>auto simp: MuxerTestSocket_write_def checkType_def checkSize_def checkPayload_def Let_def test_packet_def\<close>)
qed

lemma queued_posted:
  assumes "queues_inv m ps ts" "p \<in> set (txQueue m t)"
  shows "p \<in> set ps"
proof -
  have "of_type t ps = of_type t ts @ txQueue m t" using assms(1) by (simp add: queues_inv_def)
  then have "p \<in> set (of_type t ps)" using assms(2) by simp
  then show ?thesis by (simp add: of_type_def)
qed

lemma test_step:
  assumes "fine_send_step h (MuxerTestSocket_writer h) s s'" "fine_inv accepted out s" "test_inv n s"
    "\<forall>p \<in> set (posted s). test_packet n p"
  shows "test_inv n s'"
  using assms
proof (induction rule: fine_send_step.induct)
  case (outside s s')
  have same: "in_pass s' = in_pass s" using muxer_step_in_pass [OF outside.hyps(1)] by (cases s; cases s') simp
  have world: "world s' = world s"
    using outside.hyps(1) by (induction rule: muxer_step.induct) (simp_all add: MuxerTestSocket_writer_def)
  show ?case
  proof (cases "in_pass s")
    case None
    with outside.prems(2) same world show ?thesis by (simp add: test_inv_def)
  next
    case (Some ps)
    with outside have "pc s = Locked" "pc s' = Locked" by (auto simp: fine_inv_def pass_ok_def)
    from muxer_step_Locked [OF outside.hyps(1) this] have mux: "mux s' = mux s" by simp
    from outside.prems(2) show ?thesis unfolding test_inv_def same world mux .
  qed
next
  case (begins s m1 ctl ts)
  then show ?case by (simp add: test_inv_def)
next
  case (inside s ps ps' m' w' new)
  have queued: "test_packet n p" if "p \<in> set (txQueue (mux s) t)" for p t
    using queued_posted [OF _ that] inside.prems(1,3) by (auto simp: fine_inv_def)
  show ?case
  proof (cases rule: pass_step.cases [of "(h, MuxerTestSocket_writer h, ps, mux s, world s)"])
    case (6 h' W' t ts b buf bufs ok m w)
    obtain p q where p: "txQueue (mux s) t = p # q" "at_write p (b # buf) bufs (world s)" "ok"
      and k: "checks (world s)" "m_testPayloadSize (world s) = n"
      using inside 6 by (auto simp: test_inv_def)
    obtain k' where k': "MuxerTestSocket_write h (b # buf) (world s) = (int (length (b # buf)), k')"
      "at_write p [] bufs k'" "checks k'" "m_testPayloadSize k' = n"
      using test_write [OF p(2) _ k(1)] queued [of p t] p(1) k(2) by auto
    have "\<not> mux_transportError (mux s)" using inside 6 by (auto simp: fine_inv_def pass_ok_def)
    with inside 6 k' p show ?thesis by (auto simp: test_inv_def MuxerTestSocket_writer_def)
  next
    case (4 h' W' t ts ok m w)
    then obtain p q where p: "txQueue (mux s) t = p # q" "at_write p [] [] (world s)" "ok"
      using inside by (auto simp: test_inv_def)
    then have "m_data p \<noteq> []" using queued [of p t] by (simp add: test_packet_def)
    with inside 4 p show ?thesis by (auto simp: test_inv_def)
  next
    case (5 h' W' t ts buf bufs ok m w)
    then obtain p q where p: "txQueue (mux s) t = p # q" "at_write p [] (buf # bufs) (world s)" "ok"
      using inside by (auto simp: test_inv_def)
    then have "test_packet n p" using queued [of p t] by simp
    with p(2) have "at_write p buf bufs (world s)" by (cases rule: at_write.cases [of "(p, buf, bufs, world s)"]) auto
    with inside 5 p show ?thesis by (auto simp: test_inv_def)
  qed (use inside in \<open>auto simp: test_inv_def getType_def split: list.splits if_splits\<close>)
next
  case (inside_aborts s ps e)
  from muxer_test.pass_step_inv [OF inside_aborts.prems(1) inside_aborts.hyps] show ?case by simp
qed

text \<open>
  In every run in which only packets of the test are posted, all checks of the socket pass, and
  no write fails: the flag is only ever set by the destructor.
\<close>

lemma fine_posted_packets:
  assumes "fine_send_step h W s s'" "\<forall>p \<in> set (posted s'). P p"
  shows "\<forall>p \<in> set (posted s). P p"
  using fine_send_step_history [OF assms(1)] assms(2) by auto

lemma TestPacketMuxer_checks:
  assumes "fine_sending h (MuxerTestSocket_writer h) m0 (MuxerTestSocket_ctor n uninitialised) s"
    "PacketMuxer_ctor names = Inr m0" "length names + 2 \<le> 2 ^ 32" "\<forall>p \<in> set (posted s). test_packet n p"
  shows "test_inv n s"
  using assms(1,4)
proof (induction rule: fine_sending.induct)
  case start
  show ?case by (simp add: test_inv_def MuxerTestSocket_ctor_def start_sending_def)
next
  case (step s s')
  note packets = fine_posted_packets [OF step.hyps(2) step.prems]
  from test_step [OF step.hyps(2) muxer_test.fine_sending_inv [OF step.hyps(1) assms(2,3)] step.IH [OF packets] packets]
  show ?case .
qed

lemma test_inv_no_error: "test_inv n s \<Longrightarrow> \<not> mux_transportError (mux s) \<Longrightarrow> no_error s"
  by (auto simp: test_inv_def split: option.split pass_state.split)

text \<open>A run of the test: Hello has been sent.\<close>

lemma test_socket_hello:
  "\<exists>s. fine_sending h (MuxerTestSocket_writer h) example_muxer (MuxerTestSocket_ctor 11 0) s \<and>
     posted s = [control_packet Hello] \<and> transmitted s = [control_packet Hello] \<and> in_pass s = None"
proof -
  let ?W = "MuxerTestSocket_writer h" and ?k = "MuxerTestSocket_ctor 11 0"
  let ?m1 = "example_muxer\<lparr>mux_numPosted := 1, mux_txQueues := [ControlPacket \<mapsto> [control_packet Hello]]\<rparr>"
  let ?s0 = "start_sending example_muxer ?k"
  let ?s1 = "?s0\<lparr>mux := ?m1, pc := HelloPosted, posted := posted ?s0 @ [control_packet Hello]\<rparr>"
  let ?s2 = "?s1\<lparr>pc := Locked\<rparr>"
  have "pc ?s0 = Entered" "sendControlMessage Hello (mux ?s0) = (Inr (), ?m1)"
    by (simp_all add: start_sending_def example_sendHello)
  then have "send_step h ?W ?s0 ?s1" by (rule send_thread_step(1))
  with sending.start have s1: "sending h ?W example_muxer ?k ?s1" by (rule sending.step)
  have "send_step h ?W ?s1 ?s2" by (rule send_thread_step(2)) simp
  with s1 have s2: "sending h ?W example_muxer ?k ?s2" by (rule sending.step)
  have begins: "begins_pass (mux ?s2) (pc ?s2) ?m1 []"
    using begins_pass.busy [of ?m1] by (simp add: example_muxer_def)
  have order: "iteration_order ?m1 [ControlPacket]" by (simp add: iteration_order_def)
  obtain m' k' where run: "sendQueues h ?W [ControlPacket] ?m1 ?k = Some (Inr (m', k'))" "txQueue m' ControlPacket = []"
    by (simp add: txQueue_def example_muxer_def sendPacket_def getType_def getDataSize_def ControlPacket_def
        InvalidPacket_def control_packet_def writeBytes.simps MuxerTestSocket_writer_def MuxerTestSocket_write_def
        MuxerTestSocket_ctor_def checkType_def checkSize_def checkPayload_def Let_def set_txQueue_def)
  let ?s3 = "?s2\<lparr>mux := m', world := k', pc := Locked, posted := posted ?s2 @ [],
    transmitted := transmitted ?s2 @ pass_log ?m1 m' [ControlPacket]\<rparr>"
  have "send_step h ?W ?s2 ?s3"
    by (rule send_step.pass [OF begins order]) (use run in \<open>simp add: start_sending_def\<close>)
  with s2 have "sending h ?W example_muxer ?k ?s3" by (rule sending.step)
  from muxer_test.sending_fine [OF this example_ctor example_names_fit]
  have "fine_sending h ?W example_muxer ?k (between_passes ?s3)" by (rule fine_sending_reach)
  moreover have "pass_log ?m1 m' [ControlPacket] = [control_packet Hello]"
    using run(2) by (simp add: pass_log_def popped_def txQueue_def ControlPacket_def)
  ultimately show ?thesis by (intro exI [of _ "between_passes ?s3"]) (simp add: start_sending_def)
qed

end
