(* ===== verification/UnitTests.thy ===== *)
theory UnitTests
  imports ComPacket SimpleQueue Ipv4Address
begin

text \<open>
  The unit tests of IdManager, ComPacket, SimpleQueue and Ipv4Address (tests/test.cpp), translated check by
  check, and evaluated: the models of these classes pass the tests of the program. The tests of the
  muxer and the demuxer are in the theory of the mock sockets.
\<close>

section \<open>TestIdManager\<close>

definition TestIdManager :: "bool outcome" where
  "TestIdManager =
     bind_outcome (IdManager_ctor [''Type1'', ''Type2'', ''Type3'']) (\<lambda>packetIds.
     bind_outcome (toId packetIds ControlString) (\<lambda>ctrl.
       Inr (Inr 0 = toId packetIds InvalidString \<and> 1 = ctrl \<and>
         Inr (ctrl + 1) = toId packetIds ''Type1'' \<and>
         Inr (ctrl + 2) = toId packetIds ''Type2'' \<and>
         Inr (ctrl + 3) = toId packetIds ''Type3'' \<and>
         Inr InvalidString = toString packetIds 0 \<and>
         Inr ControlString = toString packetIds ctrl \<and>
         Inr ''Type1'' = toString packetIds (ctrl + 1) \<and>
         Inr ''Type2'' = toString packetIds (ctrl + 2) \<and>
         Inr ''Type3'' = toString packetIds (ctrl + 3))))"

lemma TestIdManager_passes: "TestIdManager = Inr True"
  by (simp add: TestIdManager_def IdManager_ctor_def InvalidString_def ControlString_def InvalidPacket_def
      ControlPacket_def toId_def toString_def)

section \<open>TestComPacket\<close>

text \<open>
  \<open>is_null\<close> tells whether \<open>data()\<close> of a vector is a null pointer, which the standard leaves open for
  an empty vector; the test expects one.
\<close>

definition TestComPacket :: "(byte list \<Rightarrow> bool) \<Rightarrow> bool outcome" where
  "TestComPacket is_null =
     (let pkt = ComPacket_default; bytes = [104, 101, 108, 108, 111, 0]
      in bind_outcome (ComPacket_buffer InvalidPacket bytes 6) (\<lambda>pkt2.
         bind_outcome (ComPacket_sized ControlPacket 17) (\<lambda>pkt3.
           let (pkt2', pkt3') = ComPacket_assign pkt2 pkt3; (pkt4, pkt2'') = ComPacket_move pkt2'
           in Inr (getType pkt = InvalidPacket \<and> getDataSize pkt = 0 \<and> is_null (getData pkt) \<and>
             getDataSize pkt2 = 6 \<and> \<not> is_null (getData pkt2) \<and>
             (\<forall>i \<in> {0..<6}. bytes ! i = getData pkt2 ! i) \<and>
             getDataSize pkt3 = 17 \<and> \<not> is_null (getData pkt3) \<and> getType pkt3 = ControlPacket \<and>
             getType pkt3' = InvalidPacket \<and> getDataSize pkt2' = 17 \<and>
             getDataSize pkt4 = 17 \<and> getType pkt4 = ControlPacket \<and>
             getDataSize pkt2'' = 0 \<and> getType pkt2'' = InvalidPacket))))"

lemma TestComPacket_passes:
  assumes "\<And>bs. is_null bs \<longleftrightarrow> bs = []"
  shows "TestComPacket is_null = Inr True"
  by (simp add: TestComPacket_def assms ComPacket_default_def ComPacket_buffer_def ComPacket_sized_def
      ComPacket_assign_def getType_def getDataSize_def getData_def vector_max_size_def Let_def)

section \<open>TestSimpleQueue\<close>

text \<open>
  The items are shared pointers to one packet. Its use count is the number of variables of
  the test that hold it and of the entries of the queue.
\<close>

definition shared_by :: "nat \<Rightarrow> 'p \<Rightarrow> 'p simple_queue \<Rightarrow> nat" where
  "shared_by variables sptr q = variables + count_list (m_items q) sptr"

text \<open>
  The thread that calls \<open>waitNotempty\<close> while the lock is held (by thread 0) does not sleep: the
  function returns at once when there is an item.
\<close>

definition TestSimpleQueue :: "'p \<Rightarrow> bool outcome" where
  "TestSimpleQueue sptr =
     (let q = SimpleQueue_ctor; q1 = queue_emplace sptr q
      in bind_outcome (queue_front q1) (\<lambda>sptr2.
         bind_outcome (queue_pop q1) (\<lambda>q2.
           Inr (queue_size q = 0 \<and> queue_empty q \<and> shared_by 1 sptr q = 1 \<and>
             queue_size q1 = 1 \<and> shared_by 1 sptr q1 = 2 \<and> shared_by 2 sptr q1 = 3 \<and> sptr = sptr2 \<and>
             \<not> queue_empty q1 \<and> queue_size q2 = 0 \<and> queue_empty q2 \<and> shared_by 2 sptr q2 = 2))))"

lemma TestSimpleQueue_passes: "TestSimpleQueue sptr = Inr True"
  by (simp add: TestSimpleQueue_def SimpleQueue_ctor_def queue_emplace_def queue_front_def queue_pop_def
      queue_size_def size_simple_queue_ext_def queue_empty_def shared_by_def)

lemma TestSimpleQueue_not_blocked:
  assumes "qs_owner s = Some t" "qs_queue s = queue_emplace sptr q"
  shows "queue_step s (s\<lparr>qs_returned := insert t (qs_returned s)\<rparr>)"
  using queue_step.wait_returns [OF assms(1)] assms(2) by simp

section \<open>TestIpv4Address\<close>

text \<open>
  The resolver of the system is a parameter; the test expects that it knows \<open>localhost\<close> in both
  directions and no host with a nonsensical name.
\<close>

definition TestIpv4Address ::
    "host_order \<Rightarrow> (string \<Rightarrow> byte list option) \<Rightarrow> getnameinfo \<Rightarrow> ipv4_address \<Rightarrow> bool option" where
  "TestIpv4Address h gethostbyname gni memory =
     (let localhost = Ipv4Address_ctor h gethostbyname ''localhost'' 3000;
          nonsense = Ipv4Address_ctor h gethostbyname ''@nonsense.ww.arg.?'' 120;
          uninitialised = Ipv4Address_default memory;
          copy = Ipv4Address_copy localhost
      in Option.bind (GetHostName gni localhost []) (\<lambda>hostName.
         Option.bind (GetHostAddress gni localhost []) (\<lambda>hostIP.
           Some (IsValid localhost \<and> ''localhost'' = hostName \<and> ''127.0.0.1'' = hostIP \<and>
             3000 = GetPort h localhost \<and> \<not> IsValid nonsense \<and> \<not> IsValid uninitialised \<and> IsValid localhost))))"

lemma TestIpv4Address_passes:
  assumes "gethostbyname ''localhost'' = Some bytes" "gethostbyname ''@nonsense.ww.arg.?'' = None"
    and "\<And>a. finds_name (\<lambda>sz. gni a sz False) ''localhost''" "\<And>a. finds_name (\<lambda>sz. gni a sz True) ''127.0.0.1''"
  shows "TestIpv4Address h gethostbyname gni memory = Some True"
proof -
  have "GetHostName gni a [] = Some ''localhost''" for a
    using GetHostNameInfo_finds [of gni a False "''localhost''" "[]"] assms(3) by (simp add: GetHostName_def)
  moreover have "GetHostAddress gni a [] = Some ''127.0.0.1''" for a
    using GetHostNameInfo_finds [of gni a True "''127.0.0.1''" "[]"] assms(4) by (simp add: GetHostAddress_def)
  ultimately show ?thesis
    by (simp add: TestIpv4Address_def Ipv4Address_ctor_def GetHostByName_valid GetPort_GetHostByName assms(1,2) Let_def)
qed

end
