(* ===== verification/Outliving.thy ===== *)
theory Outliving
  imports ReceiveSteps
begin

text \<open>
  Subscription objects after the demuxer has been destroyed (PacketSubscription.cpp). Its queues
  are gone, and the reference \<open>m_comms\<close> of a subscriber that is still held dangles.
\<close>

section \<open>The operations\<close>

text \<open>What is left of the shared pointers to a subscriber are those of subscription objects.\<close>

definition orphan_use_count :: "'cb handles \<Rightarrow> 'cb packet_subscriber \<Rightarrow> nat" where
  "orphan_use_count hs s = length (filter (\<lambda>s'. sub_addr s' = sub_addr s) (held hs))"

text \<open>A call of the demuxer through the reference is undefined.\<close>

definition orphan_dtor :: "'cb handles \<Rightarrow> 'cb packet_subscription \<Rightarrow> unit outcome" where
  "orphan_dtor hs h =
     (case h of
        None \<Rightarrow> Inr ()
      | Some s \<Rightarrow> if 1 < orphan_use_count hs s then Inl UndefinedBehaviour else Inr ())"

definition orphan_isSubscribed :: "'cb packet_subscription \<Rightarrow> bool outcome" where
  "orphan_isSubscribed h = Inl UndefinedBehaviour"

text \<open>The program makes, moves, swaps and destroys subscription objects.\<close>

inductive orphan_step :: "'cb handles \<Rightarrow> 'cb handles outcome \<Rightarrow> bool" where
  default: "x \<notin> fst ` set hs \<Longrightarrow> orphan_step hs (Inr ((x, PacketSubscription_default) # hs))"
| moves: "x \<notin> fst ` set hs \<Longrightarrow> map_of hs y = Some h \<Longrightarrow> PacketSubscription_move h = (new, old) \<Longrightarrow>
    orphan_step hs (Inr ((x, new) # set_handle y old hs))"
| assigns: "map_of hs x = Some g \<Longrightarrow> map_of hs y = Some h \<Longrightarrow> x \<noteq> y \<Longrightarrow>
    PacketSubscription_assign g h = (this, old) \<Longrightarrow>
    orphan_step hs (Inr (set_handle x this (set_handle y old hs)))"
| destroys: "map_of hs x = Some h \<Longrightarrow> orphan_dtor hs h = Inr () \<Longrightarrow> orphan_step hs (Inr (drop_handle x hs))"
| destroy_fails: "map_of hs x = Some h \<Longrightarrow> orphan_dtor hs h = Inl e \<Longrightarrow> orphan_step hs (Inl e)"

inductive outliving :: "'cb handles \<Rightarrow> 'cb handles outcome \<Rightarrow> bool" for hs :: "'cb handles" where
  start: "outliving hs (Inr hs)"
| step: "outliving hs (Inr hs') \<Longrightarrow> orphan_step hs' r \<Longrightarrow> outliving hs r"

section \<open>None of them fails\<close>

definition orphans_ok :: "'cb handles \<Rightarrow> bool" where
  "orphans_ok hs \<longleftrightarrow> distinct (map fst hs) \<and> distinct (map sub_addr (held hs))"

lemma orphans_ok_mset:
  assumes "orphans_ok hs" "mset (held hs') + M = mset (held hs)" "distinct (map fst hs')"
  shows "orphans_ok hs'"
proof -
  obtain ss where "M = mset ss" by (metis ex_mset)
  then have "mset (held hs' @ ss) = mset (held hs)" using assms(2) by simp
  from distinct_mset_eq [OF this, of sub_addr] assms(1,3) show ?thesis by (simp add: orphans_ok_def)
qed

lemma orphan_alone:
  assumes "orphans_ok hs" "map_of hs x = Some (Some s)"
  shows "orphan_use_count hs s = 1"
proof -
  have "distinct (map sub_addr (held hs))" "s \<in> set (held hs)"
    using assms(1) held_in [OF assms(2)] by (simp_all add: orphans_ok_def)
  from filter_addr(2) [OF this] show ?thesis
    using sum_length_filter_compl [of "\<lambda>s'. sub_addr s' = sub_addr s" "held hs"] by (simp add: orphan_use_count_def)
qed

lemma orphan_step_ok:
  assumes "orphan_step hs r" "orphans_ok hs"
  shows "\<exists>hs'. r = Inr hs' \<and> orphans_ok hs'"
  using assms
proof (induction rule: orphan_step.induct)
  case (default x hs)
  then show ?case by (simp add: orphans_ok_def PacketSubscription_default_def)
next
  case (moves x hs y h new old)
  then have *: "distinct (map fst hs)" "new = h" "old = None"
    by (auto simp: orphans_ok_def PacketSubscription_move_def PacketSubscription_default_def)
  have "mset (held ((x, new) # set_handle y old hs)) + {#} = mset (held hs)"
    using held_set_handle [OF *(1) moves.hyps(2), of None] *(2,3) by (simp add: mset_held add.commute)
  from orphans_ok_mset [OF moves.prems this] moves.hyps(1) *(1) show ?case by simp
next
  case (assigns hs x g y h this old)
  then have *: "distinct (map fst hs)" "this = h" "old = g"
    by (auto simp: orphans_ok_def PacketSubscription_assign_def)
  have "map_of (set_handle y old hs) x = Some g" using assigns.hyps(1,3) by (simp add: map_of_set_handle)
  then have "mset (held (set_handle x this (set_handle y old hs))) + {#} = mset (held hs)"
    using held_set_handle [of "set_handle y old hs" x g this] held_set_handle [OF *(1) assigns.hyps(2), of old] *
    by (simp add: add.commute)
  from orphans_ok_mset [OF assigns.prems this] *(1) show ?case by simp
next
  case (destroys hs x h)
  then have "distinct (map fst hs)" by (simp add: orphans_ok_def)
  from orphans_ok_mset [OF destroys.prems held_drop_handle [OF this destroys.hyps(1)] distinct_drop_handle [OF this]]
  show ?case by simp
next
  case (destroy_fails hs x h e)
  then show ?case using orphan_alone [OF destroy_fails.prems, of x] by (auto simp: orphan_dtor_def split: option.splits)
qed

lemma outliving_ok:
  assumes "outliving hs r" "orphans_ok hs"
  shows "\<exists>hs'. r = Inr hs' \<and> orphans_ok hs'"
  using assms
proof (induction rule: outliving.induct)
  case (step hs' r)
  then show ?case using orphan_step_ok by auto
qed simp

lemma client_orphans: "client_inv c \<Longrightarrow> orphans_ok (cl_handles c)"
  by (simp add: client_inv_def orphans_ok_def)

end
