(* ===== verification/Spec2Isabelle.thy ===== *)
theory Spec2Isabelle
  imports Example_Steps SocketLifetime Winsock Serialisation SimpleQueue SyncFair SendFair ReceiveFair
    ArrivalFair TestSockets UnitTests Outliving
begin

text \<open>
  packetcomms, a library that carries typed packets over a byte stream: its sending half (the
  muxer), its receiving half (the demuxer), the sockets below and the helpers above.

  The program's parts and how they interact.
  An application gives a \<open>PacketMuxer\<close> and a \<open>PacketDemuxer\<close> at the two ends of a connection the
  same list of names. The muxer's \<open>emplacePacket\<close> puts a packet into the queue of its type; its
  send thread writes the packets, each after a header of type and size in network byte order,
  to an \<open>AbstractWriter\<close>. The demuxer's receive thread reads an \<open>AbstractReader\<close>, expects Hello
  first, cuts the stream into packets and calls the callbacks of the subscribers of each type.
  Sockets implement both interfaces. \<open>SimpleQueue\<close> hands packets from a callback to another
  thread, the vector streams and \<open>serialise\<close> put objects into packets, and \<open>Sync\<close> makes the two
  ends wait for each other.

  Which theory models what.
  Prelude: types, errors as values, integer conversions.
  Byte_Order: 16-bit and 32-bit integers in memory and \<open>htonl\<close> and its relatives, for both orders.
  IdManager, ComPacket, ControlMessage: the headers of these names; ComPacket has the wire format.
  AbstractSocket: the two virtual classes as records of functions over the state of the world,
  and the contracts of their implementations as locales: \<open>byte_writer\<close> and \<open>byte_sink\<close> (a
  reliable one), \<open>byte_reader\<close>, \<open>byte_source\<close> and \<open>closing_source\<close> (one that ends).
  PacketMuxer: the muxer's state and operations, with \<open>writeBytes\<close> as a partial function.
  SendLoop: constructor, destructor, \<open>sendLoop\<close> and the posting threads as the step relation
  \<open>send_step\<close>; a step is a stretch between two moments at which \<open>m_txLock\<close> is free or about to be.
  SendSteps: the same with single calls of the transport as steps (\<open>fine_send_step\<close>), to which
  \<open>send_step\<close> is shown to expand, and what is on the stream between any two calls.
  PacketDemuxer: the demuxer's state and what the receive thread does, up to \<open>receiveLoop\<close>.
  ReceiveLoop: what runs of the receive thread do with a stream. Decoder: the same as an equality
  with a decoder of whole streams. Subscriptions: \<open>subscribe\<close>, \<open>unsubscribe\<close>, \<open>isSubscribed\<close>
  and the subscription objects, as steps of a program (\<open>client_step\<close>). Outliving: subscription
  objects after the demuxer has been destroyed.
  DemuxerThreads: constructor, destructor, receive thread and subscribing program as the step
  relation \<open>receive_step\<close>. ReceiveSteps: the same with single calls of the transport and of
  callbacks as steps (\<open>fine_receive_step\<close>), with the mutex and callbacks that re-enter the
  demuxer. ReceiveRuns: \<open>receiveLoop\<close> as a run of these.
  Connection: a muxer's and a demuxer's threads together, in both versions (\<open>connected\<close>,
  \<open>fine_connected\<close>), and the channel that they refine, a queue of packets for each type; the
  refinement is proved once, in the locale \<open>packet_link\<close>.
  Ipv4Address, Socket: network/, with system calls as the record \<open>kernel\<close>; Socket also has a
  kernel in memory on which the contracts are interpreted. SocketLifetime: making, accepting and
  destroying sockets (\<open>socket_step\<close>). Winsock: the Windows branches of network/ over the record
  \<open>winsock\<close>, and WinsockInit.h, also with several threads.
  SimpleQueue, VectorStream, Serialisation, Sync: the files of these names. SyncTraffic: the
  synchronisation over the channels of two connections.
  Fairness: infinite runs, weak fairness, and the locale \<open>progress\<close>, in which every fair run is shown
  to reach a goal from an action that helps in every state on the way. SyncFair, SendFair, ReceiveFair and
  ArrivalFair interpret it: the synchronisation completes, the send thread ends after an error
  and otherwise transmits everything posted, the destructor of a demuxer finishes, and the receive
  thread takes everything on the stream and calls the callbacks for it. The actions are the steps of the
  threads: \<open>sync_act\<close>, \<open>send_thread\<close>, \<open>receive_thread\<close> and \<open>destructor_thread\<close>.
  Example_Run, Example_Steps: a concrete connection, on which the general theorems are applied.
  TestSockets: the mock sockets of the unit tests and what the tests check, for every run.
  UnitTests: the tests of IdManager, ComPacket, SimpleQueue and Ipv4Address, which the models pass.

  What the theorems show. C1 to C8 are about the path of a packet: nothing is lost, reordered
  within a type, or mixed up between posting and callback, for every interleaving, chunking,
  delay and byte order, at every call of the transport, everything posted arrives in the end, and the
  receive thread equals a decoder on every stream. C9 to C14 are about subscriptions and callbacks,
  C15 and C25 about calls and runs of the receive thread, C16 to C18 about the queue and the
  synchronisation, C19 to C21 about the send thread, C22 about destroying a demuxer, C23 and C24
  about the handshake, C26 to C28 about failures and hostile input, C29 about the test of the
  muxer, C30 about the table of names, C31 to C38 about the sockets and addresses of both builds, C39
  and C40 about serialised data.

  Bounds and fuel. No fuel is used: loops that may not end are partial functions, where \<open>None\<close> is a
  call that does not return, and that they do return is proved under the contracts that bound how
  often a transport can refuse to move bytes. Table sizes are bounded by \<open>2\<^sup>3\<^sup>2\<close> names, data
  sizes by \<open>2\<^sup>3\<^sup>1\<close> bytes where the receiver is concerned; other packets end its process (C26).

  Abstractions. Time is not modelled: a wait may time out at any moment. That a thread goes on is a
  hypothesis of the theorems on fair runs (C3, C12, C18, C19, C21, C22): again and again a
  thread that can take a step takes one. It can be met from every state, by letting the threads take
  turns (\<open>fair_run_exists\<close>). What callbacks do is not
  modelled, but for whether they re-enter the demuxer that calls them; their calls are recorded.
  In \<open>send_step\<close> and \<open>receive_step\<close> a pass of the send thread over the queues, the calls of the
  callbacks for a packet, and a call of \<open>receivePacket\<close> are single steps for the other threads; in
  \<open>fine_send_step\<close> and \<open>fine_receive_step\<close> every call of the transport and of a callback is one.
  The switch to non-blocking mode by the constructor takes no mutex and can fall between any two
  steps. The destructor's write to the demuxer's error flag takes no mutex either: it is a step of
  its own in \<open>fine_receive_step\<close>, and in \<open>receive_step\<close> it is seen wherever the receive thread
  reads the flag (the parameter \<open>stop\<close>). The flag \<open>m_transportError\<close> is read by \<open>ok\<close> without a
  mutex; the data race is not modelled.

  Not modelled: log output; PacketComms.h, which only includes the other headers; cereal, which
  is a parameter of Serialisation; the unit tests of the vector streams, which run cereal, and those
  of the TCP and UDP sockets, which run the network of the system.
\<close>

section \<open>From muxer to demuxer\<close>

text \<open>
  C1: end-to-end delivery. Take any state that the threads of a muxer can reach over a transport
  that keeps the writer's contract, before any transmission error, in which the send thread
  has transmitted Hello and then the packets \<open>ps\<close>. If the bytes that the transport has
  transmitted arrive at a demuxer, through any transport that keeps the reader's contract
  and in whatever pieces and with whatever delays, then its receive thread calls, for every
  packet of \<open>ps\<close> in order, the callbacks subscribed to the packet's type with an equal
  packet, and ends with the error flag set when the stream ends. The byte orders of the
  two hosts do not matter.
\<close>

theorem delivery:
  assumes "writer_contract W sent" "closing_contract R pending lag closed"
    and "PacketMuxer_ctor names = Inr m0" "length names + 2 \<le> 2 ^ 32"
    and "sending hs W m0 w0 s" "\<not> mux_transportError (mux s)"
    and "transmitted s = control_packet Hello # ps" "\<forall>p \<in> set ps. length (m_data p) < 2 ^ 31"
    and "sent (world s) = sent w0 @ pending v" "closed v"
    and "\<not> dmx_transportError d"
  shows "\<exists>d' v'. receiveLoop hr R (\<lambda>_. False) d v =
      Some (Inr (concat (map (dispatched d) ps), d', v')) \<and>
    dmx_transportError d' \<and> subscribers d' = subscribers d"
proof (rule closing_source.receiveLoop_delivers [OF closing_sourceI [OF assms(2)]])
  show "pending v = concat (map wire (control_packet Hello # ps))"
    using reachable_inv(4) [OF assms(1,3,4,5,6)] assms(7,9) by simp
  show "\<forall>p \<in> set ps. receivable p"
  proof
    fix p assume p: "p \<in> set ps"
    then have "sendable p"
      using transmitted_posted(2) [OF reachable_inv(2) [OF assms(1,3,4,5)]] assms(7) by simp
    then show "receivable p" using assms(8) p by (simp add: receivable_def sendable_def)
  qed
qed (fact assms)+

theorem delivery_witness:
  "\<exists>(s :: memory_kernel send_system) d' v'. transmitted s = [control_packet Hello, example_packet] \<and>
    outgoing (world s) = incoming (arriving example_stream) \<and>
    receiveLoop BigEndian example_reader (\<lambda>_. False) example_demuxer (arriving example_stream) =
      Some (Inr ([(''log'', example_packet)], d', v')) \<and> dmx_transportError d'"
proof -
  obtain s where s: "sending LittleEndian example_writer example_muxer example_kernel s"
    "transmitted s = control_packet Hello # [example_packet]" "\<not> mux_transportError (mux s)"
    "outgoing (world s) = example_stream"
    using example_sent by blast
  have "length (m_data example_packet) < 2 ^ 31" by (simp add: example_packet_def)
  moreover note delivery [OF example_writes example_closing example_ctor _ s(1,3,2), of "arriving example_stream"
      example_demuxer BigEndian] s
  ultimately show ?thesis by (auto simp: example_kernel_def)
qed

text \<open>
  C2: refinement. Let the threads of a muxer and those of a demuxer run in any interleaving of their
  single calls to the transport, over one that delivers what has been sent in order and not
  before: the receiver takes packets while the sender is in the middle of others. As long as no
  write has failed, every run is a run of a channel that keeps one queue of packets for each type,
  with the same packets posted and taken in the same order. So no packet is lost, duplicated,
  changed, invented or, within its type, reordered at any moment.
\<close>

theorem connection_refines_channel_at_calls:
  assumes "writer_contract W sent" "reader_contract R pending"
    and "PacketMuxer_ctor names = Inr m0" "length names + 2 \<le> 2 ^ 32"
    and "fine_connected hs W sent m0 w0 hr R pending reenters d0 v0 s r" "no_error s"
    and "\<forall>p \<in> set (posted s). length (m_data p) < 2 ^ 32"
  shows "\<exists>es. channel_run es (\<lambda>_. []) = Some (in_flight s r) \<and> posted_in es = posted s \<and> taken_in es = rs_taken r"
  using fine_connected_refines [OF assms(1,3,4,2,5-7)] .

theorem connection_refines_channel_at_calls_witness:
  "\<exists>(s :: memory_kernel sender) (r :: (string, memory_kernel) receiver) es.
    in_hand s = [example_packet] \<and> channel_run es (\<lambda>_. []) = Some (in_flight s r) \<and>
    posted_in es = [control_packet Hello, example_packet] \<and> taken_in es = [control_packet Hello]"
proof -
  obtain s :: "memory_kernel sender" and r :: "(string, memory_kernel) receiver" where
    c: "fine_connected LittleEndian example_writer outgoing example_muxer example_kernel BigEndian example_reader incoming
      (\<lambda>_. False) example_empty_demuxer (arrived example_stream) s r"
    and s: "no_error s" "in_hand s = [example_packet]" "posted s = [control_packet Hello, example_packet]"
    and r: "rs_taken r = [control_packet Hello]"
    using example_fine_connected by blast
  have "\<forall>p \<in> set (posted s). length (m_data p) < 2 ^ 32"
    using s(3) by (simp add: control_packet_def example_packet_def)
  from connection_refines_channel_at_calls [OF example_writes example_reads example_ctor _ c s(1) this] s r
  show ?thesis by (metis (no_types) example_names_fit)
qed

text \<open>
  Refinement. Let the threads of a muxer and those of a demuxer run in any interleaving, over
  a transport that delivers what has been sent in order and not before. As long as the sender has
  seen no error, every run is a run of a channel that keeps one queue of packets for each type,
  with the same packets posted and taken in the same order. So no packet is lost, duplicated,
  changed, invented or, within its type, reordered at any moment.
\<close>

lemma connection_refines_channel:
  assumes "writer_contract W sent" "reader_contract R pending"
    and "PacketMuxer_ctor names = Inr m0" "length names + 2 \<le> 2 ^ 32"
    and "connected hs W sent m0 w0 hr R pending d0 v0 s r" "\<not> mux_transportError (mux s)"
    and "\<forall>p \<in> set (posted s). length (m_data p) < 2 ^ 32"
  shows "\<exists>es. channel_run es (\<lambda>_. []) = Some (in_flight s r) \<and> posted_in es = posted s \<and> taken_in es = rs_taken r"
  using connected_refines [OF assms(1,3,4,2,5-7)] .

lemma connection_refines_channel_witness:
  "\<exists>(s :: memory_kernel send_system) (r :: (string, memory_kernel) receive_system) es.
    channel_run es (\<lambda>_. []) = Some (in_flight s r) \<and> posted_in es = [control_packet Hello, example_packet] \<and>
    taken_in es = [control_packet Hello, example_packet]"
proof -
  obtain s where s: "sending LittleEndian example_writer example_muxer example_kernel s"
    "posted s = [control_packet Hello, example_packet]" "\<not> mux_transportError (mux s)"
    "outgoing (world s) = example_stream"
    using example_sent by blast
  obtain r where r: "(receive_step BigEndian example_reader)\<^sup>*\<^sup>* (example_subscribed (arrived example_stream)) r"
    "rs_taken r = [control_packet Hello, example_packet]"
    using example_dispatching by blast
  have run: "(receive_step BigEndian example_reader)\<^sup>*\<^sup>* (start_receiving example_empty_demuxer (arrived example_stream)) r"
    using example_subscribed_steps r(1) by (rule rtranclp_trans)
  have "outgoing (world s) = outgoing example_kernel @ incoming (arrived example_stream)"
    using s(4) by (simp add: example_kernel_def arrived_def)
  from connected_receiving [OF example_reads this run connected_sending [OF s(1)]]
  have "connected LittleEndian example_writer outgoing example_muxer example_kernel BigEndian example_reader incoming
      example_empty_demuxer (arrived example_stream) s r" .
  from connection_refines_channel [OF example_writes example_reads example_ctor _ this s(3)]
  have "\<exists>es. channel_run es (\<lambda>_. []) = Some (in_flight s r) \<and> posted_in es = posted s \<and> taken_in es = rs_taken r"
    using s(2) by (simp add: control_packet_def example_packet_def)
  with s(2) r(2) show ?thesis by metis
qed

section \<open>The send thread\<close>

text \<open>
  C5: in every state of a muxer between two calls, over any transport, the packets of each type that
  were posted are, in this order, those that the send thread has taken off the queue
  followed by those still queued: nothing is lost, duplicated or reordered within a type.
\<close>

theorem posted_fifo:
  assumes "writer_contract W sent" "PacketMuxer_ctor names = Inr m0" "length names + 2 \<le> 2 ^ 32"
    "fine_sending h W m0 w0 s"
  shows "of_type t (posted s) = of_type t (transmitted s) @ txQueue (mux s) t"
  using byte_writer.fine_sending_inv [OF byte_writer.intro [OF assms(1)] assms(4,2,3)]
  by (simp add: fine_inv_def queues_inv_def)

theorem posted_fifo_witness:
  "\<exists>s :: memory_kernel sender. of_type 2 (posted s) = [example_packet] \<and> transmitted s = [control_packet Hello] \<and>
    txQueue (mux s) 2 = [example_packet]"
proof -
  obtain s where s: "(fine_send_step LittleEndian example_writer)\<^sup>*\<^sup>*
      (between_passes (start_sending example_muxer example_kernel)) s"
    "posted s = [control_packet Hello, example_packet]" "transmitted s = [control_packet Hello]"
    using example_writing by blast
  have "of_type 2 (posted s) = [example_packet]" "of_type 2 (transmitted s) = []"
    by (simp_all add: s(2,3) of_type_Cons control_packet_def example_packet_def ControlPacket_def)
  with posted_fifo [OF example_writes example_ctor example_names_fit fine_sending_reach [OF s(1)], of 2] s(3)
  show ?thesis by (intro exI [of _ s]) simp
qed

text \<open>
  C6: as long as no write has failed, at every moment, in the middle of a packet as well, what the
  transport has transmitted is the concatenation of the wire forms of the packets taken off the
  queues and of the packet in hand, but for the bytes still to be written of the latter: headers
  and data of different packets never mix, and a partial write never loses or repeats bytes.
\<close>

theorem stream_at_every_call:
  assumes "writer_contract W sent" "PacketMuxer_ctor names = Inr m0" "length names + 2 \<le> 2 ^ 32"
    "fine_sending h W m0 w0 s" "no_error s"
  shows "sent (world s) @ unwritten s = sent w0 @ concat (map wire (transmitted s @ in_hand s))"
  using byte_writer.fine_sending_inv [OF byte_writer.intro [OF assms(1)] assms(4,2,3)] assms(5)
  by (simp only: fine_inv_def map_append concat_append simp_thms)

theorem stream_at_every_call_witness:
  "\<exists>s :: memory_kernel sender. in_hand s = [example_packet] \<and>
    outgoing (world s) @ unwritten s = wire (control_packet Hello) @ wire example_packet"
proof -
  obtain s where s: "(fine_send_step LittleEndian example_writer)\<^sup>*\<^sup>*
      (between_passes (start_sending example_muxer example_kernel)) s"
    "transmitted s = [control_packet Hello]" "in_hand s = [example_packet]" "no_error s"
    using example_writing by blast
  from stream_at_every_call [OF example_writes example_ctor example_names_fit fine_sending_reach [OF s(1)] s(4)] s(2,3)
  show ?thesis by (intro exI [of _ s]) (simp add: example_kernel_def)
qed



text \<open>
  As long as no transmission error has occurred, what the transport has transmitted is
  the concatenation of the wire forms of the packets taken off the queues: headers and data
  of different packets never mix, and a partial write never loses or repeats bytes.
\<close>

lemma transmitted_stream:
  assumes "writer_contract W sent" "PacketMuxer_ctor names = Inr m0" "length names + 2 \<le> 2 ^ 32"
    "sending h W m0 w0 s" "\<not> mux_transportError (mux s)"
  shows "sent (world s) = sent w0 @ concat (map wire (transmitted s))"
  using reachable_inv(4) [OF assms] .

lemma transmitted_stream_witness:
  "\<exists>s :: memory_kernel send_system. transmitted s \<noteq> [] \<and> outgoing (world s) = outgoing example_kernel @ concat (map wire (transmitted s))"
proof -
  obtain s where "sending LittleEndian example_writer example_muxer example_kernel s"
    "transmitted s \<noteq> []" "\<not> mux_transportError (mux s)"
    using example_sent by force
  then show ?thesis using transmitted_stream [OF example_writes example_ctor, of LittleEndian example_kernel s] by auto
qed

text \<open>
  No reachable state is one in which the send thread has failed the assertion on the
  packet type or moved a pointer out of a packet's data.
\<close>

lemma sender_never_aborts:
  assumes "writer_contract W sent" "PacketMuxer_ctor names = Inr m0" "length names + 2 \<le> 2 ^ 32"
    "sending h W m0 w0 s"
  shows "pc s \<noteq> Aborted"
  using reachable_inv(3) [OF assms] .

lemma sender_never_aborts_witness:
  "pc example_posted \<noteq> Aborted \<and> posted example_posted \<noteq> []"
  using sender_never_aborts [OF example_writes example_ctor _ example_posted_sending]
  by (simp add: example_posted_def)





text \<open>
  The send thread goes to wait for packets only when it has transmitted all that were
  posted, provided that fewer than \<open>2\<^sup>3\<^sup>2\<close> packets are queued (the counters are compared
  modulo \<open>2\<^sup>3\<^sup>2\<close>, so the difference and not the number of packets ever sent matters).
\<close>

lemma waits_only_when_drained:
  assumes "writer_contract W sent" "PacketMuxer_ctor names = Inr m0" "length names + 2 \<le> 2 ^ 32"
    "sending h W m0 w0 s" "send_step h W s s'" "pc s = Locked" "pc s' = Waiting"
    "length (posted s) < length (transmitted s) + 2 ^ 32"
  shows "mset (transmitted s') = mset (posted s') \<and> txQueue (mux s') t = []"
proof -
  from assms(5-7) have "mux_numPosted (mux s) = mux_numSent (mux s)" "s' = s\<lparr>pc := Waiting\<rparr>"
    by (auto elim!: send_step_cases muxer_step_cases simp: lock_free_def)
  then show ?thesis
    using counters_agree [OF reachable_inv(2) [OF assms(1-4)] _ assms(8)] by simp
qed

lemma waits_only_when_drained_witness:
  "\<exists>s s'. send_step LittleEndian example_writer s s' \<and> pc s' = Waiting \<and>
    posted s' \<noteq> [] \<and> mset (transmitted s') = mset (posted s') \<and> txQueue (mux s') 2 = []"
proof -
  obtain s where s: "sending LittleEndian example_writer example_muxer example_kernel s"
    "pc s = Locked" "posted s = [control_packet Hello, example_packet]"
    "transmitted s = [control_packet Hello, example_packet]" "\<not> mux_transportError (mux s)"
    using example_sent by blast
  have "mux_numPosted (mux s) = mux_numSent (mux s)"
    using reachable_inv(2) [OF example_writes example_ctor _ s(1)] s(3,4) by (simp add: queues_inv_def)
  then have step: "send_step LittleEndian example_writer s (s\<lparr>pc := Waiting\<rparr>)"
    using s(2,5) by (intro send_thread_step(3)) simp_all
  then show ?thesis
    using waits_only_when_drained [OF example_writes example_ctor _ s(1) step, of 2] s step
    by (intro exI [of _ s] exI [of _ "s\<lparr>pc := Waiting\<rparr>"]) simp
qed



text \<open>
  C20: an error is final, call by call. From a reachable state in which the error flag is set (after a
  failed write, or by the destructor), whatever the threads do, the flag stays set and not one more
  byte is written to the transport; the transport is not touched at all once the constructor is done.
\<close>

theorem error_is_final:
  assumes "writer_contract W sent" "PacketMuxer_ctor names = Inr m0" "length names + 2 \<le> 2 ^ 32"
    and "fine_sending h W m0 w0 s" "(fine_send_step h W)\<^sup>*\<^sup>* s s'" "mux_transportError (mux s)"
  shows "mux_transportError (mux s') \<and> sent (world s') = sent (world s) \<and>
    (constructed s \<longrightarrow> world s' = world s)"
  using byte_writer.fine_send_steps_final [OF byte_writer.intro [OF assms(1)] assms(5) _ assms(6)]
    byte_writer.fine_sending_inv [OF byte_writer.intro [OF assms(1)] assms(4,2,3)]
  by blast

theorem error_is_final_witness:
  "\<exists>s :: memory_kernel sender. mux_transportError (mux s) \<and> txQueue (mux s) ControlPacket = [control_packet Hello] \<and>
    (\<forall>s'. (fine_send_step LittleEndian example_writer)\<^sup>*\<^sup>* s s' \<longrightarrow> outgoing (world s') = [])"
proof -
  let ?s = "(example_hello HelloPosted)\<lparr>mux := PacketMuxer_dtor (mux (example_hello HelloPosted))\<rparr>"
  have "send_step LittleEndian example_writer (example_hello HelloPosted) ?s"
    by (rule send_step.threads [OF muxer_step.destroy]) (simp_all add: example_hello_def lock_free_def)
  with example_hello_sending have "sending LittleEndian example_writer example_muxer example_kernel ?s"
    by (rule sending.step)
  from byte_writer.sending_fine [OF byte_writer.intro [OF example_writes] this example_ctor example_names_fit]
  have s: "fine_sending LittleEndian example_writer example_muxer example_kernel (between_passes ?s)"
    by (rule fine_sending_reach)
  have failed: "mux_transportError (mux (between_passes ?s))" "outgoing (world (between_passes ?s)) = []"
    "txQueue (mux (between_passes ?s)) ControlPacket = [control_packet Hello]"
    by (simp_all add: example_hello_def example_kernel_def txQueue_def)
  have "outgoing (world s') = []"
    if "(fine_send_step LittleEndian example_writer)\<^sup>*\<^sup>* (between_passes ?s) s'" for s'
    using error_is_final [OF example_writes example_ctor example_names_fit s that failed(1)] failed(2) by simp
  with failed show ?thesis by (intro exI [of _ "between_passes ?s"]) blast
qed

text \<open>
  C21: the send thread ends once the error flag is set, after a failed write or by the destructor:
  over any transport, in every run in which the thread goes on whenever it can, it comes to its end,
  from the middle of a packet as well, so that the destructor's \<open>join\<close> comes back, whatever the
  other threads do.
\<close>

theorem error_ends_the_thread:
  assumes "writer_contract W sent" "PacketMuxer_ctor names = Inr m0" "length names + 2 \<le> 2 ^ 32"
    and "fine_sending h W m0 w0 (f 0)" "run (fine_send_step h W) f" "weakly_fair (send_thread h W) f"
    and "mux_transportError (mux (f i))"
  shows "\<exists>j\<ge>i. pc (f j) = Exited"
proof -
  note writer = byte_writer.intro [OF assms(1)]
  have "fine_sending h W m0 w0 (f i)"
    by (rule fine_sending_run [OF assms(5,4)])
  from byte_writer.fine_sending_inv [OF writer this assms(2,3)]
  show ?thesis by (rule byte_writer.fair_exit [OF writer assms(5,6) _ assms(7)])
qed

theorem error_ends_the_thread_witness:
  "\<exists>f j. f 0 = (between_passes (example_hello HelloPosted))\<lparr>mux := PacketMuxer_dtor (mux (example_hello HelloPosted))\<rparr> \<and>
    run (fine_send_step LittleEndian example_writer) f \<and> pc (f j) = Exited"
proof -
  let ?s = "(example_hello HelloPosted)\<lparr>mux := PacketMuxer_dtor (mux (example_hello HelloPosted))\<rparr>"
  have "send_step LittleEndian example_writer (example_hello HelloPosted) ?s"
    by (rule send_step.threads [OF muxer_step.destroy]) (simp_all add: example_hello_def lock_free_def)
  with example_hello_sending have "sending LittleEndian example_writer example_muxer example_kernel ?s"
    by (rule sending.step)
  from byte_writer.sending_fine [OF byte_writer.intro [OF example_writes] this example_ctor example_names_fit]
  have s: "fine_sending LittleEndian example_writer example_muxer example_kernel (between_passes ?s)"
    by (rule fine_sending_reach)
  obtain f where f: "f 0 = between_passes ?s" "run (fine_send_step LittleEndian example_writer) f"
    "weakly_fair (send_thread LittleEndian example_writer) f" using fair_sending_exists by blast
  have "fine_sending LittleEndian example_writer example_muxer example_kernel (f 0)" using s f(1) by simp
  moreover have "mux_transportError (mux (f 0))" by (simp add: f(1))
  ultimately have "\<exists>j\<ge>0. pc (f j) = Exited"
    by (rule error_ends_the_thread [OF example_writes example_ctor example_names_fit _ f(2,3)])
  with f(1,2) show ?thesis by auto
qed

text \<open>
  With whole passes as steps: from every reachable state with the flag set there is a sequence of
  steps to the end of the thread.
\<close>

lemma error_leads_to_exit:
  assumes "writer_contract W sent" "PacketMuxer_ctor names = Inr m0" "length names + 2 \<le> 2 ^ 32"
    "sending h W m0 w0 s" "mux_transportError (mux s)"
  shows "\<exists>s'. (send_step h W)\<^sup>*\<^sup>* s s' \<and> pc s' = Exited"
  using assms(4,5)
proof (induction "exit_rank (pc s)" arbitrary: s rule: less_induct)
  case less
  note inv = reachable_inv [OF assms(1-3) less.prems(1)]
  show ?case
  proof (cases "0 < exit_rank (pc s)")
    case True
    then obtain s1 where s1: "send_step h W s s1" "exit_rank (pc s1) < exit_rank (pc s)"
      using error_progress [OF inv(2) less.prems(2)] by blast
    then obtain s' where "(send_step h W)\<^sup>*\<^sup>* s1 s'" "pc s' = Exited"
      using less.hyps [OF s1(2)] sending.step [OF less.prems(1) s1(1)] send_step_error(1) [OF s1(1) less.prems(2)]
      by blast
    with s1(1) show ?thesis by (meson converse_rtranclp_into_rtranclp)
  next
    case False
    with inv(3) have "pc s = Exited" by (cases "pc s") simp_all
    then show ?thesis by blast
  qed
qed

lemma error_leads_to_exit_witness:
  "\<exists>s'. (send_step LittleEndian example_writer)\<^sup>*\<^sup>*
     ((example_hello HelloPosted)\<lparr>mux := (mux (example_hello HelloPosted))\<lparr>mux_transportError := True\<rparr>\<rparr>) s' \<and>
     pc s' = Exited"
proof -
  let ?s = "example_hello HelloPosted"
  have "constructed ?s" "lock_free ?s" by (simp_all add: lock_free_def example_hello_def)
  from sending.step [OF example_hello_sending send_step.threads [OF muxer_step.destroy [OF this]]]
  have "sending LittleEndian example_writer example_muxer example_kernel
      (?s\<lparr>mux := (mux ?s)\<lparr>mux_transportError := True\<rparr>\<rparr>)" by simp
  from error_leads_to_exit [OF example_writes example_ctor _ this] show ?thesis by simp
qed

text \<open>
  C23: if no packet is posted before the send thread first takes the lock, then Hello is the
  first packet on the stream, whatever happens afterwards: this is the handshake that the
  demuxer expects.
\<close>

theorem hello_is_first:
  assumes "writer_contract W sent" "PacketMuxer_ctor names = Inr m0" "length names + 2 \<le> 2 ^ 32"
    "sending h W m0 w0 s" "constructed s" "pc s = Locked" "posted s = [control_packet Hello]"
    "(send_step h W)\<^sup>+\<^sup>+ s s'" "\<not> mux_transportError (mux s')"
  shows "\<exists>ps. transmitted s' = control_packet Hello # ps"
proof -
  obtain s1 where s1: "send_step h W s s1" "(send_step h W)\<^sup>*\<^sup>* s1 s'"
    using tranclpD [OF assms(8)] by blast
  note alive = reachable_inv(3) [OF assms(1-3) sending.step [OF assms(4) s1(1)]]
  have ok: "\<not> mux_transportError (mux s1)" using send_steps_error [OF s1(2)] assms(9) by blast
  then have ok0: "\<not> mux_transportError (mux s)" using send_step_error(1) [OF s1(1)] by blast
  note inv = reachable_inv(2) [OF assms(1-4)]
  note inv1 = reachable_inv(2) [OF assms(1-3) sending.step [OF assms(4) s1(1)]]
  have "mset (transmitted s1) = mset [control_packet Hello]"
    using s1(1)
  proof (cases rule: send_step.cases)
    case threads
    then show ?thesis
      using counters_agree [OF inv] assms(5-7) ok0 by (cases rule: muxer_step.cases) (simp_all add: lock_free_def)
  next
    case (pass m1 ctl ts m' w')
    have "txQueue m' t = []" for t
      using byte_writer.pass_clears [OF byte_writer.intro [OF assms(1)] reachable_inv(1) [OF assms(1-4)] pass(2-4)]
        pass(1) ok by simp
    moreover have "posted s1 = [control_packet Hello]"
      using pass(1,2) assms(6,7) by (auto elim: begins_pass_Locked)
    ultimately show ?thesis using queues_empty(1) [OF inv1] pass(1) by simp
  qed (use alive in auto)
  then have "transmitted s1 = [control_packet Hello]" by simp
  with send_steps_history [OF s1(2)] show ?thesis by auto
qed

theorem hello_is_first_witness:
  "\<exists>s. send_step LittleEndian example_writer (example_hello Locked) s \<and>
    (\<exists>ps. transmitted s = control_packet Hello # ps)"
proof -
  let ?s = "example_hello Locked"
  note inv = reachable_inv [OF example_writes example_ctor _ example_hello_locked, simplified]
  have ok: "\<not> mux_transportError (mux ?s)" and pc: "constructed ?s" "pc ?s = Locked"
    and posted: "posted ?s = [control_packet Hello]"
    by (simp_all add: example_hello_def example_muxer_def)
  have b: "begins_pass (mux ?s) (pc ?s) (mux ?s) []"
    by (simp add: begins_pass_iff example_hello_def example_muxer_def)
  obtain ts where ts: "iteration_order (mux ?s) ts" using iteration_order_exists by blast
  obtain m' w' where run: "sendQueues LittleEndian example_writer ts (mux ?s) (world ?s) = Some (Inr (m', w'))"
    "\<not> mux_transportError m'"
    using byte_sink.pass_flushes [OF byte_sinkI [OF example_sink] inv(1) b ts ok] by blast
  note step = pass [OF b ts run(1)]
  from hello_is_first [OF example_writes example_ctor _ example_hello_locked pc posted
      tranclp.r_into_trancl [of "send_step LittleEndian example_writer", OF step]] run(2) step
  show ?thesis by fastforce
qed

text \<open>
  C24: if a packet is posted before, Hello need not be the first packet on the stream, because
  the map of queues is iterated in an unspecified order: there is a run over a reliable
  transport whose stream begins with an ordinary packet.
\<close>

theorem hello_can_be_late:
  "\<exists>s. sending LittleEndian example_writer example_muxer example_kernel s \<and>
    transmitted s = [example_packet, control_packet Hello] \<and>
    outgoing (world s) = wire example_packet @ wire (control_packet Hello)"
  using example_passes [OF example_order(2), of LittleEndian]
  by (auto simp: example_posted_def example_queues_def txQueue_def ControlPacket_def)

section \<open>The receive thread\<close>

text \<open>
  C15: what a call of \<open>receivePacket\<close> that returns has done, over any transport and whenever the
  destructor sets the flag: if it returns true, the packet is the next one on the stream,
  taken whole, of a valid type and with less than \<open>2\<^sup>3\<^sup>1\<close> bytes of data; if it returns
  false, the packet argument is unchanged, and either the wait timed out and nothing was
  read or the error flag is set.
\<close>

theorem receivePacket_sound:
  assumes "reader_contract R pending" "\<not> dmx_transportError d"
    "receivePacket h R stop packet ms d w = Some (Inr (ok, p, d', w'))"
  shows "if ok then pending w = wire p @ pending w' \<and> receivable p \<and> d' = d
    else p = packet \<and> (rd_readyForReading R ms w = (False, w') \<and> pending w' = pending w \<and> d' = d \<or>
      dmx_transportError d')"
  using assms(3,2)
  by (cases rule: byte_reader.receivePacket_cases [OF byte_reader.intro [OF assms(1)]])
    (auto simp: receivable_def)

theorem receivePacket_sound_witness:
  "\<exists>v'. receivePacket LittleEndian example_reader (\<lambda>_. False) ComPacket_default 1000 example_demuxer
      (arriving (wire example_packet @ [7])) = Some (Inr (True, example_packet, example_demuxer, v')) \<and>
    wire example_packet @ [7] = wire example_packet @ incoming v' \<and> receivable example_packet"
proof -
  let ?go = "receivePacket LittleEndian example_reader (\<lambda>_. False) ComPacket_default 1000 example_demuxer
      (arriving (wire example_packet @ [7]))"
  have "length (m_data example_packet) < 2 ^ 31" "m_type example_packet \<noteq> InvalidPacket"
    using example_packet_receivable by (simp_all add: receivable_def)
  from byte_source.receivePacket_total [OF byte_sourceI [OF example_source] _ this example_demuxer_ok,
      of "arriving (wire example_packet @ [7])" "[7]" LittleEndian ComPacket_default 1000]
  obtain v' where "?go = Some (Inr (False, ComPacket_default, example_demuxer, v')) \<or>
      ?go = Some (Inr (True, example_packet, example_demuxer, v'))"
    by auto
  then show ?thesis
    using receivePacket_sound [OF example_reads example_demuxer_ok,
        of LittleEndian _ _ 1000 "arriving (wire example_packet @ [7])"] by fastforce
qed

text \<open>
  While a whole packet is pending on a transport that keeps its contract and the flag stays
  clear, a call of \<open>receivePacket\<close> does return: with the packet, or, when the wait times
  out, with nothing read and the transport closer to delivering it (so that repeating the
  call gets the packet).
\<close>

lemma receivePacket_returns:
  assumes "source_contract R pending lag" "pending w = wire p @ rest" "receivable p"
    "\<not> dmx_transportError d"
  shows "\<exists>w'. receivePacket h R (\<lambda>_. False) packet ms d w = Some (Inr (False, packet, d, w')) \<and>
      pending w' = pending w \<and> lag w' < lag w \<or>
    receivePacket h R (\<lambda>_. False) packet ms d w = Some (Inr (True, p, d, w')) \<and> pending w' = rest"
  using byte_source.receivePacket_total [OF byte_sourceI [OF assms(1)] assms(2) _ _ assms(4)] assms(3)
  by (simp add: receivable_def)

lemma receivePacket_returns_witness:
  "\<exists>w'. receivePacket BigEndian example_reader (\<lambda>_. False) ComPacket_default 0 example_demuxer
        (arriving (wire example_packet)) = Some (Inr (False, ComPacket_default, example_demuxer, w')) \<and>
      incoming w' = wire example_packet \<and> length (script w') < 4 \<or>
    receivePacket BigEndian example_reader (\<lambda>_. False) ComPacket_default 0 example_demuxer
        (arriving (wire example_packet)) = Some (Inr (True, example_packet, example_demuxer, w')) \<and>
      incoming w' = []"
  using receivePacket_returns [OF example_source, of "arriving (wire example_packet)" example_packet "[]"
      example_demuxer BigEndian ComPacket_default 0]
  by simp

text \<open>
  C26: hostile headers end the process. A header that announces \<open>2\<^sup>3\<^sup>1\<close> bytes or more throws: the
  size becomes a negative \<open>int\<close>, then a \<open>size_t\<close> above the maximum of a vector, whose
  \<open>length_error\<close> no one catches in the receive thread. And a packet of the invalid type fails an
  assertion once its data has come.
\<close>

theorem hostile_header_ends_process:
  assumes "source_contract R pending lag" "pending w = be32 t @ be32 n @ data @ rest"
    "2 ^ 31 \<le> unat n \<or> t = InvalidPacket \<and> length data = unat n"
    "rd_readyForReading R ms w = (True, w0)" "\<not> dmx_transportError d"
  shows "receivePacket h R (\<lambda>_. False) packet ms d w =
    Some (Inl (if 2 ^ 31 \<le> unat n then LengthError else AssertionFailed))"
proof (cases "2 ^ 31 \<le> unat n")
  case True
  then show ?thesis
    using byte_source.receivePacket_oversized [OF byte_sourceI [OF assms(1)] assms(2,5,4)] by simp
next
  case False
  with assms(3) have n: "t = InvalidPacket" "of_nat (length data) = n" "length data < 2 ^ 31"
    by auto
  with assms(2) have "pending w = wire \<lparr>m_type = InvalidPacket, m_data = data\<rparr> @ rest"
    by (simp add: wire_def)
  from byte_source.receivePacket_invalid [OF byte_sourceI [OF assms(1)] this assms(5,4)] n False show ?thesis
    by simp
qed

theorem hostile_header_ends_process_witness:
  "receivePacket LittleEndian example_reader (\<lambda>_. False) ComPacket_default 1000 example_demuxer
     (arriving (be32 2 @ be32 0x80000000)) = Some (Inl LengthError) \<and>
   receivePacket LittleEndian example_reader (\<lambda>_. False) ComPacket_default 1000 example_demuxer
     (arriving (be32 0 @ be32 1 @ [7])) = Some (Inl AssertionFailed)"
  using hostile_header_ends_process [OF example_source _ _ example_ready example_demuxer_ok,
      of "be32 2 @ be32 0x80000000" 2 "0x80000000" "[]" "[]" LittleEndian ComPacket_default 1000]
    hostile_header_ends_process [OF example_source _ _ example_ready example_demuxer_ok,
      of "be32 0 @ be32 1 @ [7]" 0 1 "[7]" "[]" LittleEndian ComPacket_default 1000]
  by (simp add: InvalidPacket_def)

text \<open>
  A run of the whole receive thread that ends, on any stream and any transport, has made
  exactly the calls that the packets of a prefix of the stream cause, in order; it ended
  with the error flag set and the subscribers unchanged, or with the process, and then only
  at a header with a size that is no \<open>int\<close> or with the invalid type, or because the first
  packet is a control packet without data.
\<close>

lemma receiveLoop_run:
  assumes "reader_contract R pending" "receiveLoop h R stop d w = Some r" "\<not> dmx_transportError d"
  shows "(\<exists>rest. r = Inl UndefinedBehaviour \<and> pending w = be32 ControlPacket @ be32 0 @ rest) \<or>
    run_result pending [] d w r"
  using byte_reader.receiveLoop_sound [OF byte_reader.intro [OF assms(1)] assms(2,3)] .

lemma receiveLoop_run_witness:
  "\<exists>r. receiveLoop LittleEndian example_reader (\<lambda>_. False) example_demuxer (arriving example_stream) = Some r \<and>
    run_result incoming [] example_demuxer (arriving example_stream) r"
proof -
  obtain d' v' where r: "receiveLoop LittleEndian example_reader (\<lambda>_. False) example_demuxer (arriving example_stream) =
      Some (Inr ([(''log'', example_packet)], d', v'))"
    using example_received by blast
  from receiveLoop_run [OF example_reads r] r show ?thesis by auto
qed

text \<open>
  C4: equivalence with the reference decoder. For every stream of bytes, well-formed or not, cut
  into whatever pieces, that a peer sends before it closes the connection, the receive thread
  does exactly what \<open>decode\<close> says of the whole stream: it makes the callback calls for the
  packets decoded, in order, and returns with the error flag set, or ends the process with the
  error of the first bad header; and all of this only if the first packet is Hello.
\<close>

theorem receiver_matches_decoder:
  assumes "closing_contract R pending lag closed" "closed w" "\<not> dmx_transportError d"
    "rd_readyForReading R 2000 w = (True, w0)"
  shows "handshake_run (pending w) d (receiveLoop h R (\<lambda>_. False) d w)"
  using closing_source.receiveLoop_decodes [OF closing_sourceI [OF assms(1)] assms(2-4)] .

theorem receiver_matches_decoder_witness:
  "receiveLoop BigEndian example_reader (\<lambda>_. False) example_demuxer
     (arriving (wire (control_packet Hello) @ be32 0 @ be32 1 @ [9])) = Some (Inl AssertionFailed)"
proof -
  have "wire \<lparr>m_type = InvalidPacket, m_data = [9]\<rparr> = be32 0 @ be32 1 @ [9]"
    by (simp add: wire_def InvalidPacket_def)
  moreover have "decode (wire \<lparr>m_type = InvalidPacket, m_data = [9]\<rparr>) = ([], Some AssertionFailed)"
    using decode_wire [of "\<lparr>m_type = InvalidPacket, m_data = [9]\<rparr>" "[]"] by simp
  ultimately have "decode (wire (control_packet Hello) @ be32 0 @ be32 1 @ [9]) =
      ([control_packet Hello], Some AssertionFailed)"
    using decode_wire [of "control_packet Hello" "be32 0 @ be32 1 @ [9]"]
    by (simp add: control_packet_def ControlPacket_def InvalidPacket_def)
  then show ?thesis
    using receiver_matches_decoder [OF example_closing _ _ example_ready, of
        "wire (control_packet Hello) @ be32 0 @ be32 1 @ [9]" example_demuxer BigEndian]
    by (simp add: handshake_run_def decoded_run_def control_of_def)
qed

text \<open>
  The handshake. If bytes arrive within the time that the receive thread waits for Hello,
  no callback is ever called unless the first packet on the stream is a Hello message.
\<close>

lemma callbacks_need_hello:
  assumes "reader_contract R pending" "receiveLoop h R stop d w = Some (Inr (calls, d', w'))"
    "\<not> dmx_transportError d" "rd_readyForReading R 2000 w = (True, w0)" "calls \<noteq> []"
  shows "\<exists>p rest. pending w = wire p @ rest \<and> m_type p = ControlPacket \<and> getControlMessage p = Inr Hello"
  using byte_reader.receiveLoop_handshake [OF byte_reader.intro [OF assms(1)] assms(2-5)] .

lemma callbacks_need_hello_witness:
  "\<exists>p rest. incoming (arriving example_stream) = wire p @ rest \<and> m_type p = ControlPacket \<and>
    getControlMessage p = Inr Hello"
proof -
  obtain d' v' where r: "receiveLoop LittleEndian example_reader (\<lambda>_. False) example_demuxer (arriving example_stream) =
      Some (Inr ([(''log'', example_packet)], d', v'))"
    using example_received by blast
  show ?thesis by (intro callbacks_need_hello [OF example_reads r _ example_ready]) simp_all
qed

text \<open>
  When no byte arrives within that time, the handshake is skipped: there is a stream
  without any Hello whose packet reaches the subscribers.
\<close>

lemma late_peer_needs_no_hello:
  "\<exists>d' v'. receiveLoop h example_reader (\<lambda>_. False) example_demuxer
      ((arriving (wire example_packet))\<lparr>script := [0]\<rparr>) = Some (Inr ([(''log'', example_packet)], d', v'))"
proof -
  let ?w = "(arriving (wire example_packet))\<lparr>script := [0]\<rparr>"
  have ne: "wire example_packet \<noteq> []" by (simp add: wire_def be32_def)
  then have "rd_readyForReading example_reader 2000 ?w = (False, ?w\<lparr>script := []\<rparr>)"
    by (simp add: example_reader_def socket_reader_def Socket_readyForReading_def
        WaitForSingleEvent_def memory_calls_def memory_poll_def arriving_def)
  then have loop: "receiveLoop h example_reader (\<lambda>_. False) example_demuxer ?w =
      receiveWhile h example_reader (\<lambda>_. False) ComPacket_default [] example_demuxer (?w\<lparr>script := []\<rparr>)"
    by (simp add: receiveLoop_def receiveHelloMessage_def receivePacket_def)
  note src = closing_sourceI [OF example_closing]
  obtain packet' d' v' where 1: "receiveWhile h example_reader (\<lambda>_. False) ComPacket_default [] example_demuxer
      (?w\<lparr>script := []\<rparr>) = receiveWhile h example_reader (\<lambda>_. False) packet'
        ([] @ dispatched example_demuxer example_packet) d' v'"
    "incoming v' = []" "same_service example_demuxer d'" "reset v'"
    using byte_source.receiveWhile_packet [OF byte_sourceI [OF example_source], of "?w\<lparr>script := []\<rparr>"
        example_packet "[]" example_demuxer reset h ComPacket_default "[]"]
      closing_source.closed_keeps [OF src] by auto
  moreover have "\<not> dmx_transportError d'"
    using 1(3) by (simp add: same_service_def example_demuxer_def)
  ultimately show ?thesis
    using loop closing_source.receiveWhile_end [OF src, of v' d'] by fastforce
qed

text \<open>
  C27: after the peer has shut the connection down in order, \<open>recv\<close> returns zero at once and
  \<open>poll\<close> always reports the socket as readable. The receive thread over such a socket never
  ends by itself: it reads zero bytes for ever, and the error flag stays clear.
\<close>

theorem receiver_spins_after_shutdown:
  assumes "\<And>n k r bytes k'. shut k \<Longrightarrow> sys_recv K (m_socket s) n k = (r, bytes, k') \<Longrightarrow> r = 0 \<and> shut k'"
    "\<And>e t k v revents k'. shut k \<Longrightarrow> sys_poll K (m_socket s) e t k = (v, revents, k') \<Longrightarrow>
      v = 1 \<and> e \<in> set revents \<and> shut k'"
    "shut k" "\<not> dmx_transportError d"
  shows "receiveLoop h (socket_reader K s) (\<lambda>_. False) d k = None"
proof (rule receiveLoop_spins [where shut = shut])
  fix sz w n bs w'
  assume "shut w" "rd_read (socket_reader K s) sz w = (n, bs, w')"
  then show "n = 0 \<and> shut w'"
    using assms(1) by (fastforce simp: socket_reader_def Socket_read_def Let_def split: prod.splits)
next
  fix ms w b w'
  assume "shut w" "rd_readyForReading (socket_reader K s) ms w = (b, w')"
  then show "b \<and> shut w'"
    using assms(2) by (fastforce simp: socket_reader_def Socket_readyForReading_def
        WaitForSingleEvent_def split: prod.splits)
qed (fact assms)+

theorem receiver_spins_after_shutdown_witness:
  "receiveLoop LittleEndian
     (socket_reader (memory_calls\<lparr>sys_recv := \<lambda>_ _ k. (0, [], k), sys_poll := \<lambda>_ e _ k. (1, [e], k)\<rparr>) example_socket)
     (\<lambda>_. False) example_demuxer example_kernel = None"
  by (rule receiver_spins_after_shutdown [where shut = "\<lambda>_. True"]) auto

section \<open>Failures of the transport\<close>



text \<open>
  A write that fails while the type of a packet is sent does not keep the size and the data
  from being written: a transport that fails once and then recovers carries a packet without
  its type, which the other end takes for the header of the next packet. (The error flag is
  set, so it is the last packet.)
\<close>

lemma failed_header_leaves_fragment:
  "\<exists>m' w'. sendPacket h failing_once example_packet example_muxer (False, []) = Some (Inr (m', w')) \<and>
     mux_transportError m' \<and> snd w' = be32 3 @ m_data example_packet"
  by (simp add: sendPacket_def writeBytes.simps failing_once_def getType_def getDataSize_def
      example_packet_def InvalidPacket_def example_muxer_def)

text \<open>
  C29: what the unit test of the muxer checks holds in every run, not only in the one that the test
  happens to make: over its mock socket, and as long as the test posts packets of the size that the
  socket expects, each packet is sent by three writes, of its type, of its size and of its data, all
  checks of the socket pass, and no write fails.
\<close>

theorem muxer_test_passes:
  assumes "PacketMuxer_ctor names = Inr m0" "length names + 2 \<le> 2 ^ 32"
    and "fine_sending h (MuxerTestSocket_writer h) m0 (MuxerTestSocket_ctor n uninitialised) s"
    and "\<forall>p \<in> set (posted s). test_packet n p"
  shows "checks (world s) \<and> (in_pass s = None \<longrightarrow> m_expected (world s) = ExpectType) \<and>
    (\<not> mux_transportError (mux s) \<longrightarrow> no_error s \<and>
      accepted (world s) @ unwritten s = concat (map wire (transmitted s @ in_hand s)))"
proof -
  have inv: "test_inv n s" by (rule TestPacketMuxer_checks [OF assms(3,1,2,4)])
  moreover from muxer_test.fine_sending_inv [OF assms(3,1,2)]
  have "no_error s \<longrightarrow> accepted (world s) @ unwritten s = concat (map wire (transmitted s @ in_hand s))"
    by (simp only: fine_inv_def map_append concat_append) (simp add: MuxerTestSocket_ctor_def)
  ultimately show ?thesis using test_inv_no_error [OF inv] by (simp only: test_inv_def option.case simp_thms) auto
qed

theorem muxer_test_passes_witness:
  "\<exists>s :: muxer_test_socket sender. transmitted s = [control_packet Hello] \<and> checks (world s) \<and> m_expected (world s) = ExpectType"
proof -
  obtain s where s: "fine_sending BigEndian (MuxerTestSocket_writer BigEndian) example_muxer (MuxerTestSocket_ctor 11 0) s"
    "posted s = [control_packet Hello]" "transmitted s = [control_packet Hello]" "in_pass s = None"
    using test_socket_hello by blast
  have "\<forall>p \<in> set (posted s). test_packet 11 p"
    by (simp add: s(2) test_packet_def control_packet_def ControlPacket_def)
  from muxer_test_passes [OF example_ctor example_names_fit s(1) this] s(3,4) show ?thesis by blast
qed

section \<open>Posting\<close>

text \<open>
  What \<open>emplacePacket\<close> does in every case. An unknown name throws and changes nothing; a
  failed construction throws and changes no queue and no counter; otherwise the new packet,
  of the type of the name, is at the end of its queue and counted, and every other queue is
  as it was.
\<close>

lemma emplacePacket_effect:
  "case toId (mux_packetIds m) name of
     Inl e \<Rightarrow> e = OutOfRange \<and> emplacePacket name mk m = (Inl OutOfRange, m)
   | Inr t \<Rightarrow>
       (case mk t of
          Inl e \<Rightarrow> fst (emplacePacket name mk m) = Inl e \<and>
            txQueue (snd (emplacePacket name mk m)) = txQueue m \<and>
            mux_numPosted (snd (emplacePacket name mk m)) = mux_numPosted m
        | Inr p \<Rightarrow> fst (emplacePacket name mk m) = Inr () \<and>
            txQueue (snd (emplacePacket name mk m)) = (txQueue m)(t := txQueue m t @ [p]) \<and>
            mux_numPosted (snd (emplacePacket name mk m)) = mux_numPosted m + 1 \<and>
            mux_numSent (snd (emplacePacket name mk m)) = mux_numSent m)"
  by (auto simp: emplacePacket_def toId_def Let_def signalPacketPosted_def fun_eq_iff
      split: sum.split option.split)

section \<open>Identifiers\<close>

text \<open>
  C30: the table of identifiers. Construction fails exactly when a name is repeated or is one
  of the two reserved names; otherwise identifiers and names translate into each other, the
  application's names having the identifiers from 2 on in the order of the list, as long
  as a \<open>uint32_t\<close> can count them.
\<close>

theorem identifiers_roundtrip:
  assumes "length names + 2 \<le> 2 ^ 32"
  shows "case IdManager_ctor names of
      Inl e \<Rightarrow> e = AssertionFailed \<and> \<not> distinct (InvalidString # ControlString # names)
    | Inr ids \<Rightarrow> distinct (InvalidString # ControlString # names) \<and>
        (\<forall>t n. toString ids t = Inr n \<longleftrightarrow> toId ids n = Inr t) \<and>
        (\<forall>i < length names. toId ids (names ! i) = Inr (of_nat (i + 2)))"
proof (cases "distinct (InvalidString # ControlString # names)")
  case True
  then obtain ids where ids: "IdManager_ctor names = Inr ids" by (simp add: IdManager_ctor_spec)
  note wf = IdManager_ctor_wf [OF ids]
  have "ids_valid ids" using wf assms by (simp add: ids_valid_def)
  moreover have "toId ids (names ! i) = Inr (of_nat (i + 2))" if "i < length names" for i
    unfolding toId_iff [OF wf(1)] wf(2) using that by (intro exI [of _ "i + 2"]) auto
  ultimately show ?thesis using ids True table.to_string_iff by auto
qed (auto simp: IdManager_ctor_spec)

theorem identifiers_roundtrip_witness:
  "toId example_ids ''A'' = Inr (of_nat (0 + 2)) \<and> toString example_ids 2 = Inr ''A''"
proof -
  have "(\<forall>t n. toString example_ids t = Inr n \<longleftrightarrow> toId example_ids n = Inr t) \<and>
      (\<forall>i < length [''A'']. toId example_ids ([''A''] ! i) = Inr (of_nat (i + 2)))"
    using identifiers_roundtrip [of "[''A'']"] by (simp add: example_ids_ctor)
  then show ?thesis by force
qed

section \<open>The stream format\<close>

text \<open>
  The wire format is unambiguous: two sequences of packets, of data whose size fits the
  header, that give the same stream are the same.
\<close>

lemma wire_unambiguous:
  assumes "\<forall>p \<in> set ps \<union> set qs. length (m_data p) < 2 ^ 32"
  shows "concat (map wire ps) = concat (map wire qs) \<longleftrightarrow> ps = qs"
  using assms
proof (induction ps arbitrary: qs)
  case Nil
  then show ?case by (cases qs) (auto simp: wire_def be32_def)
next
  case (Cons p ps)
  then show ?case
    by (cases qs) (auto simp: wire_inject, simp add: wire_def be32_def)
qed

lemma wire_unambiguous_witness:
  "concat (map wire [example_packet, ComPacket_default]) \<noteq> concat (map wire [ComPacket_default, example_packet])"
  using wire_unambiguous [of "[example_packet, ComPacket_default]" "[ComPacket_default, example_packet]"]
  by (simp add: example_packet_def ComPacket_default_def InvalidPacket_def)

section \<open>The threads of the demuxer\<close>

text \<open>
  C9: in every state that the receive thread, the program and the destructor can reach, over
  any transport and whatever subscription objects are made, moved, swapped and destroyed, the
  subscribers of each type are exactly those that a live subscription object holds, each once.
\<close>

theorem subscribers_are_held:
  assumes "PacketDemuxer_ctor names = Inr d0" "length names + 2 \<le> 2 ^ 32" "fine_receiving h R reenters d0 w0 s"
  shows "mset (subscribers (rs_demuxer s) t) =
      filter_mset (\<lambda>b. sub_type b = t) (mset (held (cl_handles (rs_client s)))) \<and>
    distinct (map sub_addr (held (cl_handles (rs_client s))))"
  using fine_receiving_client [OF assms(3,1,2)] by (simp add: client_inv_def registered_def rs_demuxer_def)

theorem subscribers_are_held_witness:
  "\<exists>s :: (string, memory_kernel) receiver. held (cl_handles (rs_client s)) = [example_subscriber] \<and>
    mset (subscribers (rs_demuxer s) 2) = {#example_subscriber#}"
proof -
  let ?s = "(start_receiver example_empty_demuxer example_kernel)\<lparr>rs_constructed := True, rs_client := example_client\<rparr>"
  from subscribers_are_held [OF example_demuxer_ctor example_names_fit fine_receiving_reach [OF example_subscribed_fine]]
  have "mset (subscribers (rs_demuxer ?s) 2) = filter_mset (\<lambda>b. sub_type b = 2) (mset (held (cl_handles (rs_client ?s))))"
    by blast
  then show ?thesis by (intro exI [of _ ?s]) (simp add: example_client_def example_subscriber_def)
qed

text \<open>
  C10: no operation on subscription objects ends the process: the destructor of a subscription
  object always finds its subscriber registered, exactly once.
\<close>

theorem subscriptions_never_fail:
  assumes "PacketDemuxer_ctor names = Inr d0" "length names + 2 \<le> 2 ^ 32" "fine_receiving h R reenters d0 w0 s"
    "rs_constructed s" "rs_dtor s \<noteq> D_Joined" "client_step (rs_client s) r" "\<not> lock_held s"
  shows "\<exists>c. r = Inr c \<and> fine_receiving h R reenters d0 w0 (s\<lparr>rs_client := c\<rparr>)"
  using client_step_inv [OF assms(6) fine_receiving_client [OF assms(3,1,2)]] assms(3-7)
  by (auto intro: fine_receiving.step fine_receive_step.uses)

theorem subscriptions_never_fail_witness:
  "\<exists>(s :: (string, memory_kernel) receiver) c. client_step example_client (Inr c) \<and> cl_handles c = [] \<and>
    subscribers (cl_demuxer c) 2 = [] \<and>
    fine_receiving BigEndian example_reader (\<lambda>_. False) example_empty_demuxer example_kernel (s\<lparr>rs_client := c\<rparr>)"
proof -
  let ?s = "(start_receiver example_empty_demuxer example_kernel)\<lparr>rs_constructed := True, rs_client := example_client\<rparr>"
  let ?c = "\<lparr>cl_demuxer = set_subscribers 2 [] example_demuxer, cl_handles = []\<rparr>"
  have "client_step (rs_client ?s) (Inr ?c)" "\<not> lock_held ?s" using example_client_destroys by (simp_all add: lock_held_def)
  from subscriptions_never_fail [OF example_demuxer_ctor example_names_fit
      fine_receiving_reach [OF example_subscribed_fine [where reenters = "\<lambda>_. False" and h = BigEndian]] _ _ this]
  have "fine_receiving BigEndian example_reader (\<lambda>_. False) example_empty_demuxer example_kernel (?s\<lparr>rs_client := ?c\<rparr>)"
    by simp
  with example_client_destroys show ?thesis by (intro exI [of _ ?s] exI [of _ ?c]) simp
qed

text \<open>
  C11: subscription objects may outlive the demuxer. When its destructor has come back, whatever
  objects are still alive can be moved, swapped and destroyed in any order: no destructor calls the
  demuxer that is gone, because the count of the shared pointer tells that its queue is, too. But
  asking such an object whether it is subscribed follows a dangling reference.
\<close>

theorem subscriptions_outlive_demuxer:
  assumes "PacketDemuxer_ctor names = Inr d0" "length names + 2 \<le> 2 ^ 32" "fine_receiving h R reenters d0 w0 s"
    "rs_dtor s = D_Joined" "outliving (cl_handles (rs_client s)) r"
  shows "\<exists>hs. r = Inr hs \<and> (\<forall>x h. map_of hs x = Some h \<longrightarrow> orphan_dtor hs h = Inr ())"
proof -
  obtain hs where hs: "r = Inr hs" "orphans_ok hs"
    using outliving_ok [OF assms(5) client_orphans [OF fine_receiving_client [OF assms(3,1,2)]]] by blast
  have "orphan_dtor hs h = Inr ()" if "map_of hs x = Some h" for x h
    using that orphan_alone [OF hs(2), of x] by (auto simp: orphan_dtor_def split: option.splits)
  with hs(1) show ?thesis by blast
qed

theorem subscriptions_outlive_demuxer_witness:
  "\<exists>s :: (string, memory_kernel) receiver. rs_dtor s = D_Joined \<and>
    held (cl_handles (rs_client s)) = [example_subscriber] \<and>
    orphan_step (cl_handles (rs_client s)) (Inr []) \<and>
    orphan_isSubscribed (Some example_subscriber) = Inl UndefinedBehaviour"
proof -
  obtain s where s: "fine_receiving BigEndian example_reader (\<lambda>_. False) example_empty_demuxer example_kernel s"
    "rs_dtor s = D_Joined" "cl_handles (rs_client s) = cl_handles example_client"
    using example_outlived by blast
  let ?hs = "cl_handles (rs_client s)"
  have at: "map_of ?hs 7 = Some (Some example_subscriber)" "drop_handle 7 ?hs = []" "held ?hs = [example_subscriber]"
    by (simp_all add: s(3) example_client_def)
  obtain hs where "Inr ?hs = (Inr hs :: string handles outcome)"
    "\<forall>x h. map_of hs x = Some h \<longrightarrow> orphan_dtor hs h = Inr ()"
    using subscriptions_outlive_demuxer [OF example_demuxer_ctor example_names_fit s(1,2) outliving.start] by blast
  then have "orphan_dtor ?hs (Some example_subscriber) = Inr ()" using at(1) by simp
  from orphan_step.destroys [OF at(1) this] s(2) at(2,3) show ?thesis
    by (intro exI [of _ s]) (simp add: orphan_isSubscribed_def)
qed

text \<open>
  Callbacks are called only for a packet that the receive thread has just taken, and then
  those of the subscription objects of its type that are alive at this moment, each once: none
  is called after its subscription object is gone.
\<close>

lemma callbacks_are_live:
  assumes "PacketDemuxer_ctor names = Inr d0" "length names + 2 \<le> 2 ^ 32" "receiving h R d0 w0 s"
    "receive_step h R s s'"
  shows "rs_calls s' = rs_calls s \<or>
    (\<exists>ps p calls. rs_taken s = ps @ [p] \<and> m_type p \<noteq> ControlPacket \<and> rs_calls s' = rs_calls s @ calls \<and>
      mset calls = image_mset (\<lambda>b. (sub_callback b, p))
        (filter_mset (\<lambda>b. sub_type b = m_type p) (mset (held (cl_handles (rs_client s))))))"
  using receive_step_calls [OF assms(4)]
proof
  assume "rs_pc s = R_Dispatch \<and> m_type (rs_packet s) \<noteq> ControlPacket \<and>
    rs_calls s' = rs_calls s @ dispatched (rs_demuxer s) (rs_packet s)"
  then show ?thesis
    using live_dispatched [OF receiving_client [OF assms(3,1,2)], of "rs_packet s"] dispatching_taken [OF assms(3)]
    unfolding rs_demuxer_def by blast
qed simp

lemma callbacks_are_live_witness:
  "\<exists>s s'. receive_step LittleEndian example_reader s s' \<and> rs_calls s = [] \<and> rs_calls s' = [(''log'', example_packet)] \<and>
    held (cl_handles (rs_client s)) = [example_subscriber]"
proof -
  obtain s where s: "(receive_step LittleEndian example_reader)\<^sup>*\<^sup>* (example_subscribed (arrived example_stream)) s"
    "rs_pc s = R_Dispatch" "rs_packet s = example_packet" "rs_client s = example_client" "rs_calls s = []"
    "rs_taken s = [control_packet Hello, example_packet]"
    using example_dispatching by blast
  obtain s' where step: "receive_step LittleEndian example_reader s s'" "rs_calls s' = [(''log'', example_packet)]"
    using example_posts [OF s(2-5)] by blast
  have "receiving LittleEndian example_reader example_empty_demuxer (arrived example_stream) s"
    by (rule receiving_steps [OF s(1) example_subscribed_receiving])
  from callbacks_are_live [OF example_demuxer_ctor _ this step(1)] step s(4-6) show ?thesis
    by (intro exI [of _ s] exI [of _ s']) (simp add: example_client_def)
qed

text \<open>
  C12: callbacks get every packet. Let a stream start with packets that the receiver can take, Hello
  first, cut and delayed in any way, and let the threads of a demuxer run fairly without its
  destructor. Then the callback of a subscription that exists throughout is called with every packet of
  its type after the first that has not been taken before the run, while other subscriptions come
  and go.
\<close>

theorem callbacks_get_every_packet:
  assumes "source_contract R pending lag" "receives_fairly h R reenters pending (concat (map wire ps)) g"
    and "\<forall>p \<in> set ps. receivable p" "starts_with_Hello ps" "\<forall>cb. \<not> reenters cb"
    and "0 < n" "n < length ps" "length (rs_taken (g 0)) \<le> n" "m_type (ps ! n) \<noteq> ControlPacket"
    and "\<And>j. x \<in> set (subscribers (rs_demuxer (g j)) (m_type (ps ! n)))"
  shows "\<exists>k. (sub_callback x, ps ! n) \<in> set (rs_calls (g k))"
  using fair_calls [OF assms] by (simp add: called_for_def)

theorem callbacks_get_every_packet_witness:
  "\<exists>(g :: nat \<Rightarrow> (string, memory_kernel) receiver) k. rs_calls (g 0) = [] \<and>
    receives_fairly BigEndian example_reader (\<lambda>_. False) incoming example_stream g \<and>
    (''log'', example_packet) \<in> set (rs_calls (g k))"
proof -
  let ?ps = "[control_packet Hello, example_packet]"
  let ?s = "(start_receiver example_empty_demuxer (arrived example_stream))\<lparr>rs_constructed := True, rs_client := example_client\<rparr>"
  have s: "fine_receiving BigEndian example_reader (\<lambda>_. False) example_empty_demuxer (arrived example_stream) ?s"
    by (rule fine_receiving_reach) (rule example_subscribed_fine)
  have bytes: "incoming (arrived example_stream) = concat (map wire ?ps)" by (simp add: arrived_def example_stream_def)
  have "rs_dtor ?s = D_None" by simp
  from receives_fairly_exists [OF example_demuxer_ctor s this, of incoming]
  obtain g where g: "g 0 = ?s" "run (receive_thread BigEndian example_reader (\<lambda>_. False)) g"
    "receives_fairly BigEndian example_reader (\<lambda>_. False) incoming (concat (map wire ?ps)) g"
    unfolding bytes by blast
  have held: "example_subscriber \<in> set (subscribers (rs_demuxer (g j)) (m_type (?ps ! 1)))" for j
  proof -
    have "subscribers (rs_demuxer (g j)) = subscribers (rs_demuxer ?s)"
      using run_invariant [OF g(2), of "\<lambda>s. subscribers (rs_demuxer s) = subscribers (rs_demuxer ?s)" 0 j]
        receive_thread_subscribers g(1) by fastforce
    then show ?thesis
      by (simp add: example_client_def example_demuxer_def subscribers_def example_packet_def)
  qed
  have fit: "\<forall>p \<in> set ?ps. receivable p" "starts_with_Hello ?ps" "m_type (?ps ! 1) \<noteq> ControlPacket"
    using receivable_hello
    by (simp_all add: receivable_def starts_with_Hello_def example_packet_def InvalidPacket_def ControlPacket_def)
  have "length (rs_taken (g 0)) \<le> 1" by (simp add: g(1))
  from callbacks_get_every_packet [OF example_source g(3) fit(1,2) _ _ _ this fit(3) held]
  obtain k where "(sub_callback example_subscriber, example_packet) \<in> set (rs_calls (g k))" by auto
  moreover have "rs_calls (g 0) = []" by (simp add: g(1))
  ultimately show ?thesis using g(3) by (auto simp: example_subscriber_def example_stream_def)
qed

text \<open>
  C13: callbacks and the mutex, call by call. A callback is called only with \<open>m_subscriberLock\<close> held,
  for the packet taken last, and only when its subscription object is alive and subscribed to the
  type of this packet. No step of any thread changes the subscribers while the mutex is held; so
  those called for a packet and those still to be called are, together, the subscribers of all live
  objects of its type, each once, and the mutex is not unlocked before all have been called.
\<close>

theorem callbacks_hold_the_lock:
  assumes "PacketDemuxer_ctor names = Inr d0" "length names + 2 \<le> 2 ^ 32"
    "fine_receiving h R reenters d0 v0 s" "fine_receive_step h R reenters s s'"
  shows "(rs_calls s' = rs_calls s \<or>
      (\<exists>x p ps. x \<in> set (held (cl_handles (rs_client s))) \<and> sub_type x = m_type p \<and> rs_taken s = ps @ [p] \<and>
        rs_calls s' = rs_calls s @ [(sub_callback x, p)] \<and> lock_held s)) \<and>
    (lock_held s \<longrightarrow> subscribers (rs_demuxer s') = subscribers (rs_demuxer s)) \<and>
    (\<forall>p todo. rs_at s = Calling p todo \<longrightarrow> (\<exists>called before.
        mset (called @ todo) = filter_mset (\<lambda>b. sub_type b = m_type p) (mset (held (cl_handles (rs_client s)))) \<and>
        rs_calls s = before @ map (\<lambda>x. (sub_callback x, p)) called \<and>
        (rs_at s' = Outside \<longrightarrow> todo = [])))"
proof (intro conjI allI impI)
  note inv = fine_receiving_calls_inv [OF assms(3)] fine_receiving_client [OF assms(3,1,2)]
  show "rs_calls s' = rs_calls s \<or>
      (\<exists>x p ps. x \<in> set (held (cl_handles (rs_client s))) \<and> sub_type x = m_type p \<and> rs_taken s = ps @ [p] \<and>
        rs_calls s' = rs_calls s @ [(sub_callback x, p)] \<and> lock_held s)"
    using fine_step_calls [OF assms(4) _ inv] by metis
  show "subscribers (rs_demuxer s') = subscribers (rs_demuxer s)" if "lock_held s"
    using that lock_keeps_subscribers [OF assms(4)] by metis
  show "\<exists>called before.
      mset (called @ todo) = filter_mset (\<lambda>b. sub_type b = m_type p) (mset (held (cl_handles (rs_client s)))) \<and>
      rs_calls s = before @ map (\<lambda>x. (sub_callback x, p)) called \<and> (rs_at s' = Outside \<longrightarrow> todo = [])"
    if at: "rs_at s = Calling p todo" for p todo
    using calling_all [OF inv at] calling_until_done [OF assms(4) at] by blast
qed

theorem callbacks_hold_the_lock_witness:
  "\<exists>(s :: (string, memory_kernel) receiver) s'. fine_receive_step LittleEndian example_reader (\<lambda>_. False) s s' \<and>
    rs_calls s' = rs_calls s @ [(''log'', example_packet)] \<and> lock_held s"
proof -
  obtain s s' where s: "fine_receiving LittleEndian example_reader (\<lambda>_. False) example_empty_demuxer (arrived example_stream) s"
    "fine_receive_step LittleEndian example_reader (\<lambda>_. False) s s'"
    "rs_calls s' = rs_calls s @ [(''log'', example_packet)]"
    using example_calling by blast
  with callbacks_hold_the_lock [OF example_demuxer_ctor example_names_fit s(1,2)] show ?thesis by auto
qed



text \<open>
  C22: the destructor of a demuxer finishes. In every run in which the receive thread and the
  destructor go on whenever they can, wherever the thread is when the destructor is entered, in the
  middle of a packet or between two callbacks with the mutex held, over any transport and
  whatever the program does with its subscriptions meanwhile, the thread returns and \<open>join\<close> comes
  back, unless a callback re-enters the demuxer. The process can only end, by a hostile header,
  before the destructor has set the flag.
\<close>

theorem destructor_finishes_when_fair:
  assumes "PacketDemuxer_ctor names = Inr d0" "length names + 2 \<le> 2 ^ 32" "\<forall>cb. \<not> reenters cb"
    and "fine_receiving h R reenters d0 w0 (f 0)" "run (fine_receive_step h R reenters) f"
    and "weakly_fair (receive_thread h R reenters) f" "weakly_fair (destructor_thread h R reenters) f"
    and "rs_dtor (f i) \<noteq> D_None"
  shows "(\<exists>j\<ge>i. rs_dtor (f j) = D_Joined \<or> rs_pc (f j) = R_Aborted) \<and>
    (rs_dtor (f i) \<noteq> D_Entered \<and> rs_pc (f i) \<noteq> R_Aborted \<longrightarrow> (\<exists>j\<ge>i. rs_dtor (f j) = D_Joined))"
proof -
  have s: "fine_receiving h R reenters d0 w0 (f i)"
    by (rule fine_receiving_run [OF assms(5,4)])
  note client = fine_receiving_client [OF s assms(1,2)]
  have inv: "destroying (f i)"
    using fine_receiving_calls_inv [OF s] client fine_receiving_flag [OF s] never_stuck [OF s assms(3)] assms(8)
    by (simp add: destroying_def)
  obtain j where j: "i \<le> j" "rs_dtor (f j) = D_Joined \<or> rs_pc (f j) = R_Aborted"
    using fair_end [OF assms(3,5-7) inv] by (auto simp: destroyed_def)
  moreover have "rs_pc (f j) \<noteq> R_Aborted" if "rs_dtor (f i) \<noteq> D_Entered" "rs_pc (f i) \<noteq> R_Aborted"
  proof -
    have "stopping (f i)" using client destroying_flag [OF inv that(1)] that(2) by (simp add: stopping_def)
    with run_invariant [OF assms(5), of stopping i j] stopping_step j(1) have "stopping (f j)" by blast
    then show ?thesis by (simp add: stopping_def)
  qed
  ultimately show ?thesis by blast
qed

theorem destructor_finishes_when_fair_witness:
  "\<exists>(f :: nat \<Rightarrow> (string, memory_kernel) receiver) j. held (cl_handles (rs_client (f 0))) = [example_subscriber] \<and>
    rs_pc (f 0) = R_Handshake \<and> run (fine_receive_step BigEndian example_reader (\<lambda>_. False)) f \<and> rs_dtor (f j) = D_Joined"
proof -
  let ?s = "(start_receiver example_empty_demuxer example_kernel)\<lparr>rs_constructed := True, rs_client := example_client\<rparr>"
  let ?s1 = "?s\<lparr>rs_dtor := D_Entered\<rparr>"
  let ?s2 = "with_demuxer (signalTransportError (rs_demuxer ?s1)) (?s1\<lparr>rs_dtor := D_Signalled\<rparr>)"
  have "fine_receive_step BigEndian example_reader (\<lambda>_. False) ?s ?s1"
    by (rule fine_receive_step.enters_dtor) simp_all
  with example_subscribed_fine have "(fine_receive_step BigEndian example_reader (\<lambda>_. False))\<^sup>*\<^sup>*
      (start_receiver example_empty_demuxer example_kernel) ?s1" by (rule rtranclp.rtrancl_into_rtrancl)
  moreover have "fine_receive_step BigEndian example_reader (\<lambda>_. False) ?s1 ?s2"
    by (rule fine_receive_step.destruction [OF dtor_step.signals]) simp_all
  ultimately have "(fine_receive_step BigEndian example_reader (\<lambda>_. False))\<^sup>*\<^sup>*
      (start_receiver example_empty_demuxer example_kernel) ?s2" by (rule rtranclp.rtrancl_into_rtrancl)
  note s = fine_receiving_reach [OF this]
  obtain f where f: "f 0 = ?s2" "run (fine_receive_step BigEndian example_reader (\<lambda>_. False)) f"
    "weakly_fair (receive_thread BigEndian example_reader (\<lambda>_. False)) f"
    "weakly_fair (destructor_thread BigEndian example_reader (\<lambda>_. False)) f"
    using fair_receiving_exists [of ?s2 BigEndian example_reader "\<lambda>_. False"] by blast
  have start: "fine_receiving BigEndian example_reader (\<lambda>_. False) example_empty_demuxer example_kernel (f 0)"
    using s f(1) by simp
  have "rs_dtor (f 0) = D_Signalled" "rs_pc (f 0) = R_Handshake" by (simp_all add: f(1))
  with destructor_finishes_when_fair [OF example_demuxer_ctor example_names_fit _ start f(2-4), of 0]
  have "\<exists>j. rs_dtor (f j) = D_Joined" by auto
  moreover have "held (cl_handles (rs_client (f 0))) = [example_subscriber]" by (simp add: f(1) example_client_def)
  ultimately show ?thesis using f(2) \<open>rs_pc (f 0) = R_Handshake\<close> by blast
qed

text \<open>
  Without fairness: from every reachable state in which
  it has been entered and the process has not ended, wherever the receive thread is, in the middle
  of a packet or between two callbacks with the mutex held, and over any transport, there is a
  continuation in which the thread returns and \<open>join\<close> comes back, unless a callback re-enters the
  demuxer. What it prints when no subscription object is left is nothing.
\<close>

lemma destructor_completes_unless_reentered:
  assumes "PacketDemuxer_ctor names = Inr d0" "length names + 2 \<le> 2 ^ 32" "fine_receiving h R reenters d0 w0 s"
    "rs_dtor s \<noteq> D_None" "rs_pc s \<noteq> R_Aborted" "\<forall>cb. \<not> reenters cb"
  shows "(\<exists>s'. (fine_receive_step h R reenters)\<^sup>*\<^sup>* s s' \<and> rs_dtor s' = D_Joined) \<and>
    (\<forall>s'. dtor_step s s' \<longrightarrow> held (cl_handles (rs_client s)) = [] \<longrightarrow>
      rs_warnings s' = rs_warnings s \<or> rs_warnings s' = [])"
  using fine_destructor_completes [OF fine_receiving_calls_inv [OF assms(3)] fine_receiving_client [OF assms(3,1,2)]
      fine_receiving_flag [OF assms(3)] assms(4,5) never_stuck [OF assms(3,6)] assms(6)]
    dtor_no_warnings [OF _ fine_receiving_client [OF assms(3,1,2)]]
  by blast

lemma destructor_completes_unless_reentered_witness:
  "\<exists>(s :: (string, memory_kernel) receiver) s'. held (cl_handles (rs_client s)) = [example_subscriber] \<and>
    (fine_receive_step BigEndian example_reader (\<lambda>_. False))\<^sup>*\<^sup>* s s' \<and> rs_dtor s' = D_Joined"
proof -
  let ?s = "(start_receiver example_empty_demuxer example_kernel)\<lparr>rs_constructed := True, rs_client := example_client\<rparr>"
  let ?s1 = "?s\<lparr>rs_dtor := D_Entered\<rparr>"
  have "fine_receive_step BigEndian example_reader (\<lambda>_. False) ?s ?s1"
    by (rule fine_receive_step.enters_dtor) simp_all
  with example_subscribed_fine have "(fine_receive_step BigEndian example_reader (\<lambda>_. False))\<^sup>*\<^sup>*
      (start_receiver example_empty_demuxer example_kernel) ?s1" by (rule rtranclp.rtrancl_into_rtrancl)
  from destructor_completes_unless_reentered [OF example_demuxer_ctor example_names_fit fine_receiving_reach [OF this]]
  have "\<exists>s'. (fine_receive_step BigEndian example_reader (\<lambda>_. False))\<^sup>*\<^sup>* ?s1 s' \<and> rs_dtor s' = D_Joined" by simp
  moreover have "held (cl_handles (rs_client ?s1)) = [example_subscriber]" by (simp add: example_client_def)
  ultimately show ?thesis by blast
qed



text \<open>The same two facts for whole calls of \<open>receivePacket\<close> as steps.\<close>

lemma demuxer_can_be_destroyed:
  assumes "PacketDemuxer_ctor names = Inr d0" "length names + 2 \<le> 2 ^ 32" "receiving h R d0 w0 s"
    "rs_dtor s \<noteq> D_None" "rs_pc s \<noteq> R_Aborted"
  shows "(\<exists>s'. (receive_step h R)\<^sup>*\<^sup>* s s' \<and> rs_dtor s' = D_Joined) \<and>
    (\<forall>s'. dtor_step s s' \<longrightarrow> held (cl_handles (rs_client s)) = [] \<longrightarrow>
      rs_warnings s' = rs_warnings s \<or> rs_warnings s' = [])"
  using destructor_completes [OF receiving_client [OF assms(3,1,2)] receiving_flag [OF assms(3)] assms(4,5)]
    dtor_no_warnings [OF _ receiving_client [OF assms(3,1,2)]]
  by blast

lemma demuxer_can_be_destroyed_witness:
  "\<exists>s'. (receive_step BigEndian example_reader)\<^sup>*\<^sup>* (example_destroyed D_Signalled) s' \<and> rs_dtor s' = D_Joined"
  using demuxer_can_be_destroyed [OF example_demuxer_ctor _ example_closing_demuxer]
  by (simp add: example_destroyed_def start_receiving_def)

lemma receiveLoop_is_a_run:
  assumes "receiveLoop h R (\<lambda>_. False) d w = Some r"
  shows "\<exists>s. (receive_step h R)\<^sup>*\<^sup>* (start_receiving d w) s \<and>
    (case r of Inl e \<Rightarrow> rs_pc s = R_Aborted
     | Inr (calls, d', w') \<Rightarrow> rs_pc s = R_Exited \<and> rs_calls s = calls \<and> rs_demuxer s = d' \<and> rs_world s = w')"
  using receiveLoop_steps [OF assms] by (simp add: ends_as_def)

lemma receiveLoop_is_a_run_witness:
  "\<exists>s. (receive_step BigEndian example_reader)\<^sup>*\<^sup>* (start_receiving example_demuxer (arriving example_stream)) s \<and>
    rs_pc s = R_Exited \<and> rs_calls s = [(''log'', example_packet)]"
proof -
  obtain d' v' where "receiveLoop BigEndian example_reader (\<lambda>_. False) example_demuxer (arriving example_stream) =
      Some (Inr ([(''log'', example_packet)], d', v'))"
    using example_received by blast
  from receiveLoop_is_a_run [OF this] show ?thesis by auto
qed

section \<open>Sockets\<close>



text \<open>
  C33: a socket over a kernel with the documented behaviour of \<open>recv\<close> and \<open>poll\<close> is a reader
  that keeps its contract, and after the peer has aborted the connection it delivers what is
  pending and then fails.
\<close>

theorem socket_keeps_reader_contract:
  assumes "kernel_receives K (m_socket s) pending lag" "kernel_fails K (m_socket s) pending lag closed"
  shows "closing_contract \<lparr>rd_setBlocking = Socket_setBlocking K s, rd_read = Socket_read K s,
    rd_readyForReading = Socket_readyForReading K s\<rparr> pending lag closed"
  using socket_closing [OF assms] by (simp add: socket_reader_def)

theorem socket_keeps_reader_contract_witness:
  "closing_contract \<lparr>rd_setBlocking = Socket_setBlocking memory_calls example_socket,
     rd_read = Socket_read memory_calls example_socket,
     rd_readyForReading = Socket_readyForReading memory_calls example_socket\<rparr> incoming (length \<circ> script) reset"
  by (rule socket_keeps_reader_contract [OF memory_kernel_receives memory_kernel_fails])

text \<open>
  What \<open>SendTo\<close> and \<open>ReceiveFrom\<close> return: -1 for an invalid address without any system
  call, 0 when the call would block, and otherwise the result of the call, as long as it is
  an \<open>int\<close>; the address of the sender is stored exactly when an address is given and the
  call did not fail.
\<close>

lemma datagram_results:
  assumes "sys_sendto K (m_socket s) data to k = (r, k1)" "- (2 ^ 31) \<le> r" "r < 2 ^ 31"
    "sys_recvfrom K (m_socket s) n k = (q, bytes, source, k2)" "-1 \<le> q" "q < 2 ^ 31"
  shows "UdpSocket_SendTo K s to data k =
      (if \<not> IsValid to then (-1, k)
       else if r = -1 \<and> would_block (sys_errno K k1) then (0, k1) else (r, k1)) \<and>
    UdpSocket_ReceiveFrom K s n None k =
      (if q = -1 \<and> would_block (sys_errno K k2) then 0 else q, bytes, None, k2) \<and>
    UdpSocket_ReceiveFrom K s n (Some a) k =
      (if \<not> IsValid a then (-1, [], Some a, k)
       else if q = -1 then (if would_block (sys_errno K k2) then 0 else -1, bytes, Some a, k2)
       else (q, bytes, Some source, k2))"
  using assms by (auto simp: UdpSocket_SendTo_def UdpSocket_ReceiveFrom_def Let_def)

lemma datagram_results_witness:
  "UdpSocket_SendTo memory_calls example_socket example_address [1, 2, 3, 4] example_kernel =
     (3, example_kernel\<lparr>script := [0, 2], outgoing := [1, 2, 3]\<rparr>)"
proof -
  have send: "sys_sendto memory_calls (m_socket example_socket) [1, 2, 3, 4] example_address example_kernel =
      (3, example_kernel\<lparr>script := [0, 2], outgoing := [1, 2, 3]\<rparr>)"
    by (simp add: memory_calls_def memory_send_def move_limit_def example_kernel_def Let_def)
  obtain q bytes src k2 where recv: "sys_recvfrom memory_calls (m_socket example_socket) 8 example_kernel =
      (q, bytes, src, k2)" "-1 \<le> q" "q < 2 ^ 31"
    by (simp add: memory_calls_def memory_recv_def example_kernel_def)
  show ?thesis
    using datagram_results [OF send _ _ recv] by (simp add: IsValid_def example_address_def)
qed





text \<open>
  C36: with any number of threads that make their first sockets, in any interleaving, each finds Winsock
  started when it comes back from \<open>initWinsock\<close>, and when all have come back, as many clean-ups
  are registered as there were starts. But the static variable is not locked: two threads can both
  start it.
\<close>

theorem winsock_started_before_use:
  assumes "initialising WS n k s"
  shows "(I_Return \<in> set (init_pcs s) \<longrightarrow> 0 < startups s) \<and>
    (set (init_pcs s) \<subseteq> {I_Return} \<longrightarrow> exit_handlers (process s) = startups s) \<and>
    (\<exists>s2. initialising WS 2 k s2 \<and> startups s2 = 2)"
  using initialising_inv [OF assms] to_register_none [of "init_pcs s"] started_twice [of WS k]
  by (auto simp: init_inv_def)

theorem winsock_started_before_use_witness:
  "\<exists>s. initialising memory_winsock 1 example_kernel s \<and> init_pcs s = [I_Return] \<and> exit_handlers (process s) = startups s"
proof -
  let ?s = "(init_step memory_winsock 0 ^^ 4) (start_init 1 example_kernel)"
  have "initialising memory_winsock 1 example_kernel ?s"
    by (simp add: numeral_eq_Suc initialising.step initialising.start)
  moreover have "init_pcs ?s = [I_Return]"
    by (simp add: start_init_def init_step_def to_pc_def numeral_eq_Suc)
  ultimately show ?thesis using winsock_started_before_use by (intro exI [of _ ?s]) force
qed



text \<open>
  C37: asking for a host name always returns, whatever \<open>getnameinfo\<close> answers; and with its
  documented behaviour a name that fits a buffer of 512 bytes is found, while for a longer one
  the string keeps its value.
\<close>

theorem host_name_lookup:
  "(\<exists>result. GetHostName gni a host = Some result) \<and>
   (finds_name (\<lambda>sz. gni a sz False) name \<longrightarrow>
      GetHostName gni a host = Some (if length name < 512 then name else host))"
  using growBuffer_returns [of 16 "\<lambda>sz. gni a sz False"] GetHostNameInfo_finds [of gni a False name host]
  by (auto simp: GetHostName_def GetHostNameInfo_def)

theorem host_name_lookup_witness:
  "GetHostName (\<lambda>a sz numeric. if 20 < sz then (GaiOk, replicate 20 (CHR ''x'')) else (GaiOverflow, [])) example_address ''old'' =
     Some (replicate 20 (CHR ''x''))"
proof -
  have "finds_name (\<lambda>sz. if 20 < sz then (GaiOk, replicate 20 (CHR ''x'')) else (GaiOverflow, []))
      (replicate 20 (CHR ''x''))"
    by (simp add: finds_name_def)
  then show ?thesis
    using host_name_lookup [of "\<lambda>a sz numeric. if 20 < sz then (GaiOk, replicate 20 (CHR ''x'')) else (GaiOverflow, [])"
        example_address "''old''" "replicate 20 (CHR ''x'')"] by simp
qed



section \<open>Serialisation\<close>

text \<open>
  C39: an object that is serialised to a muxer ends up, as the data of one packet of the right
  type, at the end of the queue of this type, and deserialising a packet with this data gives
  the object back.
\<close>

theorem object_roundtrip:
  assumes "archive_contract enc blocks dec" "length (written (enc x)) \<le> vector_max_size"
    "toId (mux_packetIds m) name = Inr t"
  shows "\<exists>p m'. serialise enc name x m = (Inr (), m') \<and> txQueue m' t = txQueue m t @ [p] \<and>
    m_type p = t \<and> deserialise (blocks x) dec p = Some x"
  using deserialise_packet [OF assms(1), of "\<lparr>m_type = t, m_data = written (enc x)\<rparr>" x] assms(3)
  unfolding serialise_packet [of enc x, OF assms(2)]
  by (auto simp: emplacePacket_def Let_def signalPacketPosted_def)

theorem object_roundtrip_witness:
  "\<exists>p m'. serialise (\<lambda>b. [Putc (if b then 1 else 0)]) ''A'' True example_muxer = (Inr (), m') \<and>
     txQueue m' 2 = [p] \<and> deserialise [1] (\<lambda>bss. Some (concat bss = [1])) p = Some True"
proof -
  have "archive_contract (\<lambda>b. [Putc (if b then 1 else 0)]) (\<lambda>_. [1]) (\<lambda>bss. Some (concat bss = [1]))"
    by (simp add: archive_contract_def)
  from object_roundtrip [OF this, of True example_muxer "''A''" 2] show ?thesis
    by (simp add: example_muxer_def vector_max_size_def txQueue_def) blast
qed

section \<open>Stream buffers\<close>

text \<open>
  C40: whatever is written to an output buffer, in whatever mixture of single characters (all
  256, the one whose \<open>char\<close> equals \<open>eof\<close> included) and blocks, is read back unchanged from an
  input buffer over its vector, in whatever blocks it is read; and after it there is \<open>eof\<close>. A buffer
  made with a size to reserve already contains that many zero bytes, and what is written comes
  after them.
\<close>

theorem stream_buffer_roundtrip:
  assumes "unat n + length (written ws) \<le> vector_max_size"
    "read_calls ns (VectorInputStream_ctor (written ws)) = (bss, s)" "length (written ws) \<le> sum_list ns"
  shows "map_sum id get_vector (write_calls ws VectorOutputStream_ctor) = Inr (written ws) \<and>
    concat bss = written ws \<and> sgetc s = traits_eof \<and>
    bind_outcome (VectorOutputStream_reserve n) (\<lambda>v. map_sum id get_vector (write_calls ws v)) =
      Inr (replicate (unat n) 0 @ written ws)"
  using write_calls_append [of VectorOutputStream_ctor ws] read_calls_take [OF assms(2)] assms(1,3)
    sgetc_end [of s] reserved_bytes_are_content [OF assms(1)]
  by (simp add: VectorOutputStream_ctor_def get_vector_def)

theorem stream_buffer_roundtrip_witness:
  "map_sum id get_vector (write_calls [Putn [1, 2], Putc 255, Putn []] VectorOutputStream_ctor) = Inr [1, 2, 255] \<and>
    fst (read_calls [2, 5] (VectorInputStream_ctor [1, 2, 255])) = [[1, 2], [255]] \<and>
    bind_outcome (VectorOutputStream_reserve 2) (\<lambda>v. map_sum id get_vector (write_calls [Putn [1, 2], Putc 255, Putn []] v)) =
      Inr [0, 0, 1, 2, 255]"
proof -
  have "read_calls [2, 5] (VectorInputStream_ctor (written [Putn [1, 2], Putc 255, Putn []])) =
      ([[1, 2], [255]], \<lparr>in_vector = [1, 2, 255], in_pos = 3\<rparr>)"
    by (simp add: VectorInputStream_ctor_def sgetn_def)
  moreover have "replicate 2 (0 :: byte) = [0, 0]" by (simp add: numeral_2_eq_2)
  ultimately show ?thesis
    using stream_buffer_roundtrip [of 2 "[Putn [1, 2], Putc 255, Putn []]" "[2, 5]"] by (simp add: vector_max_size_def)
qed

section \<open>The message queue\<close>

text \<open>
  The queue is first in, first out: any sequence of emplacing and taking that never takes
  more than there is succeeds, and what is taken followed by what is left is what was
  emplaced, in order.
\<close>

lemma queue_is_fifo:
  assumes "simple.balanced 0 cs"
  shows "\<exists>xs q. simple.run_calls cs SimpleQueue_ctor = Inr (xs, q) \<and> xs @ m_items q = simple.puts cs"
  using simple.run_calls_fifo [of SimpleQueue_ctor cs] assms by (simp add: SimpleQueue_ctor_def)

lemma queue_is_fifo_witness:
  "\<exists>xs q. simple.run_calls [Put 1, Put 2, Take, Put (3 :: nat), Take] SimpleQueue_ctor = Inr (xs, q) \<and>
     xs @ m_items q = [1, 2, 3]"
  using queue_is_fifo [of "[Put 1, Put 2, Take, Put (3 :: nat), Take]"] by simp



section \<open>Synchronisation\<close>

text \<open>
  C17: agreement, over connections that carry other packets as well, in both directions: when
  \<open>syncWithClient\<close> has returned, \<open>syncWithServer\<close> had received a ready message and sent its own
  before; and a client that has returned has its acknowledgement received by the server, or it is
  the only ready message in the channel to a server that is subscribed: it is never dropped.
\<close>

theorem sync_agreement_in_traffic:
  assumes "traffic_reachable t down up s"
  shows "(srv_pc (synced s) = S_Return \<longrightarrow> cli_pc (synced s) = C_Return \<and> serverReady (synced s)) \<and>
    (cli_pc (synced s) = C_Return \<longrightarrow> clientReady (synced s) \<or>
      srv_subs (synced s) \<and> (\<exists>p. upstream s t = [p] \<and> m_type p = t))"
proof -
  have "sync_inv (synced s)" by (rule sync_reachable_inv [OF traffic_refines(1) [OF assms]])
  moreover from traffic_refines(2) [OF assms]
  have "to_server (synced s) = 1 \<longrightarrow> (\<exists>p. upstream s t = [p] \<and> m_type p = t)"
    by (auto simp: counted_def length_Suc_conv)
  ultimately show ?thesis
    by (cases "srv_pc (synced s)"; cases "cli_pc (synced s)") (auto simp: sync_inv_def split: if_splits)
qed

theorem sync_agreement_in_traffic_witness:
  "\<exists>s down. traffic_reachable 3 down (\<lambda>_. []) s \<and> down 2 = [example_packet] \<and> srv_pc (synced s) = S_Return \<and>
    cli_pc (synced s) = C_Return"
proof -
  let ?down = "(\<lambda>_. [])(2 := [example_packet])"
  have start: "traffic_reachable 3 ?down (\<lambda>_. []) \<lparr>synced = sync_start, downstream = ?down, upstream = \<lambda>_. []\<rparr>"
    by (rule traffic_reachable.start) simp_all
  from traffic_completes [OF start] obtain s where s: "(traffic_step 3)\<^sup>*\<^sup>*
      \<lparr>synced = sync_start, downstream = ?down, upstream = \<lambda>_. []\<rparr> s" "srv_pc (synced s) = S_Return" by blast
  have "traffic_reachable 3 ?down (\<lambda>_. []) s" using s(1) start by (rule traffic_reachable_steps)
  from this sync_agreement_in_traffic [OF this] s(2) show ?thesis by (intro exI [of _ s] exI [of _ ?down]) simp
qed

text \<open>
  C18: completion. Let the two functions run over connections that carry other packets as well, in
  any interleaving, such that both go on whenever they can and a ready message under way
  arrives some time (weak fairness of these four actions). Then, whatever was dropped before the
  client subscribed, both functions return, and stay so.
\<close>

theorem sync_completes_when_fair:
  assumes "traffic_reachable t down up (f 0)" "run (traffic_step t) f"
    and "\<And>a. weakly_fair (sync_act a) (\<lambda>i. synced (f i))"
  shows "\<exists>j. \<forall>k\<ge>j. srv_pc (synced (f k)) = S_Return \<and> cli_pc (synced (f k)) = C_Return"
  using fair_traffic_stays_complete [OF assms] by (simp add: both_returned_def)

theorem sync_completes_when_fair_witness:
  "\<exists>f j. f 0 = \<lparr>synced = sync_start, downstream = (\<lambda>_. [])(2 := [example_packet]), upstream = \<lambda>_. []\<rparr> \<and>
    run (traffic_step 3) f \<and> srv_pc (synced (f j)) = S_Return \<and> cli_pc (synced (f j)) = C_Return"
proof -
  let ?down = "(\<lambda>_. [])(2 := [example_packet])"
  let ?s = "\<lparr>synced = sync_start, downstream = ?down, upstream = \<lambda>_. []\<rparr>"
  have start: "traffic_reachable 3 ?down (\<lambda>_. []) ?s" by (rule traffic_reachable.start) simp_all
  obtain f where f: "f 0 = ?s" "run (traffic_step 3) f" "\<And>a. weakly_fair (sync_act a) (\<lambda>i. synced (f i))"
    using fair_traffic_exists [OF traffic_refines(2) [OF start]] by blast
  have "traffic_reachable 3 ?down (\<lambda>_. []) (f 0)" using start f(1) by simp
  from sync_completes_when_fair [OF this f(2,3)] f(1,2) show ?thesis by blast
qed

text \<open>
  Without fairness: from every reachable state, however the messages, the other packets and the two
  ends have been interleaved and whatever was dropped before the client subscribed, there is a
  continuation in which both functions return; it needs no other packet to be delivered first.
\<close>

lemma sync_completes_in_traffic:
  assumes "traffic_reachable t down up s"
  shows "\<exists>s'. (traffic_step t)\<^sup>*\<^sup>* s s' \<and> srv_pc (synced s') = S_Return \<and> cli_pc (synced s') = C_Return"
  using traffic_completes [OF assms] .

lemma sync_completes_in_traffic_witness:
  "\<exists>s'. (traffic_step 3)\<^sup>*\<^sup>* \<lparr>synced = sync_start, downstream = (\<lambda>_. [])(2 := [example_packet]), upstream = \<lambda>_. []\<rparr> s' \<and>
    srv_pc (synced s') = S_Return \<and> cli_pc (synced s') = C_Return"
  by (rule sync_completes_in_traffic [where down = "(\<lambda>_. [])(2 := [example_packet])" and up = "\<lambda>_. []"],
      rule traffic_reachable.start) simp_all

text \<open>The same two facts when only the ready messages are counted.\<close>

lemma sync_agreement:
  assumes "sync_reachable s"
  shows "(srv_pc s = S_Return \<longrightarrow> cli_pc s = C_Return \<and> serverReady s) \<and>
    (cli_pc s = C_Return \<longrightarrow> clientReady s \<or> srv_subs s \<and> to_server s = 1)"
proof -
  have "sync_inv s" by (rule sync_reachable_inv [OF assms])
  then show ?thesis by (cases "srv_pc s"; cases "cli_pc s") (auto simp: sync_inv_def split: if_splits)
qed

lemma sync_agreement_witness:
  "sync_reachable example_synced \<and> srv_pc example_synced = S_Return \<and> cli_pc example_synced = C_Return"
  using sync_agreement [OF example_synced_reachable] example_synced_reachable example_synced_returned
  by blast

lemma sync_can_complete:
  assumes "sync_reachable s"
  shows "\<exists>s'. sync_step\<^sup>*\<^sup>* s s' \<and> srv_pc s' = S_Return \<and> cli_pc s' = C_Return"
  using sync_completes [OF sync_reachable_inv [OF assms]] .

lemma sync_can_complete_witness:
  "\<exists>s'. sync_step\<^sup>*\<^sup>* sync_start s' \<and> srv_pc s' = S_Return \<and> cli_pc s' = C_Return"
  by (rule sync_can_complete [OF sync_reachable.start])

end
